(* ===== verification/Prelude.thy ===== *)
theory Prelude
  imports Main "HOL-Library.Word"
begin

text \<open>
  Shared vocabulary of the development: the C integer types as machine words, the C operators
  whose meaning differs from HOL's (logical negation as an \<open>int\<close>, truncating conversion,
  shifts by a run-time amount), the C \<open>for\<close> loop as a recursive function with its
  invariant rules, and the generic list facts that several components use.
\<close>

unbundle bit_operations_syntax

named_theorems c_simps "evaluation rules for the C operators"

type_synonym c_int = "32 word"
type_synonym c_uint = "32 word"
type_synonym c_ulong = "64 word"

section \<open>C operators on \<open>int\<close>\<close>

text \<open>The value of a comparison or of \<open>!\<close> in C is the \<open>int\<close> 0 or 1.\<close>

definition c_bool :: "bool \<Rightarrow> c_int" where
  "c_bool b = (if b then 1 else 0)"

definition c_not :: "c_int \<Rightarrow> c_int" where
  "c_not x = c_bool (x = 0)"

lemma c_bool_simps [simp, c_simps]: "c_bool True = 1" "c_bool False = 0"
  by (simp_all add: c_bool_def)

lemma c_bool_eq_iff [simp]: "c_bool a = c_bool b \<longleftrightarrow> a = b"
  by (simp add: c_bool_def)

lemma c_bool_eq_0_iff [simp]: "c_bool a = 0 \<longleftrightarrow> \<not> a"
  by (simp add: c_bool_def)

lemma c_bool_eq_1_iff [simp]: "c_bool a = 1 \<longleftrightarrow> a"
  by (simp add: c_bool_def)

lemma c_bool_and [simp]: "c_bool a AND c_bool b = c_bool (a \<and> b)"
  by (simp add: c_bool_def)

lemma c_bool_or [simp]: "c_bool a OR c_bool b = c_bool (a \<or> b)"
  by (simp add: c_bool_def)

lemma c_bool_and_one [simp]: "c_bool a AND 1 = c_bool a"
  by (simp add: c_bool_def)

lemma c_not_bool [simp]: "c_not (c_bool a) = c_bool (\<not> a)"
  by (simp add: c_not_def)

lemma c_not_not [simp]: "c_not (c_not x) = c_bool (x \<noteq> 0)"
  by (simp add: c_not_def)

text \<open>
  Arithmetic right shift and left shift of an \<open>int\<close> by a constant amount between 0 and 31.
\<close>

abbreviation c_sar :: "c_int \<Rightarrow> nat \<Rightarrow> c_int" where
  "c_sar x n \<equiv> signed_drop_bit n x"

abbreviation c_shl :: "c_int \<Rightarrow> nat \<Rightarrow> c_int" where
  "c_shl x n \<equiv> push_bit n x"

lemma bit_c_sar: "bit (c_sar x n) i \<longleftrightarrow> i < 32 \<and> bit x (if i + n < 32 then i + n else 31)"
  for x :: "32 word"
  using bit_imp_le_length [of x "i + n"]
  by (auto simp: bit_signed_drop_bit_iff not_less not_le ac_simps simp del: One_nat_def)

lemma bit_31_iff: "bit x 31 \<longleftrightarrow> x <s 0" for x :: c_int
proof -
  have "sint x < 0 \<longleftrightarrow> bit (uint x) 31"
    by (simp add: sint_uint signed_take_bit_negative_iff)
  then show ?thesis by (simp add: word_sless_alt bit_uint_iff)
qed

lemma c_sar_31: "c_sar x 31 = (if x <s 0 then - 1 else 0)" for x :: c_int
  by (rule bit_word_eqI) (auto simp: bit_c_sar bit_simps simp flip: bit_31_iff)

text \<open>Signed and unsigned readings of an \<open>int\<close>, and its sign bit.\<close>

lemma sint_bounds: "- 2147483648 \<le> sint x" "sint x < 2147483648" for x :: c_int
  using sint_range_size [of x] by (simp_all add: word_size)

lemma sint_eq_iff: "a = b \<longleftrightarrow> sint a = sint b" for a b :: c_int
  by (auto intro: signed_word_eqI)

lemma sint_wrap: "sint (word_of_int k :: c_int) = k" if "- 2147483648 \<le> k" "k < 2147483648"
  using that by (simp add: signed_of_int signed_take_bit_int_eq_self)

lemma sint_sub_exact: "sint (a - b) = sint a - sint b"
  if "- 2147483648 \<le> sint a - sint b" "sint a - sint b < 2147483648" for a b :: c_int
proof -
  have "a - b = word_of_int (sint a - sint b)" by simp
  with that show ?thesis using sint_wrap by metis
qed

lemma xor_eq_0_iff: "a XOR b = 0 \<longleftrightarrow> a = b" for a b :: c_int
  proof
  assume "a XOR b = 0"
  then have "(a XOR b) XOR b = b" by simp
  then show "a = b" by (simp add: xor.assoc)
qed simp

lemma double_eq_0: "y + y = 0 \<longleftrightarrow> y = 0 \<or> y = 0x80000000" for y :: c_int
proof
  assume "y + y = 0"
  then have "uint (y + y) = 0" by simp
  then have "(uint y + uint y) mod 4294967296 = 0" by (simp only: uint_word_ariths) simp
  then obtain k where k: "uint y + uint y = 4294967296 * k"
    unfolding mod_eq_0_iff_dvd by (rule dvdE)
  have "0 \<le> uint y" "uint y < 4294967296" using uint_lt2p [of y] by simp_all
  with k have "k = 0 \<or> k = 1" by linarith
  with k have "uint y = 0 \<or> uint y = 0x80000000" by auto
  then show "y = 0 \<or> y = 0x80000000" by (simp add: word_uint_eq_iff)
qed auto

lemma sar_31_and_1: "c_sar x 31 AND 1 = c_bool (x <s 0)" for x :: c_int
  by (simp add: c_sar_31 c_bool_def)

lemma bitw_sless_0: "(NOT a) <s 0 \<longleftrightarrow> \<not> a <s 0" "(a AND b) <s 0 \<longleftrightarrow> a <s 0 \<and> b <s 0"
  "(a OR b) <s 0 \<longleftrightarrow> a <s 0 \<or> b <s 0" "(a XOR b) <s 0 \<longleftrightarrow> (a <s 0) \<noteq> (b <s 0)" for a b :: c_int
  by (simp_all add: bit_simps flip: bit_31_iff)

lemma not_plus_1: "NOT y + 1 = - y" for y :: c_int
  by (simp add: not_eq_complement)

lemma and_shl_1: "i < 32 \<Longrightarrow> x AND c_shl 1 i = 0 \<longleftrightarrow> \<not> bit x i" for x :: c_int
  by (simp add: and_exp_eq_0_iff_not_bit push_bit_eq_mult)

lemma c_sar_nonneg: "\<not> x <s 0 \<Longrightarrow> c_sar x k = drop_bit k x" for x :: c_int
  by (rule bit_word_eqI) (auto simp: bit_c_sar bit_drop_bit_eq bit_31_iff ac_simps dest: bit_imp_le_length)

lemma unat_drop_bit: "unat (drop_bit k x) = unat x div 2 ^ k" for x :: "'a::len word"
  by (metis unat_drop_bit_eq drop_bit_eq_div)

lemma nonneg_iff: "\<not> x <s 0 \<longleftrightarrow> unat x < 2 ^ 31" for x :: c_int
proof -
  have "x <s 0 \<longleftrightarrow> bit (unat x) 31" by (simp add: bit_31_iff [symmetric] bit_unsigned_iff)
  also have "\<dots> \<longleftrightarrow> odd (unat x div 2 ^ 31)" by (simp add: bit_iff_odd)
  also have "unat x div 2 ^ 31 < 2" using unsigned_less [of x] by (simp add: div_less_iff_less_mult)
  then have "odd (unat x div 2 ^ 31) \<longleftrightarrow> unat x div 2 ^ 31 \<noteq> 0" by (auto elim: oddE)
  finally show ?thesis by (simp add: div_eq_0_iff)
qed

text \<open>
  A shift whose amount is computed at run time. C leaves a negative amount, or one of 32 or
  more, undefined: what the machine delivers then is the parameter \<open>oob\<close>.
\<close>

definition c_shl_by :: "(c_int \<Rightarrow> int \<Rightarrow> c_int) \<Rightarrow> c_int \<Rightarrow> int \<Rightarrow> c_int" where
  "c_shl_by oob x n = (if 0 \<le> n \<and> n < 32 then push_bit (nat n) x else oob x n)"

text \<open>On x86 a 32-bit shift instruction uses its count modulo 32.\<close>

definition x86_shl :: "c_int \<Rightarrow> int \<Rightarrow> c_int" where
  "x86_shl x n = push_bit (nat (n mod 32)) x"

lemma c_shl_by_in_range: "0 \<le> n \<Longrightarrow> n < 32 \<Longrightarrow> c_shl_by oob x n = push_bit (nat n) x"
  by (simp add: c_shl_by_def)

section \<open>The C for loop\<close>

text \<open>
  \<open>for (i = i0; i < hi; i += step) body\<close> with the other variables the body writes in the
  state \<open>s\<close>. The final value of \<open>i\<close> is returned with the state, since C code reads it
  after the loop. A step that is not positive does not occur in the modelled code.
\<close>

function for_up :: "int \<Rightarrow> int \<Rightarrow> int \<Rightarrow> (int \<Rightarrow> 's \<Rightarrow> 's) \<Rightarrow> 's \<Rightarrow> int \<times> 's" where
  "for_up i hi st body s =
     (if i < hi \<and> 0 < st then for_up (i + st) hi st body (body i s) else (i, s))"
  by pat_completeness auto
termination
  by (relation "measure (\<lambda>(i, hi, st, body, s). nat (hi - i))") auto

declare for_up.simps [simp del]

lemma for_up_done [simp]: "\<not> i < hi \<Longrightarrow> for_up i hi st body s = (i, s)"
  by (simp add: for_up.simps)

lemma for_up_step: "i < hi \<Longrightarrow> 0 < st \<Longrightarrow>
    for_up i hi st body s = for_up (i + st) hi st body (body i s)"
  by (simp add: for_up.simps)

text \<open>
  The invariant rule: an invariant of index and state that holds at the start and that every
  iteration carries to the next index holds at the end, where the guard fails.
\<close>

lemma for_up_rule:
  assumes "P i s" and "0 < st"
    and step: "\<And>j t. P j t \<Longrightarrow> j < hi \<Longrightarrow> P (j + st) (body j t)"
  shows "P (fst (for_up i hi st body s)) (snd (for_up i hi st body s))
    \<and> \<not> fst (for_up i hi st body s) < hi"
  using assms
proof (induction i hi st body s rule: for_up.induct)
  case (1 i hi st body s)
  show ?case
  proof (cases "i < hi")
    case True
    then have "P (i + st) (body i s)" by (simp add: "1.prems")
    with True "1.IH" "1.prems" show ?thesis by (simp add: for_up_step)
  next
    case False
    then show ?thesis using "1.prems" by simp
  qed
qed

lemma for_up_inv:
  assumes "for_up i hi st body s = (j, t)" "P i s" "0 < st"
    and "\<And>j t. P j t \<Longrightarrow> j < hi \<Longrightarrow> P (j + st) (body j t)"
  shows "P j t \<and> \<not> j < hi"
  using for_up_rule [of P i s st hi body] assms by auto

text \<open>The indices a loop visits, and the loop as a fold over them.\<close>

function steps :: "int \<Rightarrow> int \<Rightarrow> int \<Rightarrow> int list" where
  "steps i hi st = (if i < hi \<and> 0 < st then i # steps (i + st) hi st else [])"
  by pat_completeness auto
termination
  by (relation "measure (\<lambda>(i, hi, st). nat (hi - i))") auto

declare steps.simps [simp del]

lemma for_up_fold: "snd (for_up i hi st body s) = fold body (steps i hi st) s"
  by (induction i hi st body s rule: for_up.induct) (subst for_up.simps, subst steps.simps, simp)

lemma set_steps: "0 < st \<Longrightarrow> set (steps i hi st) = {j. i \<le> j \<and> j < hi \<and> st dvd (j - i)}"
proof (induction i hi st rule: steps.induct)
  case (1 i hi st)
  show ?case
  proof (cases "i < hi")
    case True
    have gap: "j = i \<or> i + st \<le> j" if "i \<le> j" "st dvd (j - i)" for j
      using that zdvd_imp_le [of st "j - i"] by linarith
    have red: "st dvd (j - i) \<longleftrightarrow> st dvd (j - (i + st))" for j
      using dvd_add_left_iff [of st st "j - (i + st)"] by simp
    have "set (steps i hi st) = insert i {j. i + st \<le> j \<and> j < hi \<and> st dvd (j - (i + st))}"
      using 1 True by (subst steps.simps) simp
    also have "\<dots> = {j. i \<le> j \<and> j < hi \<and> st dvd (j - i)}"
      unfolding red [symmetric] using gap True 1(2) by (intro set_eqI) (simp only: insert_iff mem_Collect_eq, smt (verit) dvd_0_right diff_self)
    finally show ?thesis .
  next
    case False
    then show ?thesis by (subst steps.simps) auto
  qed
qed

lemma set_steps_1 [simp]: "set (steps i hi 1) = {i..<hi}"
  by (auto simp: set_steps)

lemma fold_concat_map: "fold (\<lambda>x. fold (f x) (g x)) xs s = fold (\<lambda>(x, y). f x y) (concat (map (\<lambda>x. map (Pair x) (g x)) xs)) s"
  by (induction xs arbitrary: s) (auto simp: fold_map comp_def)

text \<open>A \<open>for\<close> loop whose body may return from the function.\<close>

function for_ret :: "int \<Rightarrow> int \<Rightarrow> (int \<Rightarrow> 'r option) \<Rightarrow> 'r option" where
  "for_ret i hi body =
     (if i < hi then (case body i of Some r \<Rightarrow> Some r | None \<Rightarrow> for_ret (i + 1) hi body) else None)"
  by pat_completeness auto
termination
  by (relation "measure (\<lambda>(i, hi, body). nat (hi - i))") auto

declare for_ret.simps [simp del]

lemma for_ret_None_iff: "for_ret i hi body = None \<longleftrightarrow> (\<forall>j. i \<le> j \<and> j < hi \<longrightarrow> body j = None)"
proof (induction i hi body rule: for_ret.induct)
  case (1 i hi body)
  have "i < hi \<Longrightarrow> (\<forall>j. i \<le> j \<and> j < hi \<longrightarrow> body j = None) \<longleftrightarrow>
      body i = None \<and> (\<forall>j. i + 1 \<le> j \<and> j < hi \<longrightarrow> body j = None)"
    by (metis add1_zle_eq order_le_less order_refl)
  then show ?case using 1 by (subst for_ret.simps) (auto split: option.splits)
qed

lemma for_ret_SomeD:
  "for_ret i hi body = Some r \<Longrightarrow> \<exists>j. i \<le> j \<and> j < hi \<and> body j = Some r \<and> (\<forall>k. i \<le> k \<and> k < j \<longrightarrow> body k = None)"
proof (induction i hi body rule: for_ret.induct)
  case (1 i hi body)
  show ?case
  proof (cases "i < hi \<and> body i = None")
    case True
    then obtain j where "i + 1 \<le> j" "j < hi" "body j = Some r" "\<forall>k. i + 1 \<le> k \<and> k < j \<longrightarrow> body k = None"
      using 1 by (subst (asm) (2) for_ret.simps) auto
    with True show ?thesis by (intro exI [of _ j]) (metis add1_zle_eq order_le_less)
  next
    case False
    then show ?thesis using 1(2) by (subst (asm) for_ret.simps) (auto split: option.splits if_splits)
  qed
qed

text \<open>The conversion of a value to \<open>int\<close>, which keeps its low 32 bits.\<close>

definition to_int :: "int \<Rightarrow> int" where
  "to_int n = sint (word_of_int n :: c_int)"

lemma to_int_small: "- (2 ^ 31) \<le> n \<Longrightarrow> n < 2 ^ 31 \<Longrightarrow> to_int n = n"
  by (simp add: to_int_def sint_wrap)

lemma to_int_big: "2 ^ 31 \<le> n \<Longrightarrow> n < 2 ^ 32 \<Longrightarrow> to_int n = n - 2 ^ 32"
proof -
  assume n: "2 ^ 31 \<le> n" "n < 2 ^ 32"
  have "(word_of_int n :: c_int) = word_of_int (n - 2 ^ 32)" by simp
  moreover have "sint (word_of_int (n - 2 ^ 32) :: c_int) = n - 2 ^ 32" by (rule sint_wrap) (use n in simp_all)
  ultimately show ?thesis unfolding to_int_def by (simp only:)
qed

lemma to_int_idem [simp]: "to_int (to_int m) = to_int m"
  by (simp add: to_int_def)

lemma to_int_add [simp]: "to_int (to_int m + n) = to_int (m + n)"
  by (simp add: to_int_def)

end
