(* ===== verification/Datalab_Bits.thy ===== *)
theory Datalab_Bits
  imports Prelude
begin

text \<open>
  The integer puzzles of \<open>datalab/bits.c\<close> on 32-bit words, the reference functions of
  \<open>datalab/tests.c\<close> that the lab's driver compares them with, and the proof that each
  puzzle agrees with its reference on every argument.
\<close>

section \<open>The puzzles of bits.c\<close>

definition bitXor :: "c_int \<Rightarrow> c_int \<Rightarrow> c_int" where
  "bitXor x y = NOT (x AND y) AND NOT (NOT x AND NOT y)"

definition tmin :: c_int where
  "tmin = c_shl 1 31"

definition isTmax :: "c_int \<Rightarrow> c_int" where
  "isTmax x = c_not (c_not (x + 1)) AND c_not (NOT x XOR (x + 1))"

definition allOddBits :: "c_int \<Rightarrow> c_int" where
  "allOddBits x =
     (let comb = c_sar x 24 AND c_sar x 16 AND c_sar x 8 AND x AND 0xAA
      in c_not (comb XOR 0xAA))"

definition negate :: "c_int \<Rightarrow> c_int" where
  "negate x = 1 + NOT x"

definition isAsciiDigit :: "c_int \<Rightarrow> c_int" where
  "isAsciiDigit x =
     c_not (c_sar x 4 XOR 3) AND
     (c_not (x XOR (x AND 0x37)) OR c_not (x XOR (x AND 0x39)))"

definition conditional :: "c_int \<Rightarrow> c_int \<Rightarrow> c_int \<Rightarrow> c_int" where
  "conditional x y z =
     (let x = c_not x + NOT 0
      in (y AND x) OR (NOT x AND z))"

definition isLessOrEqual :: "c_int \<Rightarrow> c_int \<Rightarrow> c_int" where
  "isLessOrEqual x y =
     (let xminusy = x + NOT y + 1
      in c_not (x XOR y) OR (c_sar (x AND NOT y) 31 AND 0x01) OR
         (c_not (c_sar (x XOR y) 31 AND 0x01) AND (c_sar xminusy 31 AND 0x01)))"

definition logicalNeg :: "c_int \<Rightarrow> c_int" where
  "logicalNeg x = c_sar (NOT (x OR (NOT x + 1))) 31 AND 1"

text \<open>
  One stage of \<open>howManyBits\<close>: \<open>bit = !!(x >> k) << b; res += bit; x = x >> bit\<close>.
\<close>

definition howManyBits_stage :: "nat \<Rightarrow> nat \<Rightarrow> c_int \<times> c_int \<Rightarrow> c_int \<times> c_int" where
  "howManyBits_stage k b = (\<lambda>(res, x).
     let bit = c_shl (c_not (c_not (c_sar x k))) b
     in (res + bit, c_sar x (unat bit)))"

definition howManyBits :: "c_int \<Rightarrow> c_int" where
  "howManyBits x =
     (let x = x XOR c_sar x 31;
          (res, x) = howManyBits_stage 1 0
            (howManyBits_stage 2 1
            (howManyBits_stage 4 2
            (howManyBits_stage 8 3
            (howManyBits_stage 16 4 (1, x)))))
      in x + res)"

section \<open>The references of tests.c\<close>

definition test_bitXor :: "c_int \<Rightarrow> c_int \<Rightarrow> c_int" where
  "test_bitXor x y = x XOR y"

definition test_tmin :: c_int where
  "test_tmin = 0x80000000"

definition test_isTmax :: "c_int \<Rightarrow> c_int" where
  "test_isTmax x = c_bool (x = 0x7FFFFFFF)"

text \<open>\<open>for (i = 1; i < 32; i+=2) if ((x & (1<<i)) == 0) return 0; return 1;\<close>\<close>

function test_allOddBits_loop :: "nat \<Rightarrow> c_int \<Rightarrow> c_int" where
  "test_allOddBits_loop i x =
     (if i < 32
      then if x AND c_shl 1 i = 0 then 0 else test_allOddBits_loop (i + 2) x
      else 1)"
  by pat_completeness auto
termination
  by (relation "measure (\<lambda>(i, x). 32 - i)") auto

definition test_allOddBits :: "c_int \<Rightarrow> c_int" where
  "test_allOddBits x = test_allOddBits_loop 1 x"

definition test_negate :: "c_int \<Rightarrow> c_int" where
  "test_negate x = - x"

definition test_isAsciiDigit :: "c_int \<Rightarrow> c_int" where
  "test_isAsciiDigit x = c_bool (0x30 \<le>s x \<and> x \<le>s 0x39)"

definition test_conditional :: "c_int \<Rightarrow> c_int \<Rightarrow> c_int \<Rightarrow> c_int" where
  "test_conditional x y z = (if x \<noteq> 0 then y else z)"

definition test_isLessOrEqual :: "c_int \<Rightarrow> c_int \<Rightarrow> c_int" where
  "test_isLessOrEqual x y = c_bool (x \<le>s y)"

definition test_logicalNeg :: "c_int \<Rightarrow> c_int" where
  "test_logicalNeg x = c_not x"

text \<open>\<open>for (cnt = 0; a; a >>= 1, cnt++) ;\<close> on an unsigned \<open>a\<close>.\<close>

function test_howManyBits_loop :: "c_uint \<Rightarrow> c_uint \<Rightarrow> c_uint" where
  "test_howManyBits_loop a cnt =
     (if a \<noteq> 0 then test_howManyBits_loop (drop_bit 1 a) (cnt + 1) else cnt)"
  by pat_completeness auto
termination
proof (relation "measure (\<lambda>(a, cnt). unat a)")
  fix a cnt :: c_uint
  assume "a \<noteq> 0"
  then show "((drop_bit 1 a, cnt + 1), (a, cnt)) \<in> measure (\<lambda>(a, cnt). unat a)"
    by (simp add: unat_drop_bit_eq drop_bit_eq_div unat_gt_0 unat_div)
qed simp

declare test_allOddBits_loop.simps [simp del] test_howManyBits_loop.simps [simp del]

definition test_howManyBits :: "c_int \<Rightarrow> c_int" where
  "test_howManyBits x =
     (let x = (if x <s 0 then - x - 1 else x)
      in test_howManyBits_loop x 0 + 1)"

section \<open>Every puzzle agrees with its reference\<close>

lemma bitXor_ok: "bitXor x y = test_bitXor x y"
  unfolding bitXor_def test_bitXor_def
  by (rule bit_word_eqI) (auto simp: bit_simps)

lemma tmin_ok: "tmin = test_tmin"
  by (simp add: tmin_def test_tmin_def)

lemma negate_ok: "negate x = test_negate x"
  by (simp add: negate_def test_negate_def not_eq_complement)

lemma conditional_ok: "conditional x y z = test_conditional x y z"
  by (auto simp: conditional_def test_conditional_def c_not_def c_bool_def)

text \<open>\<open>isTmax\<close> is true of the largest \<open>int\<close> only; the other word whose successor is its
  complement, minus one, is told apart by its zero successor.\<close>

lemma isTmax_ok: "isTmax x = test_isTmax x"
proof -
  have "NOT x XOR (x + 1) = 0 \<longleftrightarrow> - (x + 1) = x + 1"
    by (simp add: xor_eq_0_iff not_eq_complement)
  also have "\<dots> \<longleftrightarrow> (x + 1) + (x + 1) = 0" by (rule neg_eq_iff_add_eq_0)
  finally have 1: "NOT x XOR (x + 1) = 0 \<longleftrightarrow> (x + 1) + (x + 1) = 0" .
  have "x + 1 = 0x80000000 \<longleftrightarrow> x = 0x80000000 - 1"
    by (rule eq_diff_eq [symmetric])
  then have 2: "x + 1 = 0x80000000 \<longleftrightarrow> x = 0x7FFFFFFF" by simp
  show ?thesis
    unfolding isTmax_def test_isTmax_def c_not_not c_not_def[of "_ XOR _"] 1 double_eq_0 2
    by (cases "x = 0x7FFFFFFF") simp_all
qed

text \<open>\<open>logicalNeg\<close> is the C operator \<open>!\<close>: the sign of \<open>x | -x\<close> tells zero from every other
  word.\<close>

lemma logicalNeg_ok: "logicalNeg x = test_logicalNeg x"
proof -
  have "x = 0 \<or> x <s 0 \<or> - x <s 0"
  proof (cases "x <s 0 \<or> x = 0")
    case False
    then have "0 < sint x" using sint_eq_iff [of x 0] by (simp add: word_sless_alt)
    then have "sint (0 - x) = - sint x"
      using sint_sub_exact [of 0 x] sint_bounds [of x] by simp
    with \<open>0 < sint x\<close> show ?thesis by (simp add: word_sless_alt)
  qed auto
  then show ?thesis
    unfolding logicalNeg_def test_logicalNeg_def sar_31_and_1 bitw_sless_0 not_plus_1 c_not_def
    by auto
qed

text \<open>\<open>isLessOrEqual\<close> decides the signed comparison \<open>x <= y\<close> on all pairs, the ones whose
  difference overflows included.\<close>

theorem isLessOrEqual_ok: "isLessOrEqual x y = test_isLessOrEqual x y"
proof -
  have 1: "x + NOT y + 1 = x - y" by (simp add: not_eq_complement)
  have 2: "sint (x - y) = sint x - sint y" if "(x <s 0) = (y <s 0)"
    using that sint_sub_exact [of x y] sint_bounds [of x] sint_bounds [of y]
    by (auto simp: word_sless_alt)
  have 3: "x = y \<longleftrightarrow> sint x = sint y" by (rule sint_eq_iff)
  have "x \<le>s y \<longleftrightarrow> x = y \<or> x <s 0 \<and> \<not> y <s 0 \<or> (x <s 0) = (y <s 0) \<and> x - y <s 0"
  proof (cases "(x <s 0) = (y <s 0)")
    case True
    then show ?thesis using 2 [OF True] unfolding word_sle_eq 3 by (auto simp: word_sless_alt)
  next
    case False
    then show ?thesis unfolding word_sle_eq 3 by (auto simp: word_sless_alt)
  qed
  then show ?thesis
    unfolding isLessOrEqual_def test_isLessOrEqual_def 1 Let_def sar_31_and_1 bitw_sless_0
      c_not_def xor_eq_0_iff by auto
qed

text \<open>\<open>isAsciiDigit\<close> returns 1 exactly on \<open>0x30\<close> to \<open>0x39\<close>, as its reference does, on every
  \<open>int\<close>.\<close>

lemma isAsciiDigit_ok: "isAsciiDigit x = test_isAsciiDigit x"
proof -
  have "c_sar x 4 = 3 \<longleftrightarrow> sint x div 16 = 3"
    unfolding sint_eq_iff sint_signed_drop_bit_eq drop_bit_eq_div by simp
  also have "\<dots> \<longleftrightarrow> sint x \<in> {48..63}" by auto
  finally have 1: "c_sar x 4 = 3 \<longleftrightarrow> sint x \<in> {48..63}" .
  show ?thesis
  proof (cases "sint x \<in> {48..63}")
    case True
    have "{48..63} = set [48, 49, 50, 51, 52, 53, 54, 55, 56, 57, 58, 59, 60, 61, 62, 63 :: int]"
      by (simp add: set_eq_iff) presburger
    with True have "sint x \<in> set [48, 49, 50, 51, 52, 53, 54, 55, 56, 57, 58, 59, 60, 61, 62, 63 :: int]"
      by simp
    then have "x \<in> word_of_int ` set [48, 49, 50, 51, 52, 53, 54, 55, 56, 57, 58, 59, 60, 61, 62, 63 :: int]"
      by (intro image_eqI [where x = "sint x"]) simp_all
    then show ?thesis
      by (auto simp: isAsciiDigit_def test_isAsciiDigit_def c_not_def)
  next
    case False
    then show ?thesis
      by (auto simp: isAsciiDigit_def test_isAsciiDigit_def c_not_def xor_eq_0_iff 1 word_sle_eq)
  qed
qed

subsection \<open>allOddBits\<close>

lemma bit_AA: "bit (0xAA :: c_int) n \<longleftrightarrow> n \<in> {1, 3, 5, 7}"
proof -
  have "(0xAA :: c_int) = 2 ^ 1 OR 2 ^ 3 OR 2 ^ 5 OR 2 ^ 7" by simp
  then show ?thesis by (simp only: bit_or_iff bit_exp_iff) auto
qed

lemma and_AA_eq: "w AND 0xAA = 0xAA \<longleftrightarrow> bit w 1 \<and> bit w 3 \<and> bit w 5 \<and> bit w 7" for w :: c_int
proof
  assume h: "w AND 0xAA = 0xAA"
  have "n \<in> {1, 3, 5, 7} \<Longrightarrow> bit w n" for n
    using arg_cong [OF h, of "\<lambda>v. bit v n"] unfolding bit_and_iff bit_AA by blast
  then show "bit w 1 \<and> bit w 3 \<and> bit w 5 \<and> bit w 7" by simp
next
  assume "bit w 1 \<and> bit w 3 \<and> bit w 5 \<and> bit w 7"
  then show "w AND 0xAA = 0xAA"
    unfolding bit_eq_iff bit_and_iff bit_AA by auto
qed

lemma test_allOddBits_loop_eq:
  "test_allOddBits_loop i x = c_bool (\<forall>j. i \<le> j \<and> j < 32 \<and> even (j - i) \<longrightarrow> bit x j)"
proof (induction i x rule: test_allOddBits_loop.induct)
  case (1 i x)
  show ?case
  proof (cases "i < 32")
    case True
    have "(\<forall>j. i \<le> j \<and> j < 32 \<and> even (j - i) \<longrightarrow> bit x j) \<longleftrightarrow>
      bit x i \<and> (\<forall>j. i + 2 \<le> j \<and> j < 32 \<and> even (j - (i + 2)) \<longrightarrow> bit x j)"
      (is "(\<forall>j. ?P j \<longrightarrow> _) \<longleftrightarrow> _ \<and> (\<forall>j. ?Q j \<longrightarrow> _)")
    proof -
      have "?P j \<longleftrightarrow> j = i \<or> ?Q j" for j using True by presburger
      then show ?thesis by auto
    qed
    with True "1.IH" show ?thesis
      by (subst test_allOddBits_loop.simps) (simp add: and_shl_1 c_bool_def del: push_bit_of_1 even_diff_nat)
  next
    case False
    then have "\<forall>j. i \<le> j \<and> j < 32 \<and> even (j - i) \<longrightarrow> bit x j" by auto
    then have "c_bool (\<forall>j. i \<le> j \<and> j < 32 \<and> even (j - i) \<longrightarrow> bit x j) = 1"
      by (simp only: c_bool_eq_1_iff)
    with False show ?thesis by (simp only: test_allOddBits_loop.simps [of i] if_False)
  qed
qed

lemma odd_less_32: "1 \<le> j \<and> j < 32 \<and> even (j - 1) \<longleftrightarrow>
    j \<in> {1,3,5,7,9,11,13,15,17,19,21,23,25,27,29,31}" for j :: nat
proof -
  have "filter (\<lambda>j. even (j - 1)) [1..<32] = [1,3,5,7,9,11,13,15,17,19,21,23,25,27,29,31]"
    by code_simp
  then have "j \<in> set (filter (\<lambda>j. even (j - 1)) [1..<32]) \<longleftrightarrow>
    j \<in> {1,3,5,7,9,11,13,15,17,19,21,23,25,27,29,31}"
    by (simp only: list.set)
  then show ?thesis
    by (simp only: set_filter set_upt mem_Collect_eq atLeastLessThan_iff conj_assoc)
qed

text \<open>\<open>allOddBits\<close> folds the four bytes into one and so agrees with the reference loop
  that tests the bits 1, 3, ..., 31 one by one.\<close>

lemma allOddBits_ok: "allOddBits x = test_allOddBits x"
proof -
  let ?S = "{1,3,5,7,9,11,13,15,17,19,21,23,25,27,29,31} :: nat set"
  have "c_sar x 24 AND c_sar x 16 AND c_sar x 8 AND x AND 0xAA =
    (c_sar x 24 AND c_sar x 16 AND c_sar x 8 AND x) AND 0xAA"
    by (simp only: and.assoc)
  moreover have "(c_sar x 24 AND c_sar x 16 AND c_sar x 8 AND x) AND 0xAA = 0xAA \<longleftrightarrow> (\<forall>j \<in> ?S. bit x j)"
    unfolding and_AA_eq bit_and_iff bit_c_sar by simp blast
  ultimately show ?thesis
    unfolding allOddBits_def Let_def c_not_def xor_eq_0_iff test_allOddBits_def
      test_allOddBits_loop_eq odd_less_32 by (simp only: Ball_def)
qed

subsection \<open>howManyBits\<close>

text \<open>The number of binary digits, which both the stages and the reference loop compute.\<close>

fun bit_length :: "nat \<Rightarrow> nat" where
  "bit_length n = (if n = 0 then 0 else Suc (bit_length (n div 2)))"

declare bit_length.simps [simp del]

lemma bit_length_0 [simp]: "bit_length 0 = 0" by (simp add: bit_length.simps)

lemma bit_length_1 [simp]: "bit_length (Suc 0) = 1" by (simp add: bit_length.simps)

lemma bit_length_div: "n div 2 ^ k \<noteq> 0 \<Longrightarrow> bit_length n = k + bit_length (n div 2 ^ k)"
proof (induction k arbitrary: n)
  case (Suc k)
  have *: "n div 2 ^ Suc k = n div 2 div 2 ^ k" by (simp add: div_mult2_eq)
  with Suc have "bit_length (n div 2) = k + bit_length (n div 2 div 2 ^ k)" by metis
  moreover have "n \<noteq> 0" using Suc.prems by (cases n) auto
  ultimately show ?case unfolding * by (subst bit_length.simps) simp
qed simp

lemma test_howManyBits_loop_eq:
  "test_howManyBits_loop a cnt = cnt + of_nat (bit_length (unat a))"
proof (induction a cnt rule: test_howManyBits_loop.induct)
  case (1 a cnt)
  have "unat (drop_bit 1 a) = unat a div 2" by (simp add: unat_drop_bit_eq drop_bit_eq_div unat_div)
  with 1 show ?case
    by (subst test_howManyBits_loop.simps) (auto simp: bit_length.simps [of "unat a"] unat_eq_0)
qed

lemma howManyBits_stage_eq:
  assumes "\<not> x <s 0" and k: "k = 2 ^ b" and "b < 5"
  shows "howManyBits_stage k b (res, x) =
    (if unat x div 2 ^ k = 0 then (res, x) else (res + of_nat k, drop_bit k x))"
proof -
  have sar: "c_sar x k = drop_bit k x" by (rule c_sar_nonneg) (rule assms(1))
  have z: "drop_bit k x = 0 \<longleftrightarrow> unat x div 2 ^ k = 0"
    by (metis unat_drop_bit unsigned_0 unsigned_eq_0_iff)
  have p: "push_bit b (1 :: c_int) = of_nat k" "unat (of_nat k :: c_int) = k"
  proof -
    have "b \<in> {0, 1, 2, 3, 4}" using \<open>b < 5\<close> by auto
    then show "push_bit b (1 :: c_int) = of_nat k" "unat (of_nat k :: c_int) = k"
      by (auto simp: k push_bit_eq_mult)
  qed
  show ?thesis
    by (cases "unat x div 2 ^ k = 0")
      (simp_all only: howManyBits_stage_def Let_def c_not_not sar z c_bool_simps simp_thms p
        prod.case if_False if_True not_True_eq_False not_False_eq_True push_bit_of_0
        unsigned_0 signed_drop_bit_0 add_0_right)
qed

text \<open>
  What the stages keep: the result so far plus the length of what is left of \<open>x\<close>.
\<close>

lemma howManyBits_stage_step:
  assumes "unat x < 2 ^ (2 * k)" and "\<not> x <s 0" and "k = 2 ^ b" and "b < 5"
  obtains res' x' where "howManyBits_stage k b (res, x) = (res', x')"
    and "unat x' < 2 ^ k" and "\<not> x' <s 0"
    and "res' + of_nat (bit_length (unat x')) = res + of_nat (bit_length (unat x))"
proof (cases "unat x div 2 ^ k = 0")
  case True
  then have "unat x < 2 ^ k" by (simp add: div_eq_0_iff)
  with True assms that show ?thesis by (simp add: howManyBits_stage_eq)
next
  case False
  have "unat (drop_bit k x) < 2 ^ k"
    using assms(1) by (simp add: unat_drop_bit div_less_iff_less_mult mult_2 power_add)
  moreover have "\<not> drop_bit k x <s 0"
    using assms(2) by (simp add: nonneg_iff unat_drop_bit) (meson div_le_dividend le_less_trans)
  moreover have "res + of_nat k + of_nat (bit_length (unat (drop_bit k x))) =
      res + of_nat (bit_length (unat x))"
    using bit_length_div [OF False] by (simp add: unat_drop_bit)
  ultimately show ?thesis
    using that False assms by (simp add: howManyBits_stage_eq)
qed

text \<open>C8: \<open>howManyBits\<close> returns, for every \<open>int\<close>, the number the reference loop of the
  driver counts: one more than the length of the magnitude of \<open>x\<close> in two's complement.\<close>

theorem howManyBits_ok: "howManyBits x = test_howManyBits x"
proof -
  define y where "y = x XOR c_sar x 31"
  have y: "y = (if x <s 0 then - x - 1 else x)"
    by (simp add: y_def c_sar_31 not_eq_complement)
  have "\<not> y <s 0" unfolding y_def by (simp add: bitw_sless_0 c_sar_31)
  then have y32: "unat y < 2 ^ (2 * 16)" by (simp add: nonneg_iff)
  obtain r1 x1 where 1: "howManyBits_stage 16 4 (1, y) = (r1, x1)"
    "unat x1 < 2 ^ (2 * 8)" "\<not> x1 <s 0"
    "r1 + of_nat (bit_length (unat x1)) = 1 + of_nat (bit_length (unat y))"
    by (rule howManyBits_stage_step [OF y32 \<open>\<not> y <s 0\<close>, of 4 1]) simp_all
  obtain r2 x2 where 2: "howManyBits_stage 8 3 (r1, x1) = (r2, x2)"
    "unat x2 < 2 ^ (2 * 4)" "\<not> x2 <s 0"
    "r2 + of_nat (bit_length (unat x2)) = r1 + of_nat (bit_length (unat x1))"
    by (rule howManyBits_stage_step [OF 1(2,3), of 3 r1]) simp_all
  obtain r3 x3 where 3: "howManyBits_stage 4 2 (r2, x2) = (r3, x3)"
    "unat x3 < 2 ^ (2 * 2)" "\<not> x3 <s 0"
    "r3 + of_nat (bit_length (unat x3)) = r2 + of_nat (bit_length (unat x2))"
    by (rule howManyBits_stage_step [OF 2(2,3), of 2 r2]) simp_all
  obtain r4 x4 where 4: "howManyBits_stage 2 1 (r3, x3) = (r4, x4)"
    "unat x4 < 2 ^ (2 * 1)" "\<not> x4 <s 0"
    "r4 + of_nat (bit_length (unat x4)) = r3 + of_nat (bit_length (unat x3))"
    by (rule howManyBits_stage_step [OF 3(2,3), of 1 r3]) simp_all
  obtain r5 x5 where 5: "howManyBits_stage 1 0 (r4, x4) = (r5, x5)" "unat x5 < 2"
    "r5 + of_nat (bit_length (unat x5)) = r4 + of_nat (bit_length (unat x4))"
    by (rule howManyBits_stage_step [OF 4(2,3), of 0 r4]) simp_all
  have "x5 = of_nat (bit_length (unat x5))"
  proof -
    have "unat x5 = 0 \<or> unat x5 = Suc 0" using 5(2) by linarith
    then have "bit_length (unat x5) = unat x5" by auto
    then show ?thesis by simp
  qed
  then have "x5 + r5 = 1 + of_nat (bit_length (unat y))"
    using 1(4) 2(4) 3(4) 4(4) 5(3) by (simp add: add.commute)
  moreover have "howManyBits x = x5 + r5"
    unfolding howManyBits_def Let_def y_def [symmetric] 1 2 3 4 5 by simp
  ultimately show ?thesis
    unfolding test_howManyBits_def Let_def test_howManyBits_loop_eq y [symmetric] by (simp add: add.commute)
qed

end
