(* ===== verification/Datalab_Float.thy ===== *)
theory Datalab_Float
  imports Prelude
begin

text \<open>
  The floating-point puzzles of \<open>datalab/bits.c\<close>: functions on the bit pattern of an IEEE
  single. A pattern denotes a value of \<open>float32\<close> (\<open>u2f\<close> of \<open>datalab/tests.c\<close>),
  whose finite magnitudes are natural numbers in units of \<open>2^-149\<close>, the smallest positive
  single, so that every statement is exact integer arithmetic.
\<close>

section \<open>The puzzles of bits.c\<close>

definition floatScale2 :: "c_uint \<Rightarrow> c_uint" where
  "floatScale2 uf =
     (let sign = drop_bit 31 uf AND 0x01;
          exp = drop_bit 23 uf AND 0xff;
          frac = uf XOR push_bit 31 sign XOR push_bit 23 exp
      in if exp XOR 0xff = 0 then uf
         else if exp = 0 then push_bit 31 sign OR push_bit 1 frac
         else push_bit 31 sign OR push_bit 23 (exp + 1) OR frac)"

text \<open>
  The shift \<open>>> (23-e)\<close> has a negative amount when \<open>e\<close> is above 23, which C leaves
  undefined: the result is then \<open>None\<close>.
\<close>

definition floatFloat2Int :: "c_uint \<Rightarrow> c_int option" where
  "floatFloat2Int uf =
     (let exp = drop_bit 23 uf AND 0xff;
          sign = drop_bit 31 uf AND 0x01;
          frac = uf XOR push_bit 31 sign XOR push_bit 23 exp
      in if exp XOR 0xff = 0 then Some (c_shl 1 31)
         else if exp = 0 then Some 0
         else
           let e = exp - 127
           in if e <s 0 then Some 0
              else if 30 <s e then Some (c_shl 1 31)
              else if 23 - e <s 0 then None
              else
                let frac = drop_bit (unat (23 - e)) (c_shl 1 23 OR frac)
                in if sign \<noteq> 0 then Some (- frac) else Some frac)"

definition floatPower2 :: "c_int \<Rightarrow> c_uint" where
  "floatPower2 x =
     (if x <s - 149 then 0
      else if 128 <s x then push_bit 23 0xff
      else if - 149 \<le>s x \<and> x \<le>s - 127 then
        let movq = - x - 126 - 1
        in c_shl 1 (unat (23 - movq))
      else c_shl (x + 127) 23)"

section \<open>What a bit pattern denotes\<close>

datatype float32 = NaN32 | Inf32 bool | Fin32 bool nat

definition f32_exp :: "c_uint \<Rightarrow> nat" where
  "f32_exp u = unat (take_bit 8 (drop_bit 23 u))"

definition f32_frac :: "c_uint \<Rightarrow> nat" where
  "f32_frac u = unat (take_bit 23 u)"

definition u2f :: "c_uint \<Rightarrow> float32" where
  "u2f u =
     (if f32_exp u = 255 then if f32_frac u = 0 then Inf32 (bit u 31) else NaN32
      else if f32_exp u = 0 then Fin32 (bit u 31) (f32_frac u)
      else Fin32 (bit u 31) ((2 ^ 23 + f32_frac u) * 2 ^ (f32_exp u - 1)))"

text \<open>IEEE doubling: exact, and infinite from \<open>2^277\<close> units (\<open>2^128\<close>) on.\<close>

fun f32_double :: "float32 \<Rightarrow> float32" where
  "f32_double NaN32 = NaN32"
| "f32_double (Inf32 s) = Inf32 s"
| "f32_double (Fin32 s m) = (if 2 * m < 2 ^ 277 then Fin32 s (2 * m) else Inf32 s)"

text \<open>
  The conversion \<open>(int) f\<close>: truncation towards zero, and \<open>0x80000000\<close> where no
  \<open>int\<close> is near enough, as the x86 conversion instructions deliver it.
\<close>

definition f32_to_int :: "float32 \<Rightarrow> c_int" where
  "f32_to_int f = (case f of
     NaN32 \<Rightarrow> 0x80000000
   | Inf32 s \<Rightarrow> 0x80000000
   | Fin32 s m \<Rightarrow>
       let t = (if s then - int (m div 2 ^ 149) else int (m div 2 ^ 149))
       in if - 2147483648 \<le> t \<and> t \<le> 2147483647 then word_of_int t else 0x80000000)"

section \<open>The three fields\<close>

lemma mask_8: "(0xff :: c_uint) = mask 8"
  by (simp add: mask_eq_exp_minus_1)

lemma sign_field: "drop_bit 31 u AND 0x01 = c_bool (bit u 31)" for u :: c_uint
proof (rule bit_word_eqI)
  fix n assume "n < LENGTH(32)"
  then show "bit (drop_bit 31 u AND 0x01) n = bit (c_bool (bit u 31)) n"
    by (cases n) (auto simp: bit_and_iff bit_drop_bit_eq c_bool_def bit_1_iff dest: bit_imp_le_length)
qed

lemma exp_field: "drop_bit 23 u AND 0xff = take_bit 8 (drop_bit 23 u)" for u :: c_uint
  unfolding mask_8 by (simp only: take_bit_eq_mask)

lemma bit_sign: "bit (push_bit 31 (c_bool b)) n \<longleftrightarrow> n = 31 \<and> b"
proof (cases b)
  case True
  then have "c_bool b = 1" by simp
  then show ?thesis unfolding bit_push_bit_iff by (auto simp: True bit_1_iff)
qed simp

lemma frac_field:
  "u XOR push_bit 31 (drop_bit 31 u AND 0x01) XOR push_bit 23 (drop_bit 23 u AND 0xff) = take_bit 23 u"
  for u :: c_uint
proof (rule bit_word_eqI)
  fix n assume "n < LENGTH(32)"
  then have "n < 23 \<or> 23 \<le> n \<and> n < 31 \<or> n = 31" by auto
  then show "bit (u XOR push_bit 31 (drop_bit 31 u AND 0x01) XOR push_bit 23 (drop_bit 23 u AND 0xff)) n
      = bit (take_bit 23 u) n"
    unfolding exp_field sign_field bit_xor_iff bit_sign
    by (auto simp: bit_push_bit_iff bit_take_bit_iff bit_drop_bit_eq)
qed

text \<open>A pattern put together from a sign, an exponent field and a fraction field.\<close>

definition f32_pack :: "bool \<Rightarrow> c_uint \<Rightarrow> c_uint \<Rightarrow> c_uint" where
  "f32_pack s e f = push_bit 31 (c_bool s) OR push_bit 23 e OR f"

lemma f32_pack_fields:
  assumes "take_bit 8 e = e" and "take_bit 23 f = f"
  shows "bit (f32_pack s e f) 31 = s" and "f32_exp (f32_pack s e f) = unat e"
    and "f32_frac (f32_pack s e f) = unat f"
proof -
  have e: "bit e n \<Longrightarrow> n < 8" for n using assms(1) by (metis bit_take_bit_iff)
  have f: "bit f n \<Longrightarrow> n < 23" for n using assms(2) by (metis bit_take_bit_iff)
  have b: "bit (f32_pack s e f) n \<longleftrightarrow> n = 31 \<and> s \<or> 23 \<le> n \<and> n < 31 \<and> bit e (n - 23) \<or> n < 23 \<and> bit f n"
    for n
    unfolding f32_pack_def bit_or_iff bit_sign bit_push_bit_iff using e [of "n - 23"] f [of n] bit_imp_le_length [of e "n - 23"] by auto
  show "bit (f32_pack s e f) 31 = s" unfolding b by auto
  have "take_bit 8 (drop_bit 23 (f32_pack s e f)) = e"
    by (rule bit_word_eqI) (use e in \<open>auto simp: bit_take_bit_iff bit_drop_bit_eq b\<close>)
  then show "f32_exp (f32_pack s e f) = unat e" by (simp add: f32_exp_def)
  have "take_bit 23 (f32_pack s e f) = f"
    by (rule bit_word_eqI) (use f in \<open>auto simp: bit_take_bit_iff b\<close>)
  then show "f32_frac (f32_pack s e f) = unat f" by (simp add: f32_frac_def)
qed

lemma f32_exp_bound: "f32_exp u < 256"
  using take_bit_nat_less_exp [of 8 "unat (drop_bit 23 u)"]
  by (simp add: f32_exp_def unsigned_take_bit_eq)

lemma f32_frac_bound: "f32_frac u < 2 ^ 23"
  using take_bit_nat_less_exp [of 23 "unat u"]
  by (simp add: f32_frac_def unsigned_take_bit_eq)

lemma exp_word: "take_bit 8 (drop_bit 23 u) = of_nat (f32_exp u)"
  by (simp add: f32_exp_def)

lemma frac_word: "take_bit 23 u = of_nat (f32_frac u)"
  by (simp add: f32_frac_def)

lemma unat_of_nat_small: "n < 2 ^ 32 \<Longrightarrow> unat (of_nat n :: c_uint) = n"
  by (simp add: unsigned_of_nat take_bit_nat_eq_self)

lemma unat_exp_word: "n \<le> 256 \<Longrightarrow> unat (of_nat n :: c_uint) = n"
  by (simp add: unat_of_nat_small)

lemma exp_word_eq_iff: "m \<le> 256 \<Longrightarrow> (of_nat (f32_exp u) :: c_uint) = of_nat m \<longleftrightarrow> f32_exp u = m"
  using unat_exp_word [of "f32_exp u"] unat_exp_word [of m] f32_exp_bound [of u]
  by (metis less_imp_le_nat)

section \<open>floatScale2\<close>

lemma floatScale2_eq: "floatScale2 u =
   (if f32_exp u = 255 then u
    else if f32_exp u = 0 then push_bit 31 (c_bool (bit u 31)) OR push_bit 1 (take_bit 23 u)
    else f32_pack (bit u 31) (of_nat (f32_exp u + 1)) (take_bit 23 u))"
proof -
  have "(of_nat (f32_exp u) :: c_uint) = 0xff \<longleftrightarrow> f32_exp u = 255"
     "(of_nat (f32_exp u) :: c_uint) = 0 \<longleftrightarrow> f32_exp u = 0"
    using exp_word_eq_iff [of 255 u] exp_word_eq_iff [of 0 u] by simp_all
  then show ?thesis
    unfolding floatScale2_def Let_def frac_field unfolding exp_field sign_field xor_eq_0_iff f32_pack_def
      exp_word by (simp add: or.assoc add.commute)
qed

lemma shift_frac: "f32_frac u < 2 ^ 22 \<Longrightarrow> push_bit 31 (c_bool s) OR push_bit 1 (take_bit 23 u)
   = f32_pack s 0 (of_nat (2 * f32_frac u))"
  unfolding frac_word f32_pack_def by (simp add: push_bit_eq_mult mult.commute)

lemma take_bit_of_nat_self: "n < 2 ^ k \<Longrightarrow> k \<le> 32 \<Longrightarrow> take_bit k (of_nat n :: c_uint) = of_nat n"
  by (simp add: take_bit_of_nat take_bit_nat_eq_self)

lemma shift_frac_carry:
  assumes "\<not> f32_frac u < 2 ^ 22"
  shows "push_bit 31 (c_bool s) OR push_bit 1 (take_bit 23 u)
    = f32_pack s 1 (of_nat (2 * f32_frac u - 2 ^ 23))"
proof -
  let ?g = "2 * f32_frac u - 2 ^ 23"
  have "2 * f32_frac u = 2 ^ 23 + ?g" using assms by simp
  then have "of_nat (2 * f32_frac u) = (of_nat (2 ^ 23) + of_nat ?g :: c_uint)"
    by (metis of_nat_add)
  also have "\<dots> = push_bit 23 1 + of_nat ?g" by simp
  also have "\<dots> = push_bit 23 1 OR of_nat ?g"
  proof (rule disjunctive_add_eq_or, rule bit_word_eqI)
    fix n assume "n < LENGTH(32)"
    have "?g < 2 ^ 23" using f32_frac_bound [of u] by simp
    then have "take_bit 23 (of_nat ?g :: c_uint) = of_nat ?g" by (rule take_bit_of_nat_self) simp
    then have "bit (of_nat ?g :: c_uint) n \<longrightarrow> n < 23" by (metis bit_take_bit_iff)
    then show "bit (push_bit 23 1 AND of_nat ?g :: c_uint) n = bit 0 n"
      unfolding bit_and_iff bit_push_bit_iff by auto
  qed
  finally have "push_bit 1 (take_bit 23 u) = push_bit 23 1 OR of_nat ?g"
    by (simp add: frac_word push_bit_eq_mult mult.commute)
  then show ?thesis by (simp add: f32_pack_def or.assoc)
qed

lemma floatScale2_u2f:
  assumes "f32_exp u = 254 \<longrightarrow> f32_frac u = 0"
  shows "u2f (floatScale2 u) = f32_double (u2f u)"
proof -
  note b = f32_exp_bound [of u] f32_frac_bound [of u]
  consider "f32_exp u = 255" | "f32_exp u = 0" "f32_frac u < 2 ^ 22" | "f32_exp u = 0" "\<not> f32_frac u < 2 ^ 22"
    | "0 < f32_exp u" "f32_exp u < 255" using b by linarith
  then show ?thesis
  proof cases
    case 1
    then show ?thesis by (simp add: floatScale2_eq u2f_def)
  next
    case 2
    define g where "g = 2 * f32_frac u"
    have "floatScale2 u = f32_pack (bit u 31) 0 (of_nat g)"
      unfolding floatScale2_eq g_def shift_frac [OF 2(2)] by (simp add: 2(1))
    moreover have "take_bit 23 (of_nat g :: c_uint) = of_nat g"
      using 2 by (intro take_bit_of_nat_self) (auto simp: g_def)
    moreover have "unat (of_nat g :: c_uint) = g"
      using 2 by (intro unat_of_nat_small) (simp add: g_def)
    ultimately show ?thesis
      using f32_pack_fields [of 0 "of_nat g"] 2 by (simp add: u2f_def g_def)
  next
    case 3
    define g where "g = 2 * f32_frac u - 2 ^ 23"
    have "floatScale2 u = f32_pack (bit u 31) 1 (of_nat g)"
      unfolding floatScale2_eq g_def shift_frac_carry [OF 3(2)] by (simp add: 3(1))
    moreover have "take_bit 23 (of_nat g :: c_uint) = of_nat g"
      using b by (intro take_bit_of_nat_self) (auto simp: g_def)
    moreover have "unat (of_nat g :: c_uint) = g"
      using b by (intro unat_of_nat_small) (simp add: g_def)
    moreover have "2 ^ 23 + g = 2 * f32_frac u" using 3 by (simp add: g_def)
    ultimately show ?thesis
      using f32_pack_fields [of 1 "of_nat g"] 3 b by (simp add: u2f_def)
  next
    case 4
    define e where "e = f32_exp u + 1"
    have "e < 256" using 4 by (simp add: e_def)
    then have te: "take_bit 8 (of_nat e :: c_uint) = of_nat e" and ue: "unat (of_nat e :: c_uint) = e"
      by (auto intro: take_bit_of_nat_self unat_of_nat_small)
    have "take_bit 23 (take_bit 23 u) = take_bit 23 u" by simp
    note f = f32_pack_fields [OF te this, of "bit u 31", unfolded ue, folded f32_frac_def]
    have eq: "floatScale2 u = f32_pack (bit u 31) (of_nat e) (take_bit 23 u)"
      using 4 by (simp add: floatScale2_eq e_def)
    show ?thesis
    proof (cases "f32_exp u = 254")
      case True
      with 4 assms f show ?thesis by (simp add: eq u2f_def e_def)
    next
      case False
      have "(2 :: nat) ^ f32_exp u \<le> 2 ^ 253"
        by (rule power_increasing) (use 4 False in auto)
      then have "(2 ^ 23 + f32_frac u) * 2 ^ f32_exp u < 2 ^ 24 * 2 ^ 253"
        by (rule mult_less_le_imp_less [rotated]) (use b in auto)
      moreover have "2 * ((2 ^ 23 + f32_frac u) * 2 ^ (f32_exp u - 1)) = (2 ^ 23 + f32_frac u) * 2 ^ f32_exp u"
        using 4 by (cases "f32_exp u") auto
      moreover have "u2f u = Fin32 (bit u 31) ((2 ^ 23 + f32_frac u) * 2 ^ (f32_exp u - 1))"
        using 4 by (simp add: u2f_def)
      moreover have "u2f (floatScale2 u) = Fin32 (bit u 31) ((2 ^ 23 + f32_frac u) * 2 ^ f32_exp u)"
        unfolding eq using 4 False f by (simp add: u2f_def e_def)
      moreover have "(2 :: nat) ^ 24 * 2 ^ 253 = 2 ^ 277" by simp
      ultimately show ?thesis by (simp only: f32_double.simps if_True)
    qed
  qed
qed

text \<open>
  In the largest binade the exponent field is incremented to 255 but the fraction is kept: for
  a non-zero fraction the result is a NaN where doubling overflows to infinity.
\<close>

lemma floatScale2_overflow:
  assumes "f32_exp u = 254" and "f32_frac u \<noteq> 0"
  shows "u2f (floatScale2 u) = NaN32" and "f32_double (u2f u) = Inf32 (bit u 31)"
proof -
  have e: "take_bit 8 (255 :: c_uint) = 255" by simp
  have "take_bit 23 (take_bit 23 u) = take_bit 23 u" by simp
  from f32_pack_fields [OF e this, of "bit u 31", folded f32_frac_def] assms
  show "u2f (floatScale2 u) = NaN32" by (simp add: floatScale2_eq u2f_def)
  show "f32_double (u2f u) = Inf32 (bit u 31)" using assms(1) by (simp add: u2f_def)
qed

section \<open>floatFloat2Int\<close>

lemma frac_with_implicit_one: "c_shl 1 23 OR take_bit 23 u = of_nat (2 ^ 23 + f32_frac u)"
proof -
  have "of_nat (2 ^ 23 + f32_frac u) = (push_bit 23 1 + take_bit 23 u :: c_uint)"
    by (simp add: frac_word)
  also have "\<dots> = push_bit 23 1 OR take_bit 23 u"
    by (rule disjunctive_add_eq_or, rule bit_word_eqI)
      (unfold bit_and_iff bit_push_bit_iff bit_take_bit_iff, auto)
  finally show ?thesis by simp
qed

lemma sint_of_nat_small: "n < 2147483648 \<Longrightarrow> sint (of_nat n :: c_int) = int n"
  using sint_wrap [of "int n"] by simp

text \<open>The signed exponent \<open>e\<close> and the shift amount \<open>23-e\<close> as integers.\<close>

lemma sint_exponent:
  assumes "n < 256"
  shows "sint (of_nat n - 127 :: c_int) = int n - 127"
    and "sint (23 - (of_nat n - 127) :: c_int) = 150 - int n"
proof -
  have "sint (of_nat n :: c_int) = int n" using assms by (simp add: sint_of_nat_small)
  then show e: "sint (of_nat n - 127 :: c_int) = int n - 127"
    using sint_sub_exact [of "of_nat n" 127] assms by simp
  show "sint (23 - (of_nat n - 127) :: c_int) = 150 - int n"
    using sint_sub_exact [of 23 "of_nat n - 127"] assms by (simp add: e)
qed

lemma unat_of_sint: "sint x = int n \<Longrightarrow> unat x = n" for x :: c_int
proof -
  assume h: "sint x = int n"
  then have "x = of_nat n" using sint_bounds [of x] sint_wrap [of "int n"] by (simp add: sint_eq_iff)
  moreover have "n < 2 ^ 32" using h sint_bounds [of x] by simp
  ultimately show ?thesis by (simp add: unat_of_nat_small)
qed

lemma of_nat_of_unat: "unat x = n \<Longrightarrow> x = of_nat n" for x :: c_int
  by auto

lemma neg_of_nat_word: "- (of_nat n :: c_int) = word_of_int (- int n)"
  by simp

lemma floatFloat2Int_eq:
  "floatFloat2Int u =
   (if f32_exp u = 255 then Some 0x80000000
    else if f32_exp u < 127 then Some 0
    else if 157 < f32_exp u then Some 0x80000000
    else if 150 < f32_exp u then None
    else let t = int ((2 ^ 23 + f32_frac u) div 2 ^ (150 - f32_exp u))
         in Some (word_of_int (if bit u 31 then - t else t)))"
proof -
  note b = f32_exp_bound [of u] f32_frac_bound [of u]
  have exp: "(of_nat (f32_exp u) :: c_uint) = 0xff \<longleftrightarrow> f32_exp u = 255"
     "(of_nat (f32_exp u) :: c_uint) = 0 \<longleftrightarrow> f32_exp u = 0"
    using exp_word_eq_iff [of 255 u] exp_word_eq_iff [of 0 u] by simp_all
  have e: "(of_nat (f32_exp u) - 127 :: c_int) <s 0 \<longleftrightarrow> f32_exp u < 127"
    "30 <s (of_nat (f32_exp u) - 127 :: c_int) \<longleftrightarrow> 157 < f32_exp u"
    "23 - (of_nat (f32_exp u) - 127 :: c_int) <s 0 \<longleftrightarrow> 150 < f32_exp u"
    unfolding word_sless_alt sint_exponent [OF b(1)] by auto
  have sh: "unat (23 - (of_nat (f32_exp u) - 127) :: c_int) = 150 - f32_exp u" if "f32_exp u \<le> 150"
    by (rule unat_of_sint) (unfold sint_exponent [OF b(1)], use that in simp)
  have dr: "drop_bit k (of_nat (2 ^ 23 + f32_frac u) :: c_int) = of_nat ((2 ^ 23 + f32_frac u) div 2 ^ k)" for k
  proof -
    have "unat (of_nat (2 ^ 23 + f32_frac u) :: c_int) = 2 ^ 23 + f32_frac u"
      using b by (intro unat_of_nat_small) simp
    then have "unat (drop_bit k (of_nat (2 ^ 23 + f32_frac u) :: c_int)) = (2 ^ 23 + f32_frac u) div 2 ^ k"
      by (simp only: unat_drop_bit)
    then show ?thesis by (rule of_nat_of_unat)
  qed
  let ?t = "(2 ^ 23 + f32_frac u) div 2 ^ (150 - f32_exp u)"
  have eq: "floatFloat2Int u =
     (if f32_exp u = 255 then Some 0x80000000 else if f32_exp u = 0 then Some 0
      else if f32_exp u < 127 then Some 0 else if 157 < f32_exp u then Some 0x80000000
      else if 150 < f32_exp u then None
      else if bit u 31 then Some (- of_nat ?t) else Some (of_nat ?t))"
  proof (cases "f32_exp u \<le> 150")
    case True
    show ?thesis
      unfolding floatFloat2Int_def Let_def frac_field
      unfolding exp_field sign_field xor_eq_0_iff exp_word exp frac_with_implicit_one e dr c_bool_eq_0_iff
        not_not sh [OF True] by simp
  next
    case False
    then have "150 < f32_exp u" by simp
    then show ?thesis
      unfolding floatFloat2Int_def Let_def frac_field
      unfolding exp_field sign_field xor_eq_0_iff exp_word exp e
      by (simp only: if_True) simp
  qed
  define n where "n = ?t"
  show ?thesis unfolding eq Let_def n_def [symmetric] by simp
qed

lemma shift_into_units:
  assumes "1 \<le> E" and "E \<le> 150"
  shows "(m :: nat) * 2 ^ (E - 1) div 2 ^ 149 = m div 2 ^ (150 - E)"
proof -
  have "(2 :: nat) ^ 149 = 2 ^ (150 - E) * 2 ^ (E - 1)"
    using assms by (simp flip: power_add)
  then have "m * 2 ^ (E - 1) div 2 ^ 149 = m * 2 ^ (E - 1) div (2 ^ (150 - E) * 2 ^ (E - 1))"
    by (simp only:)
  also have "\<dots> = m div 2 ^ (150 - E)" by (rule div_mult_mult2) simp
  finally show ?thesis .
qed

lemma f32_to_int_in_range:
  assumes "f32_exp u \<noteq> 0" and "f32_exp u \<le> 150"
  shows "f32_to_int (u2f u) =
    (let t = int ((2 ^ 23 + f32_frac u) div 2 ^ (150 - f32_exp u))
     in word_of_int (if bit u 31 then - t else t))"
proof -
  let ?m = "(2 ^ 23 + f32_frac u) div 2 ^ (150 - f32_exp u)"
  have "?m \<le> 2 ^ 23 + f32_frac u" by (rule div_le_dividend)
  also have "\<dots> < 2 ^ 24" using f32_frac_bound [of u] by simp
  finally have m: "?m < 2 ^ 24" .
  have "u2f u = Fin32 (bit u 31) ((2 ^ 23 + f32_frac u) * 2 ^ (f32_exp u - 1))"
    using assms by (simp add: u2f_def)
  moreover have "(2 ^ 23 + f32_frac u) * 2 ^ (f32_exp u - 1) div 2 ^ 149 = ?m"
    using assms by (intro shift_into_units) auto
  moreover have "int n < 16777216" if "n < 2 ^ 24" for n :: nat using that by simp
  note this [OF m]
  ultimately show ?thesis
    by (simp only: f32_to_int_def float32.case Let_def) auto
qed

lemma f32_to_int_small:
  assumes "f32_exp u < 127"
  shows "f32_to_int (u2f u) = 0"
proof (cases "f32_exp u = 0")
  case True
  have "f32_frac u div 2 ^ 149 = 0" using f32_frac_bound [of u] by simp
  then show ?thesis using True by (simp only: u2f_def f32_to_int_def) (simp add: Let_def)
next
  case False
  have "(2 ^ 23 + f32_frac u) div 2 ^ (150 - f32_exp u) = 0"
  proof (rule div_less)
    have "2 ^ 23 + f32_frac u < 2 ^ 24" using f32_frac_bound [of u] by simp
    also have "(2 :: nat) ^ 24 \<le> 2 ^ (150 - f32_exp u)"
      by (rule power_increasing) (use assms in auto)
    finally show "2 ^ 23 + f32_frac u < 2 ^ (150 - f32_exp u)" .
  qed
  with False assms show ?thesis by (simp add: f32_to_int_in_range)
qed

lemma f32_to_int_large:
  assumes "157 < f32_exp u"
  shows "f32_to_int (u2f u) = 0x80000000"
proof (cases "f32_exp u = 255")
  case True
  then show ?thesis by (simp add: u2f_def f32_to_int_def)
next
  case False
  have "(2 :: nat) ^ 31 * 2 ^ 149 \<le> 2 ^ 23 * 2 ^ (f32_exp u - 1)"
    unfolding power_add [symmetric] by (rule power_increasing) (use assms in auto)
  also have "\<dots> \<le> (2 ^ 23 + f32_frac u) * 2 ^ (f32_exp u - 1)" by simp
  finally have "2 ^ 31 \<le> (2 ^ 23 + f32_frac u) * 2 ^ (f32_exp u - 1) div 2 ^ 149"
    by (subst less_eq_div_iff_mult_less_eq) simp_all
  then have t: "2147483648 \<le> int ((2 ^ 23 + f32_frac u) * 2 ^ (f32_exp u - 1) div 2 ^ 149)"
  proof -
    have "2147483648 \<le> int n" if "2 ^ 31 \<le> n" for n :: nat using that by simp
    then show ?thesis using \<open>2 ^ 31 \<le> _\<close> by blast
  qed
  have "u2f u = Fin32 (bit u 31) ((2 ^ 23 + f32_frac u) * 2 ^ (f32_exp u - 1))"
    using assms False by (simp add: u2f_def)
  with t show ?thesis
    by (simp only: f32_to_int_def float32.case Let_def) auto
qed

lemma floatFloat2Int_u2f:
  "floatFloat2Int u = (if 150 < f32_exp u \<and> f32_exp u \<le> 157 then None else Some (f32_to_int (u2f u)))"
  using f32_to_int_in_range [of u] f32_to_int_small [of u] f32_to_int_large [of u]
  by (auto simp: floatFloat2Int_eq Let_def)

section \<open>floatPower2\<close>

lemma of_nat_of_sint: "0 \<le> sint x \<Longrightarrow> x = of_nat (nat (sint x))" for x :: c_int
  by (simp add: sint_eq_iff sint_of_nat_small sint_bounds nat_less_iff)

lemma floatPower2_eq: "floatPower2 x =
   (if sint x < - 149 then 0
    else if 128 < sint x then push_bit 23 0xff
    else if sint x \<le> - 127 then push_bit (nat (sint x + 150)) 1
    else f32_pack False (of_nat (nat (sint x + 127))) 0)"
proof -
  have c: "sint (- 149 :: c_int) = - 149" "sint (- 127 :: c_int) = - 127" "sint (128 :: c_int) = 128"
    by simp_all
  have d: "unat (23 - (- x - 126 - 1)) = nat (sint x + 150)" if "- 149 \<le> sint x" "sint x \<le> 128"
  proof (rule unat_of_sint)
    have "23 - (- x - 126 - 1) = word_of_int (sint x + 150)" by simp
    then show "sint (23 - (- x - 126 - 1)) = int (nat (sint x + 150))"
      using that by (simp only: sint_wrap)
  qed
  have e: "x + 127 = of_nat (nat (sint x + 127))" if "- 127 \<le> sint x"
    using that by (simp add: of_nat_nat)
  show ?thesis
    unfolding floatPower2_def Let_def word_sless_alt word_sle_eq c f32_pack_def
    using d e by (auto simp: not_less not_le)
qed

lemma floatPower2_normal:
  assumes "- 126 \<le> sint x" and "sint x \<le> 127"
  shows "u2f (floatPower2 x) = Fin32 False (2 ^ nat (sint x + 149))"
proof -
  define e where "e = nat (sint x + 127)"
  have e: "0 < e" "e < 255" "nat (sint x + 149) = 23 + (e - 1)" using assms by (auto simp: e_def)
  have "floatPower2 x = f32_pack False (of_nat e) 0" using assms by (simp add: floatPower2_eq e_def)
  moreover have "take_bit 8 (of_nat e :: c_uint) = of_nat e" "unat (of_nat e :: c_uint) = e"
    using e by (auto intro!: take_bit_of_nat_self unat_of_nat_small)
  ultimately show ?thesis
    using f32_pack_fields [of "of_nat e" 0 False] e by (cases e) (auto simp: u2f_def power_add)
qed

lemma floatPower2_denormal:
  assumes "- 149 \<le> sint x" and "sint x \<le> - 127"
  shows "u2f (floatPower2 x) = Fin32 False (2 ^ nat (sint x + 150))"
proof -
  define k where "k = nat (sint x + 150)"
  have k: "0 < k" "k \<le> 23" using assms by (auto simp: k_def)
  show ?thesis
  proof (cases "k = 23")
    case True
    with assms show ?thesis
      by (simp add: floatPower2_eq k_def u2f_def f32_exp_def f32_frac_def)
  next
    case False
    with k have "k < 23" by simp
    have "push_bit k 1 = f32_pack False 0 (push_bit k 1)" by (simp add: f32_pack_def)
    moreover have "take_bit 23 (push_bit k 1 :: c_uint) = push_bit k 1"
      by (rule bit_word_eqI) (use \<open>k < 23\<close> in \<open>unfold bit_take_bit_iff bit_push_bit_iff bit_1_iff, auto\<close>)
    moreover have "unat (push_bit k 1 :: c_uint) = 2 ^ k"
    proof -
      have "(2 :: nat) ^ k < 2 ^ 32" by (rule power_strict_increasing) (use \<open>k < 23\<close> in auto)
      from unat_of_nat_small [OF this] show ?thesis by simp
    qed
    ultimately have "u2f (push_bit k 1) = Fin32 False (2 ^ k)"
      using f32_pack_fields [of 0 "push_bit k 1" False] by (simp add: u2f_def)
    with assms show ?thesis by (simp add: floatPower2_eq k_def)
  qed
qed

lemma floatPower2_overflow: "128 \<le> sint x \<Longrightarrow> u2f (floatPower2 x) = Inf32 False"
proof (cases "sint x = 128")
  case True
  then have "floatPower2 x = f32_pack False 255 0" by (simp add: floatPower2_eq)
  then show ?thesis using f32_pack_fields [of 255 0 False] by (simp add: u2f_def)
next
  case False
  assume "128 \<le> sint x"
  with False have "floatPower2 x = f32_pack False 255 0"
    by (simp add: floatPower2_eq f32_pack_def)
  then show ?thesis using f32_pack_fields [of 255 0 False] by (simp add: u2f_def)
qed

lemma floatPower2_underflow: "sint x < - 149 \<Longrightarrow> u2f (floatPower2 x) = Fin32 False 0"
  by (simp add: floatPower2_eq u2f_def f32_exp_def f32_frac_def)

section \<open>What the three functions compute, on every argument\<close>

text \<open>C9: \<open>floatScale2\<close> returns a bit pattern of \<open>2*f\<close> for every pattern \<open>uf\<close> of a float
  \<open>f\<close>: NaN and the infinities are returned as they are, a denormalised number may become
  normalised, and a normalised one gets the next exponent. The one exception is the largest
  exponent with a nonzero fraction, where the result is a NaN and not the infinity.\<close>

theorem floatScale2_value:
  "u2f (floatScale2 u) =
     (if f32_exp u = 254 \<and> f32_frac u \<noteq> 0 then NaN32 else f32_double (u2f u))"
  using floatScale2_u2f [of u] floatScale2_overflow [of u] by auto

text \<open>C10: \<open>floatFloat2Int\<close> is the conversion \<open>(int) f\<close>, truncation towards zero with
  \<open>0x80000000\<close> out of range, NaN and infinity included, except that for the exponents 24 to 30,
  whose values are in range, it shifts by a negative amount, which C leaves undefined.\<close>

theorem floatFloat2Int_value:
  "floatFloat2Int u =
     (if 150 < f32_exp u \<and> f32_exp u \<le> 157 then None else Some (f32_to_int (u2f u)))"
  by (rule floatFloat2Int_u2f)

text \<open>\<open>floatPower2\<close> returns the float \<open>2.0^x\<close> for every \<open>x\<close> whose power is normalised,
  infinity above that range and zero below the denormalised ones; for the denormalised powers
  it returns \<open>2.0^(x+1)\<close>, twice the value asked for. In units of \<open>2^-149\<close>.\<close>

theorem floatPower2_value:
  "u2f (floatPower2 x) =
     (if sint x < - 149 then Fin32 False 0
      else if sint x \<le> - 127 then Fin32 False (2 ^ nat (sint x + 1 + 149))
      else if sint x \<le> 127 then Fin32 False (2 ^ nat (sint x + 149))
      else Inf32 False)"
  using floatPower2_underflow [of x] floatPower2_denormal [of x] floatPower2_normal [of x]
    floatPower2_overflow [of x] by (simp add: add.commute add.left_commute)

end
