(* ===== verification/Cache_Sim.thy ===== *)
theory Cache_Sim
  imports Prelude "HOL-Library.Multiset"
begin

text \<open>
  The cache simulator of \<open>cachelab/helper.c\<close>: address decoding by masks, the flat array of
  cache lines, look-up and least-recently-used replacement, and the loop over a trace. The
  abstract counterpart keeps, for each set, the tags from the most to the least recently used
  one; the section at the end shows that the simulator implements it.

  The trace is the list of records that \<open>fscanf\<close> delivers. Counters and the clock are
  unbounded numbers: the properties are about traces of at most 500000 records, which cannot make them
  wrap. An access outside the array of lines or through the null pointer, an \<open>int\<close> operation that
  overflows and a 64-bit shift by an undefined amount are the result \<open>None\<close>. The parameter \<open>mem\<close> says which
  requests \<open>malloc\<close> grants.
\<close>

section \<open>Data of helper.h\<close>

record addrStruct =
  as_set :: int
  as_block :: int
  as_line :: int
  as_verbose :: bool

record resStruct =
  hits :: int
  misses :: int
  evictions :: int

record maskOption =
  mo_bit :: int
  mo_movbit :: int

text \<open>One cache line; the C type is called \<open>unit\<close>.\<close>

record cline =
  timer :: nat
  ctag :: int
  valid :: bool

text \<open>What the simulation writes: the lines, the counters and the clock.\<close>

record csim =
  cache :: "cline list"
  res :: resStruct
  time :: nat

section \<open>Operations\<close>

text \<open>
  \<open>1 << opt.bit\<close> is an \<open>int\<close> shift, so the parameter \<open>oob\<close> stands for what the
  machine delivers for an amount outside 0 to 31, which the tag field asks for in ordinary use. The
  mask is then sign-extended to 64 bits. Shifting the 64-bit values by \<open>opt.movbit\<close> is undefined
  outside 0 to 63.
\<close>

definition GetDecimalBit ::
    "(c_int \<Rightarrow> int \<Rightarrow> c_int) \<Rightarrow> c_ulong \<Rightarrow> maskOption \<Rightarrow> c_ulong option" where
  "GetDecimalBit oob addr opt =
     (let mask = scast (c_shl_by oob 1 (mo_bit opt) - 1) :: c_ulong
      in if 0 \<le> mo_movbit opt \<and> mo_movbit opt < 64 then
           let mask = push_bit (nat (mo_movbit opt)) mask;
               addr = addr AND mask
           in Some (drop_bit (nat (mo_movbit opt)) addr)
         else None)"

text \<open>Storing an \<open>unsigned long\<close> into an \<open>int\<close> keeps the low 32 bits.\<close>

definition int_of_ulong :: "c_ulong \<Rightarrow> int" where
  "int_of_ulong w = sint (ucast w :: c_int)"

definition InitCache_line :: cline where
  "InitCache_line = \<lparr>timer = 0, ctag = 0, valid = False\<rparr>"

definition InitCache :: "cline list \<Rightarrow> int \<Rightarrow> cline list" where
  "InitCache pCache numOfBlock = snd (for_up 0 numOfBlock 1
     (\<lambda>i c. c[nat i := InitCache_line]) pCache)"

text \<open>
  The search of \<open>WriteCache\<close> walks back from the last line of the set and keeps the
  smallest time stamp seen below 999999 and its distance from the last line.
\<close>

definition WriteCache_search :: "cline list \<Rightarrow> int \<Rightarrow> int \<Rightarrow> int \<times> int" where
  "WriteCache_search c pTarget line = snd (for_up 0 line 1
     (\<lambda>l (least, idx).
        let t = int (timer (c ! nat (pTarget - l)))
        in if t < least then (t, l) else (least, idx)) (999999, 0))"

definition WriteCache :: "int \<Rightarrow> int \<Rightarrow> int \<Rightarrow> csim \<Rightarrow> csim" where
  "WriteCache tag line pTarget s =
     (let (least, idx) = WriteCache_search (cache s) pTarget line;
          k = nat (pTarget - idx)
      in s\<lparr>cache := (cache s)[k := (cache s ! k)\<lparr>ctag := tag, timer := time s\<rparr>],
           res := (res s)\<lparr>evictions := evictions (res s) + 1\<rparr>,
           time := time s + 1\<rparr>)"

text \<open>
  The \<open>for\<close> loop of \<open>LoadCache\<close> from line \<open>l\<close> on: a hit, a free line, or neither.
\<close>

datatype found = Hit nat | Free nat | Full

function LoadCache_for :: "cline list \<Rightarrow> int \<Rightarrow> int \<Rightarrow> int \<Rightarrow> int \<Rightarrow> found" where
  "LoadCache_for c tag si line l =
     (if l < line then
        let k = nat (si * line + l)
        in if valid (c ! k) \<and> ctag (c ! k) = tag then Hit k
           else if \<not> valid (c ! k) then Free k
           else LoadCache_for c tag si line (l + 1)
      else Full)"
  by pat_completeness auto
termination
  by (relation "measure (\<lambda>(c, tag, si, line, l). nat (line - l))") auto

declare LoadCache_for.simps [simp del]

text \<open>
  All the accesses of a call lie in the lines \<open>set * line\<close> to \<open>set * line + line - 1\<close>; with
  no line at all \<open>pTarget\<close> is still null when \<open>WriteCache\<close> uses it.
\<close>

definition LoadCache :: "int \<Rightarrow> int \<Rightarrow> int \<Rightarrow> csim \<Rightarrow> (string \<times> csim) option" where
  "LoadCache tag si line s =
     (if line \<le> 0 \<or> si < 0 \<or> int (length (cache s)) < si * line + line then None
      else Some
       (case LoadCache_for (cache s) tag si line 0 of
          Hit k \<Rightarrow>
            (''hit'', s\<lparr>res := (res s)\<lparr>hits := hits (res s) + 1\<rparr>,
               cache := (cache s)[k := (cache s ! k)\<lparr>timer := time s\<rparr>],
               time := time s + 1\<rparr>)
        | Free k \<Rightarrow>
            (''miss'', s\<lparr>res := (res s)\<lparr>misses := misses (res s) + 1\<rparr>,
               cache := (cache s)[k := \<lparr>timer = time s, ctag = tag, valid = True\<rparr>],
               time := time s + 1\<rparr>)
        | Full \<Rightarrow>
            (let s' = WriteCache tag line (si * line + line - 1) s
             in (''miss eviction'', s'\<lparr>res := (res s')\<lparr>misses := misses (res s') + 1\<rparr>,
                   time := time s' + 1\<rparr>))))"

text \<open>A trace record, and one turn of the loop of \<open>cacheSimulator\<close>.\<close>

record trec =
  op :: char
  addr :: c_ulong
  bytes :: int

definition optionCO :: "addrStruct \<Rightarrow> maskOption" where
  "optionCO a = \<lparr>mo_bit = as_block a, mo_movbit = 0\<rparr>"

definition optionCI :: "addrStruct \<Rightarrow> maskOption" where
  "optionCI a = \<lparr>mo_bit = as_set a, mo_movbit = as_block a\<rparr>"

definition optionCT :: "addrStruct \<Rightarrow> maskOption" where
  "optionCT a = \<lparr>mo_bit = 64 - as_block a - as_set a, mo_movbit = as_block a + as_set a\<rparr>"

definition set_of :: "(c_int \<Rightarrow> int \<Rightarrow> c_int) \<Rightarrow> addrStruct \<Rightarrow> c_ulong \<Rightarrow> int option" where
  "set_of oob a w = map_option int_of_ulong (GetDecimalBit oob w (optionCI a))"

definition tag_of :: "(c_int \<Rightarrow> int \<Rightarrow> c_int) \<Rightarrow> addrStruct \<Rightarrow> c_ulong \<Rightarrow> int option" where
  "tag_of oob a w = map_option int_of_ulong (GetDecimalBit oob w (optionCT a))"

definition cacheSimulator_step ::
    "(c_int \<Rightarrow> int \<Rightarrow> c_int) \<Rightarrow> addrStruct \<Rightarrow> trec \<Rightarrow> csim \<Rightarrow> (string \<times> csim) option" where
  "cacheSimulator_step oob a r s =
     (case (set_of oob a (addr r), tag_of oob a (addr r)) of
        (Some si, Some tag) \<Rightarrow>
          (if op r = CHR ''M'' then
             (case LoadCache tag si (as_line a) s of
                None \<Rightarrow> None
              | Some (ret, s) \<Rightarrow>
                  Some (ret @ '' hit'', s\<lparr>res := (res s)\<lparr>hits := hits (res s) + 1\<rparr>\<rparr>))
           else if op r = CHR ''L'' \<or> op r = CHR ''S'' then LoadCache tag si (as_line a) s
           else Some ('''', s))
      | _ \<Rightarrow> None)"

fun cacheSimulator_loop ::
    "(c_int \<Rightarrow> int \<Rightarrow> c_int) \<Rightarrow> addrStruct \<Rightarrow> trec list \<Rightarrow> csim \<Rightarrow>
     ((trec \<times> string) list \<times> csim) option" where
  "cacheSimulator_loop oob a [] s = Some ([], s)"
| "cacheSimulator_loop oob a (r # rs) s =
     (case cacheSimulator_step oob a r s of
        None \<Rightarrow> None
      | Some (ret, s) \<Rightarrow>
          (case cacheSimulator_loop oob a rs s of
             None \<Rightarrow> None
           | Some (out, s) \<Rightarrow> Some ((if as_verbose a then [(r, ret)] else []) @ out, s)))"

text \<open>
  \<open>numOfSet = (int) pow(2, set)\<close> is 0 for a negative exponent and does not fit an \<open>int\<close> from 31 on;
  \<open>numOfLine * numOfSet\<close> is an \<open>int\<close> product. A negative number of lines makes the request larger than
  any \<open>malloc\<close> grants, and the result is passed to \<open>memset\<close> before it is compared with \<open>NULL\<close>. A line
  takes 24 bytes. \<open>malloc\<close> and \<open>memset\<close> give lines of zeroes.
\<close>

definition cache_init :: "(int \<Rightarrow> bool) \<Rightarrow> addrStruct \<Rightarrow> csim option" where
  "cache_init mem a =
     (if 31 \<le> as_set a then None
      else let numOfSet = (if as_set a < 0 then 0 else 2 ^ nat (as_set a));
               n = as_line a * numOfSet
           in if n < - (2 ^ 31) \<or> 2 ^ 31 \<le> n then None
              else if 0 \<le> n \<and> mem (n * 24)
              then Some \<lparr>cache = replicate (nat n) InitCache_line,
                res = \<lparr>hits = 0, misses = 0, evictions = 0\<rparr>, time = 0\<rparr>
              else None)"

definition cacheSimulator ::
    "(c_int \<Rightarrow> int \<Rightarrow> c_int) \<Rightarrow> (int \<Rightarrow> bool) \<Rightarrow> addrStruct \<Rightarrow> trec list \<Rightarrow> ((trec \<times> string) list \<times> resStruct) option" where
  "cacheSimulator oob mem a trace =
     (case cache_init mem a of
        None \<Rightarrow> None
      | Some s \<Rightarrow> map_option (\<lambda>(out, s). (out, res s)) (cacheSimulator_loop oob a trace s))"

text \<open>Parameters of a cache that fits an \<open>int\<close> and the memory, of addresses of 64 bits.\<close>

definition geometry :: "(int \<Rightarrow> bool) \<Rightarrow> addrStruct \<Rightarrow> bool" where
  "geometry mem a \<longleftrightarrow> 0 < as_line a \<and> 0 \<le> as_set a \<and> as_set a < 31 \<and> 0 \<le> as_block a \<and>
     as_block a + as_set a < 64 \<and> as_line a * 2 ^ nat (as_set a) < 2 ^ 31 \<and> mem (as_line a * 2 ^ nat (as_set a) * 24)"

section \<open>Abstract least-recently-used sets\<close>

text \<open>A set is its tags, most recently used first, at most \<open>E\<close> of them.\<close>

definition lru_access :: "nat \<Rightarrow> int \<Rightarrow> int list \<Rightarrow> string \<times> int list" where
  "lru_access E t q =
     (if t \<in> set q then (''hit'', t # remove1 t q)
      else if length q < E then (''miss'', t # q)
      else (''miss eviction'', t # butlast q))"

text \<open>The tags of the valid lines of a set, ordered by their time stamps.\<close>

definition mru_tags :: "cline list \<Rightarrow> int list" where
  "mru_tags us = rev (map ctag (sort_key timer (filter valid us)))"

definition set_lines :: "nat \<Rightarrow> nat \<Rightarrow> cline list \<Rightarrow> cline list" where
  "set_lines E i c = take E (drop (i * E) c)"

section \<open>Lines of one set\<close>

text \<open>
  What every access keeps of a set at time \<open>T\<close>: the valid lines come first, their tags and
  their time stamps are distinct, and no stamp has reached \<open>T\<close>.
\<close>

definition set_ok :: "nat \<Rightarrow> cline list \<Rightarrow> bool" where
  "set_ok T us \<longleftrightarrow>
     (\<forall>j k. j < k \<and> k < length us \<and> valid (us ! k) \<longrightarrow> valid (us ! j)) \<and>
     distinct (map ctag (filter valid us)) \<and> distinct (map timer (filter valid us)) \<and>
     (\<forall>u \<in> set us. valid u \<longrightarrow> timer u < T)"

lemma set_ok_mono: "set_ok T us \<Longrightarrow> T \<le> T' \<Longrightarrow> set_ok T' us"
  by (auto simp: set_ok_def)

lemma set_linesD:
  assumes "(i + 1) * E \<le> length c" and "j < E"
  shows "set_lines E i c ! j = c ! (i * E + j)" and "length (set_lines E i c) = E"
  using assms by (auto simp: set_lines_def algebra_simps)

lemma set_lines_update:
  assumes "(i + 1) * E \<le> length c" and "j < E"
  shows "set_lines E i (c[i * E + j := u]) = (set_lines E i c)[j := u]"
  using assms by (simp add: set_lines_def drop_update_swap take_update_swap algebra_simps)

lemma set_lines_update_other:
  assumes "k \<noteq> i" and "j < E"
  shows "set_lines E k (c[i * E + j := u]) = set_lines E k c"
proof (cases "k < i")
  case True
  then have "(k + 1) * E \<le> i * E" by (intro mult_right_mono) auto
  then show ?thesis by (simp add: set_lines_def drop_update_swap take_update_cancel algebra_simps)
next
  case False
  with assms have "(i + 1) * E \<le> k * E" by (intro mult_right_mono) auto
  then show ?thesis using assms by (simp add: set_lines_def drop_update_cancel algebra_simps)
qed

lemma mru_tagsI:
  assumes "mset vs = mset (filter valid us)" and "sorted_wrt (\<lambda>a b. timer b < timer a) vs"
  shows "mru_tags us = map ctag vs"
proof -
  have "distinct (map timer vs)"
    using assms(2) by (induction vs) (auto simp: image_iff)
  then have inj: "inj_on timer (set (filter valid us))"
    using mset_eq_setD [OF assms(1)] by (metis distinct_map)
  have "sorted (map timer (rev vs))"
    unfolding rev_map [symmetric] sorted_rev_iff_nth_mono
    using assms(2) by (simp add: sorted_wrt_iff_nth_less)  (metis le_less linorder_neqE_nat order.strict_iff_order)
  then have "sort_key timer (filter valid us) = rev vs"
    using assms(1) inj by (intro sort_key_inj_key_eq) auto
  then show ?thesis by (simp add: mru_tags_def rev_map)
qed

text \<open>The valid lines themselves in the order of \<open>mru_tags\<close>.\<close>

lemma mru_order:
  assumes "set_ok T us"
  obtains vs where "mset vs = mset (filter valid us)" and "sorted_wrt (\<lambda>a b. timer b < timer a) vs"
    and "mru_tags us = map ctag vs" and "distinct (map ctag vs)"
proof
  let ?vs = "rev (sort_key timer (filter valid us))"
  show m: "mset ?vs = mset (filter valid us)" by simp
  have "distinct (map timer ?vs)"
    using assms unfolding set_ok_def by (metis m mset_map mset_eq_imp_distinct_iff)
  then have d: "distinct (map timer (sort_key timer (filter valid us)))" by (simp add: rev_map [symmetric])
  have "sorted_wrt (\<lambda>a b. timer a < timer b) (sort_key timer (filter valid us))"
    using d sorted_sort_key [of timer "filter valid us"]
    by (simp add: sorted_wrt_map [symmetric, of "(<)" timer] strict_sorted_iff)
  then show "sorted_wrt (\<lambda>a b. timer b < timer a) ?vs" by (simp add: sorted_wrt_rev)
  show "mru_tags us = map ctag ?vs" by (simp add: mru_tags_def rev_map)
  show "distinct (map ctag ?vs)"
    using assms unfolding set_ok_def by (metis m mset_map mset_eq_imp_distinct_iff)
qed

lemma set_okI:
  assumes "\<And>j k. j < k \<Longrightarrow> k < length us \<Longrightarrow> valid (us ! k) \<Longrightarrow> valid (us ! j)"
    and m: "mset vs = mset (filter valid us)" and s: "sorted_wrt (\<lambda>a b. timer b < timer a) vs"
    and d: "distinct (map ctag vs)" and t: "\<And>v. v \<in> set vs \<Longrightarrow> timer v < T"
  shows "set_ok T us \<and> mru_tags us = map ctag vs"
proof
  have "distinct (map timer vs)"
    using s by (induction vs) (auto simp: image_iff)
  then have "distinct (map timer (filter valid us))"
    by (metis m mset_map mset_eq_imp_distinct_iff)
  moreover have "distinct (map ctag (filter valid us))"
    by (metis d m mset_map mset_eq_imp_distinct_iff)
  moreover have "\<forall>u \<in> set us. valid u \<longrightarrow> timer u < T"
    using t mset_eq_setD [OF m] by auto
  ultimately show "set_ok T us" using assms(1) by (auto simp: set_ok_def)
  show "mru_tags us = map ctag vs" using m s by (rule mru_tagsI)
qed

lemma map_remove1_distinct:
  "distinct (map f vs) \<Longrightarrow> u \<in> set vs \<Longrightarrow> map f (remove1 u vs) = remove1 (f u) (map f vs)"
  by (induction vs) (auto simp: image_iff)

lemma sorted_wrt_remove1: "sorted_wrt P vs \<Longrightarrow> sorted_wrt P (remove1 u vs)"
  by (induction vs) (auto dest: notin_set_remove1 simp: in_set_remove1 dest: in_set_conv_decomp [THEN iffD1] set_remove1_subset [THEN subsetD])

lemma mset_filter_update:
  assumes "j < length us" and "valid u"
  shows "mset (filter valid (us[j := u])) =
    add_mset u (if valid (us ! j) then mset (filter valid us) - {# us ! j #} else mset (filter valid us))"
  using assms by (simp add: mset_update)

text \<open>The three ways an access changes its set.\<close>

lemma touch_hit:
  assumes ok: "set_ok T us" and j: "j < length us" "valid (us ! j)"
  defines "us' \<equiv> us[j := (us ! j)\<lparr>timer := T\<rparr>]"
  shows "set_ok (Suc T) us'" and "mru_tags us' = ctag (us ! j) # remove1 (ctag (us ! j)) (mru_tags us)"
    and "ctag (us ! j) \<in> set (mru_tags us)"
proof -
  let ?u = "us ! j"
  obtain vs where vs: "mset vs = mset (filter valid us)" "sorted_wrt (\<lambda>a b. timer b < timer a) vs"
    "mru_tags us = map ctag vs" "distinct (map ctag vs)" by (rule mru_order [OF ok])
  let ?vs = "?u\<lparr>timer := T\<rparr> # remove1 ?u vs"
  have sv: "set vs = {u \<in> set us. valid u}" using mset_eq_setD [OF vs(1)] by auto
  with j have u: "?u \<in> set vs" by auto
  have T: "timer v < T" if "v \<in> set vs" for v using that ok sv by (auto simp: set_ok_def)
  have sub: "set (remove1 ?u vs) \<subseteq> set vs" by (rule set_remove1_subset)
  have t: "map ctag (remove1 ?u vs) = remove1 (ctag ?u) (map ctag vs)"
    using vs(4) u by (rule map_remove1_distinct)
  have *: "set_ok (Suc T) us' \<and> mru_tags us' = map ctag ?vs"
  proof (rule set_okI)
    show v: "mset ?vs = mset (filter valid us')"
      using j by (simp add: us'_def mset_filter_update vs(1) del: mset_filter)
    show s: "sorted_wrt (\<lambda>a b. timer b < timer a) ?vs"
      using sorted_wrt_remove1 [OF vs(2)] T sub by auto
    show "distinct (map ctag ?vs)" using vs(4) unfolding list.map t by (simp add: distinct_remove1)
    show "timer v < Suc T" if "v \<in> set ?vs" for v
      using that T sub by (auto simp: less_SucI)
    show "valid (us' ! l)" if "l < k" "k < length us'" "valid (us' ! k)" for k l
      using that ok j by (auto simp: us'_def set_ok_def nth_list_update split: if_splits)
  qed
  then show "set_ok (Suc T) us'" "mru_tags us' = ctag ?u # remove1 (ctag ?u) (mru_tags us)"
    unfolding vs(3) list.map t by simp_all
  show "ctag ?u \<in> set (mru_tags us)" using u vs(3) by simp
qed

lemma touch_free:
  assumes ok: "set_ok T us" and j: "j < length us" "\<not> valid (us ! j)" "\<And>k. k < j \<Longrightarrow> valid (us ! k) \<and> ctag (us ! k) \<noteq> t"
  defines "us' \<equiv> us[j := \<lparr>timer = T, ctag = t, valid = True\<rparr>]"
  shows "set_ok (Suc T) us'" and "mru_tags us' = t # mru_tags us"
    and "t \<notin> set (mru_tags us)" and "length (mru_tags us) < length us"
proof -
  let ?u = "\<lparr>timer = T, ctag = t, valid = True\<rparr>"
  obtain vs where vs: "mset vs = mset (filter valid us)" "sorted_wrt (\<lambda>a b. timer b < timer a) vs"
    "mru_tags us = map ctag vs" "distinct (map ctag vs)" by (rule mru_order [OF ok])
  have sv: "set vs = {u \<in> set us. valid u}" using mset_eq_setD [OF vs(1)] by auto
  have T: "timer v < T" if "v \<in> set vs" for v using that ok sv by (auto simp: set_ok_def)
  have "valid (us ! k) \<Longrightarrow> k < length us \<Longrightarrow> k < j" for k
    using ok j(1,2) unfolding set_ok_def by (metis linorder_neqE_nat)
  then have nt: "t \<notin> ctag ` set vs" using j(3) unfolding sv by (auto simp: in_set_conv_nth)
  have *: "set_ok (Suc T) us' \<and> mru_tags us' = map ctag (?u # vs)"
  proof (rule set_okI)
    show v: "mset (?u # vs) = mset (filter valid us')"
      using j by (simp add: us'_def mset_filter_update vs(1) del: mset_filter)
    show s: "sorted_wrt (\<lambda>a b. timer b < timer a) (?u # vs)" using vs(2) T by auto
    show "distinct (map ctag (?u # vs))" using vs(4) nt by simp
    show "timer v < Suc T" if "v \<in> set (?u # vs)" for v using that T by (auto simp: less_SucI)
    show "valid (us' ! l)" if "l < k" "k < length us'" "valid (us' ! k)" for k l
      using that ok j unfolding us'_def set_ok_def
      by (auto simp: nth_list_update split: if_splits)
  qed
  then show "set_ok (Suc T) us'" "mru_tags us' = t # mru_tags us" by (simp_all add: vs(3))
  show "t \<notin> set (mru_tags us)" using nt vs(3) by simp
  have "length vs = length (filter valid us)" by (metis vs(1) size_mset)
  also have "\<dots> < length us" using j by (auto intro!: length_filter_less)
  finally show "length (mru_tags us) < length us" by (simp add: vs(3))
qed

lemma touch_full:
  assumes ok: "set_ok T us" and j: "j < length us" and all: "\<And>k. k < length us \<Longrightarrow> valid (us ! k) \<and> ctag (us ! k) \<noteq> t"
    and least: "\<And>k. k < length us \<Longrightarrow> timer (us ! j) \<le> timer (us ! k)" and "T \<le> T'"
  defines "us' \<equiv> us[j := (us ! j)\<lparr>ctag := t, timer := T'\<rparr>]"
  shows "set_ok (Suc T') us'" and "mru_tags us' = t # butlast (mru_tags us)"
    and "t \<notin> set (mru_tags us)" and "length (mru_tags us) = length us"
proof -
  let ?u = "us ! j" and ?u' = "(us ! j)\<lparr>ctag := t, timer := T'\<rparr>"
  obtain vs where vs: "mset vs = mset (filter valid us)" "sorted_wrt (\<lambda>a b. timer b < timer a) vs"
    "mru_tags us = map ctag vs" "distinct (map ctag vs)" by (rule mru_order [OF ok])
  have f: "filter valid us = us" using all
    by (metis filter_True in_set_conv_nth)
  have sv: "set vs = set us" using mset_eq_setD [OF vs(1)] f by auto
  have T: "timer v < T" if "v \<in> set vs" for v using that ok sv all unfolding set_ok_def by (metis in_set_conv_nth)
  have nt: "t \<notin> ctag ` set vs" using all unfolding sv by (metis imageE in_set_conv_nth)
  have ne: "vs \<noteq> []" using j sv by auto
  obtain ws w where w: "vs = ws @ [w]" using ne by (meson rev_exhaust)
  have "w = ?u"
  proof -
    have "timer ?u \<le> timer w" using least w sv by (metis in_set_conv_nth in_set_conv_decomp)
    moreover have "?u \<in> set vs" using j sv by simp
    ultimately show ?thesis using vs(2) by (auto simp: w sorted_wrt_append)
  qed
  have *: "set_ok (Suc T') us' \<and> mru_tags us' = map ctag (?u' # ws)"
  proof (rule set_okI)
    have "mset ws = mset us - {# ?u #}" using vs(1) f w \<open>w = ?u\<close> by (metis add_mset_remove_trivial mset.simps(2) mset_append mset_rev rev_append union_mset_add_mset_right mset.simps(1) add.right_neutral)
    then show v: "mset (?u' # ws) = mset (filter valid us')"
      using j all [OF j] f by (simp add: us'_def mset_filter_update del: mset_filter)
    show s: "sorted_wrt (\<lambda>a b. timer b < timer a) (?u' # ws)"
      using vs(2) T \<open>T \<le> T'\<close> by (fastforce simp: w sorted_wrt_append)
    show "distinct (map ctag (?u' # ws))" using vs(4) nt by (simp add: w)
    show "timer v < Suc T'" if "v \<in> set (?u' # ws)" for v using that T \<open>T \<le> T'\<close> by (fastforce simp: w)
    show "valid (us' ! l)" if "l < k" "k < length us'" "valid (us' ! k)" for k l
      using that all j by (auto simp: us'_def nth_list_update)
  qed
  then show "set_ok (Suc T') us'" "mru_tags us' = t # butlast (mru_tags us)" by (simp_all add: vs(3) w)
  show "t \<notin> set (mru_tags us)" using nt vs(3) by simp
  show "length (mru_tags us) = length us" using vs(1,3) f by (metis length_map size_mset)
qed

section \<open>The loops on the lines of one set\<close>

lemma nat_line: "nat (int i * int E + int j) = i * E + j"
  by (simp flip: of_nat_mult of_nat_add)

lemma LoadCache_for_cases:
  assumes i: "(i + 1) * E \<le> length c" and "l \<le> E"
  obtains
    (hit) j where "LoadCache_for c t (int i) (int E) (int l) = Hit (i * E + j)" "l \<le> j" "j < E"
      "valid (set_lines E i c ! j)" "ctag (set_lines E i c ! j) = t"
  | (free) j where "LoadCache_for c t (int i) (int E) (int l) = Free (i * E + j)" "l \<le> j" "j < E"
      "\<not> valid (set_lines E i c ! j)"
      "\<And>k. l \<le> k \<Longrightarrow> k < j \<Longrightarrow> valid (set_lines E i c ! k) \<and> ctag (set_lines E i c ! k) \<noteq> t"
  | (full) "LoadCache_for c t (int i) (int E) (int l) = Full"
      "\<And>k. l \<le> k \<Longrightarrow> k < E \<Longrightarrow> valid (set_lines E i c ! k) \<and> ctag (set_lines E i c ! k) \<noteq> t"
  using \<open>l \<le> E\<close>
proof (induction "E - l" arbitrary: l thesis)
  case 0
  then show ?case by (simp add: LoadCache_for.simps)
next
  case (Suc d)
  then have l: "l < E" by simp
  let ?u = "set_lines E i c ! l"
  have u: "c ! nat (int i * int E + int l) = ?u"
    using set_linesD [OF i l] by (simp only: nat_line)
  have nx: "LoadCache_for c t (int i) (int E) (int l) = LoadCache_for c t (int i) (int E) (int (Suc l))"
    if "valid ?u" "ctag ?u \<noteq> t"
    using that l by (subst LoadCache_for.simps) (simp add: u Let_def, simp add: add.commute)
  have ext: "valid (set_lines E i c ! k) \<and> ctag (set_lines E i c ! k) \<noteq> t"
    if "valid ?u" "ctag ?u \<noteq> t" "l \<le> k" "Suc l \<le> k \<Longrightarrow> valid (set_lines E i c ! k) \<and> ctag (set_lines E i c ! k) \<noteq> t"
    for k using that by (cases "k = l") auto
  consider "valid ?u" "ctag ?u = t" | "\<not> valid ?u" | "valid ?u" "ctag ?u \<noteq> t" by blast
  then show ?case
  proof cases
    case 1
    then have "LoadCache_for c t (int i) (int E) (int l) = Hit (i * E + l)"
      using l by (subst LoadCache_for.simps) (simp add: u Let_def, simp add: nat_line)
    with 1 show ?thesis using Suc.prems(1) [of l] l by simp
  next
    case 2
    then have "LoadCache_for c t (int i) (int E) (int l) = Free (i * E + l)"
      using l by (subst LoadCache_for.simps) (simp add: u Let_def, simp add: nat_line)
    with 2 show ?thesis using Suc.prems(2) [of l] l by simp
  next
    case 3
    show ?thesis
    proof (rule Suc.hyps(1) [of "Suc l"])
      show "d = E - Suc l" "Suc l \<le> E" using Suc.hyps l by auto
    next
      fix j assume "LoadCache_for c t (int i) (int E) (int (Suc l)) = Hit (i * E + j)" "Suc l \<le> j" "j < E"
        "valid (set_lines E i c ! j)" "ctag (set_lines E i c ! j) = t"
      then show thesis using Suc.prems(1) [of j] nx 3 by simp
    next
      fix j assume h: "LoadCache_for c t (int i) (int E) (int (Suc l)) = Free (i * E + j)" "Suc l \<le> j" "j < E"
        "\<not> valid (set_lines E i c ! j)"
        "\<And>k. Suc l \<le> k \<Longrightarrow> k < j \<Longrightarrow> valid (set_lines E i c ! k) \<and> ctag (set_lines E i c ! k) \<noteq> t"
      show thesis
      proof (rule Suc.prems(2))
        show "LoadCache_for c t (int i) (int E) (int l) = Free (i * E + j)" using h(1) nx [OF 3] by simp
        show "valid (set_lines E i c ! k) \<and> ctag (set_lines E i c ! k) \<noteq> t" if "l \<le> k" "k < j" for k
          by (rule ext [OF 3 that(1)], rule h(5) [OF _ that(2)])
      qed (use h in auto)
    next
      assume h: "LoadCache_for c t (int i) (int E) (int (Suc l)) = Full"
        "\<And>k. Suc l \<le> k \<Longrightarrow> k < E \<Longrightarrow> valid (set_lines E i c ! k) \<and> ctag (set_lines E i c ! k) \<noteq> t"
      show thesis
      proof (rule Suc.prems(3))
        show "LoadCache_for c t (int i) (int E) (int l) = Full" using h(1) nx [OF 3] by simp
        show "valid (set_lines E i c ! k) \<and> ctag (set_lines E i c ! k) \<noteq> t" if "l \<le> k" "k < E" for k
          by (rule ext [OF 3 that(1)], rule h(2) [OF _ that(2)])
      qed
    qed
  qed
qed

text \<open>The search finds the line with the smallest stamp, if some stamp is below 999999.\<close>

lemma WriteCache_search_least:
  assumes i: "(i + 1) * E \<le> length c" and "0 < E"
    and small: "\<And>j. j < E \<Longrightarrow> timer (set_lines E i c ! j) < 999999"
  obtains least idx j where "WriteCache_search c (int i * int E + int E - 1) (int E) = (least, idx)"
    and "nat (int i * int E + int E - 1 - idx) = i * E + j" and "j < E"
    and "\<And>k. k < E \<Longrightarrow> timer (set_lines E i c ! j) \<le> timer (set_lines E i c ! k)"
proof -
  let ?p = "int i * int E + int E - 1" and ?us = "set_lines E i c"
  let ?body = "\<lambda>l (least, idx). let t = int (timer (c ! nat (?p - l))) in if t < least then (t, l) else (least, idx)"
  let ?P = "\<lambda>l st. 0 \<le> l \<and> l \<le> int E \<and>
     (if l = 0 then st = (999999, 0)
      else 0 \<le> snd st \<and> snd st < l \<and> fst st = int (timer (?us ! (E - 1 - nat (snd st)))) \<and>
        (\<forall>k < nat l. fst st \<le> int (timer (?us ! (E - 1 - k)))))"
  have line: "nat (?p - int l) = i * E + (E - 1 - l)" if "l < E" for l
  proof -
    have "?p - int l = int (i * E + (E - 1 - l))" using that by (simp add: of_nat_diff)
    then show ?thesis by (simp only: nat_int)
  qed
  have ln: "timer (c ! nat (?p - int l)) = timer (?us ! (E - 1 - l))" if "l < E" for l
    unfolding line [OF that] using that \<open>0 < E\<close> by (simp add: set_linesD [OF i])
  have ln0: "timer (c ! nat ?p) = timer (?us ! (E - 1))" using ln [of 0] \<open>0 < E\<close> by simp
  have "?P (l + 1) (?body l st)" if P: "?P l st" and "l < int E" for l st
  proof -
    obtain n where n: "l = int n" "n < E" using P \<open>l < int E\<close> by (metis nonneg_int_cases of_nat_less_iff)
    obtain least idx where st: "st = (least, idx)" by fastforce
    have all: "\<forall>k < Suc n. m \<le> int (timer (?us ! (E - 1 - k)))"
      if "\<forall>k < n. m \<le> int (timer (?us ! (E - 1 - k)))" "m \<le> int (timer (?us ! (E - 1 - n)))" for m
      using that by (auto simp: less_Suc_eq)
    have "timer (?us ! (E - 1 - n)) < 999999" using small n \<open>0 < E\<close> by simp
    then show ?thesis using P n
      by (cases "n = 0")
        (auto simp: st ln ln0 Let_def nat_add_distrib less_Suc_eq intro: less_imp_le order.trans)
  qed
  note step = this
  have "?P (fst (for_up 0 (int E) 1 ?body (999999, 0))) (snd (for_up 0 (int E) 1 ?body (999999, 0)))
    \<and> \<not> fst (for_up 0 (int E) 1 ?body (999999, 0)) < int E"
    by (rule for_up_rule [of ?P]) (simp, simp, rule step)
  then have r: "?P (fst (for_up 0 (int E) 1 ?body (999999, 0))) (WriteCache_search c ?p (int E))"
    and e: "\<not> fst (for_up 0 (int E) 1 ?body (999999, 0)) < int E"
    unfolding WriteCache_search_def by blast+
  obtain least idx where st: "WriteCache_search c ?p (int E) = (least, idx)" by fastforce
  have l: "fst (for_up 0 (int E) 1 ?body (999999, 0)) = int E" using r e by linarith
  have i': "0 \<le> idx" "idx < int E" "least = int (timer (?us ! (E - 1 - nat idx)))"
    "\<forall>k < E. least \<le> int (timer (?us ! (E - 1 - k)))"
    using r \<open>0 < E\<close> unfolding l st by (auto simp del: One_nat_def)
  show ?thesis
  proof (rule that)
    show "WriteCache_search c ?p (int E) = (least, idx)" by (rule st)
    have "idx = int (nat idx)" "nat idx < E" using i' by auto
    then show "nat (?p - idx) = i * E + (E - 1 - nat idx)" using line by metis
    show "E - 1 - nat idx < E" using \<open>0 < E\<close> by simp
    show "timer (?us ! (E - 1 - nat idx)) \<le> timer (?us ! k)" if "k < E" for k
      using i'(4) [rule_format, of "E - 1 - k"] i'(3) that by simp
  qed
qed

section \<open>The simulator implements the abstract cache\<close>

definition cache_ok :: "nat \<Rightarrow> nat \<Rightarrow> csim \<Rightarrow> bool" where
  "cache_ok E S s \<longleftrightarrow> length (cache s) = S * E \<and>
     (\<forall>i < S. set_ok (time s) (set_lines E i (cache s)))"

definition cache_abs :: "nat \<Rightarrow> nat \<Rightarrow> csim \<Rightarrow> int list list" where
  "cache_abs E S s = map (\<lambda>i. mru_tags (set_lines E i (cache s))) [0..<S]"

definition tally :: "string \<Rightarrow> resStruct \<Rightarrow> resStruct" where
  "tally r c =
     (if r = ''hit'' then c\<lparr>hits := hits c + 1\<rparr>
      else if r = ''miss'' then c\<lparr>misses := misses c + 1\<rparr>
      else c\<lparr>misses := misses c + 1, evictions := evictions c + 1\<rparr>)"

definition lru_cache :: "nat \<Rightarrow> nat \<Rightarrow> int \<Rightarrow> int list list \<Rightarrow> string \<times> int list list" where
  "lru_cache E i t qs = (let (r, q) = lru_access E t (qs ! i) in (r, qs[i := q]))"

lemma cache_update:
  assumes ok: "cache_ok E S s" and i: "i < S" and j: "j < E"
    and c: "cache s' = (cache s)[i * E + j := u]" and t: "time s \<le> time s'"
    and new: "set_ok (time s') ((set_lines E i (cache s))[j := u])"
  shows "cache_ok E S s'"
    and "cache_abs E S s' = (cache_abs E S s)[i := mru_tags ((set_lines E i (cache s))[j := u])]"
proof -
  have len: "(i + 1) * E \<le> length (cache s)"
    using ok i unfolding cache_ok_def by (metis Suc_eq_plus1 Suc_leI mult_le_mono1)
  have lines: "set_lines E k (cache s') =
      (if k = i then (set_lines E i (cache s))[j := u] else set_lines E k (cache s))" for k
    using set_lines_update [OF len j] set_lines_update_other [OF _ j] by (simp add: c)
  show "cache_ok E S s'"
    using ok new set_ok_mono [OF _ t] by (auto simp: cache_ok_def lines) (simp add: c)
  show "cache_abs E S s' = (cache_abs E S s)[i := mru_tags ((set_lines E i (cache s))[j := u])]"
    by (rule nth_equalityI) (auto simp: cache_abs_def lines nth_list_update)
qed

lemma LoadCache_lru:
  assumes ok: "cache_ok E S s" and i: "i < S" and E: "0 < E" and T: "time s \<le> 999999"
  shows "\<exists>r s'. LoadCache t (int i) (int E) s = Some (r, s') \<and> cache_ok E S s' \<and>
     (r, cache_abs E S s') = lru_cache E i t (cache_abs E S s) \<and>
     res s' = tally r (res s) \<and> time s' \<le> time s + 2"
proof -
  let ?us = "set_lines E i (cache s)"
  have len: "(i + 1) * E \<le> length (cache s)"
    using ok i unfolding cache_ok_def by (metis Suc_eq_plus1 Suc_leI mult_le_mono1)
  have guard: "\<not> (int E \<le> 0 \<or> int i < 0 \<or> int (length (cache s)) < int i * int E + int E)"
    using len E by (simp flip: of_nat_mult of_nat_add)
  have us: "set_ok (time s) ?us" "length ?us = E" "cache_abs E S s ! i = mru_tags ?us"
    using ok i E set_linesD [OF len E] by (auto simp: cache_ok_def cache_abs_def)
  have nth: "cache s ! (i * E + j) = ?us ! j" if "j < E" for j
    using set_linesD [OF len that] by simp
  show ?thesis
  proof (rule LoadCache_for_cases [OF len, of 0 t], simp)
    fix j assume h: "LoadCache_for (cache s) t (int i) (int E) (int 0) = Hit (i * E + j)" "j < E"
      "valid (?us ! j)" "ctag (?us ! j) = t"
    define s' where "s' = s\<lparr>res := (res s)\<lparr>hits := hits (res s) + 1\<rparr>,
      cache := (cache s)[i * E + j := (?us ! j)\<lparr>timer := time s\<rparr>], time := time s + 1\<rparr>"
    have l: "LoadCache t (int i) (int E) s = Some (''hit'', s')"
      using guard h by (simp add: LoadCache_def s'_def nth)
    note t = touch_hit [OF us(1), unfolded us(2), OF h(2,3), unfolded h(4)]
    note u = cache_update [OF ok i h(2), of s' "(?us ! j)\<lparr>timer := time s\<rparr>"]
    show ?thesis using l u t
      by (intro exI [of _ "''hit''"] exI [of _ s']) (simp add: s'_def lru_cache_def lru_access_def us tally_def)
  next
    fix j assume h: "LoadCache_for (cache s) t (int i) (int E) (int 0) = Free (i * E + j)" "j < E"
      "\<not> valid (?us ! j)" "\<And>k. 0 \<le> k \<Longrightarrow> k < j \<Longrightarrow> valid (?us ! k) \<and> ctag (?us ! k) \<noteq> t"
    define s' where "s' = s\<lparr>res := (res s)\<lparr>misses := misses (res s) + 1\<rparr>,
      cache := (cache s)[i * E + j := \<lparr>timer = time s, ctag = t, valid = True\<rparr>], time := time s + 1\<rparr>"
    have l: "LoadCache t (int i) (int E) s = Some (''miss'', s')"
      using guard h by (simp add: LoadCache_def s'_def)
    note t = touch_free [OF us(1), unfolded us(2), OF h(2,3,4)]
    note u = cache_update [OF ok i h(2), of s' "\<lparr>timer = time s, ctag = t, valid = True\<rparr>"]
    show ?thesis using l u t
      by (intro exI [of _ "''miss''"] exI [of _ s']) (simp add: s'_def lru_cache_def lru_access_def us tally_def)
  next
    assume h: "LoadCache_for (cache s) t (int i) (int E) (int 0) = Full"
      "\<And>k. 0 \<le> k \<Longrightarrow> k < E \<Longrightarrow> valid (?us ! k) \<and> ctag (?us ! k) \<noteq> t"
    have small: "timer (?us ! k) < 999999" if k: "k < E" for k
    proof -
      have "?us ! k \<in> set ?us" using us(2) k by simp
      with us(1) h(2) k have "timer (?us ! k) < time s" by (auto simp: set_ok_def)
      with T show ?thesis by simp
    qed
    obtain least idx j where w: "WriteCache_search (cache s) (int i * int E + int E - 1) (int E) = (least, idx)"
      "nat (int i * int E + int E - 1 - idx) = i * E + j" "j < E"
      "\<And>k. k < E \<Longrightarrow> timer (?us ! j) \<le> timer (?us ! k)"
      using WriteCache_search_least [OF len E small] by blast
    let ?u = "(?us ! j)\<lparr>ctag := t, timer := time s\<rparr>"
    define s' where "s' = s\<lparr>
      cache := (cache s)[i * E + j := ?u], 
      res := (res s)\<lparr>misses := misses (res s) + 1, evictions := evictions (res s) + 1\<rparr>, time := time s + 2\<rparr>"
    have l: "LoadCache t (int i) (int E) s = Some (''miss eviction'', s')"
      using guard h w by (simp add: LoadCache_def WriteCache_def s'_def nth)
    have k0: "k < E \<Longrightarrow> valid (?us ! k) \<and> ctag (?us ! k) \<noteq> t" for k using h(2) by simp
    note t = touch_full [OF us(1), unfolded us(2), OF w(3) k0 w(4) order.refl]
    note u = cache_update [OF ok i w(3), of s' ?u]
    have "set_ok (Suc (Suc (time s))) (?us[j := ?u])" using t(1) by (rule set_ok_mono) simp_all
    then show ?thesis using l u t
      by (intro exI [of _ "''miss eviction''"] exI [of _ s']) (simp add: s'_def lru_cache_def lru_access_def us tally_def)
  qed
qed

section \<open>Decoding of addresses\<close>

lemma GetDecimalBit_field:
  assumes "0 \<le> k" "k < 32" "0 \<le> m" "m < 64"
  shows "GetDecimalBit oob w \<lparr>mo_bit = k, mo_movbit = m\<rparr> = Some (take_bit (nat k) (drop_bit (nat m) w))"
proof -
  have "c_shl_by oob 1 k - 1 = (mask (nat k) :: c_int)"
    using assms by (simp add: c_shl_by_def mask_eq_exp_minus_1 push_bit_eq_mult)
  moreover have "scast (mask (nat k) :: c_int) = (mask (nat k) :: c_ulong)"
  proof (rule bit_word_eqI)
    fix n assume "n < LENGTH(64)"
    then show "bit (scast (mask (nat k) :: c_int) :: c_ulong) n = bit (mask (nat k) :: c_ulong) n"
      using assms by (auto simp: bit_signed_iff bit_mask_iff bit_simps)
  qed
  ultimately show ?thesis
    using assms(3,4) unfolding GetDecimalBit_def Let_def maskOption.simps
    by (simp, intro bit_word_eqI) (auto simp: bit_simps dest: bit_imp_le_length)
qed

lemma int_of_ulong_small: "unat w < 2 ^ 31 \<Longrightarrow> int_of_ulong w = int (unat w)"
proof -
  assume "unat w < 2 ^ 31"
  then have "unat (ucast w :: c_int) = unat w" by (simp add: unsigned_ucast_eq take_bit_nat_eq_self)
  moreover have "sint (ucast w :: c_int) = sint (of_nat (unat (ucast w :: c_int)) :: c_int)" by simp
  moreover have "sint (word_of_int (int (unat w)) :: c_int) = int (unat w)"
    by (rule sint_wrap) (use \<open>unat w < 2 ^ 31\<close> in \<open>simp_all only: of_nat_less_iff [symmetric, where 'a = int]\<close>, simp_all)
  ultimately show ?thesis by (simp only: int_of_ulong_def of_int_of_nat_eq)
qed

lemma int_of_ulong_field:
  assumes "k < 32"
  shows "int_of_ulong (take_bit k (drop_bit m w)) = int (unat w div 2 ^ m mod 2 ^ k)"
proof -
  have u: "unat (take_bit k (drop_bit m w)) = unat w div 2 ^ m mod 2 ^ k"
    unfolding unsigned_take_bit_eq unat_drop_bit by (simp add: take_bit_eq_mod)
  have "unat w div 2 ^ m mod 2 ^ k < 2 ^ k" by simp
  also have "\<dots> \<le> 2 ^ 31" using assms by (intro power_increasing) auto
  finally show ?thesis using int_of_ulong_small [of "take_bit k (drop_bit m w)"] u by simp
qed

lemma set_of_field:
  assumes "0 \<le> as_set a" "as_set a < 32" "0 \<le> as_block a" "as_block a < 64"
  shows "set_of oob a w = Some (int (unat w div 2 ^ nat (as_block a) mod 2 ^ nat (as_set a)))"
  using assms by (simp add: set_of_def optionCI_def GetDecimalBit_field int_of_ulong_field)

lemma tag_of_defined:
  "0 \<le> as_block a + as_set a \<Longrightarrow> as_block a + as_set a < 64 \<Longrightarrow> tag_of oob a w = Some (the (tag_of oob a w))"
  by (simp add: tag_of_def optionCT_def GetDecimalBit_def Let_def)

lemma tag_of_field:
  assumes "0 < as_block a + as_set a" "as_block a + as_set a < 64"
  shows "tag_of x86_shl a w = Some (int (unat w div 2 ^ nat (as_block a + as_set a)
     mod 2 ^ nat ((64 - as_block a - as_set a) mod 32)))"
proof -
  let ?t = "64 - as_block a - as_set a" and ?m = "as_block a + as_set a"
  have "c_shl_by x86_shl 1 ?t = c_shl_by x86_shl 1 (?t mod 32)"
    by (simp add: c_shl_by_def x86_shl_def)
  then have "tag_of x86_shl a w = map_option int_of_ulong (GetDecimalBit x86_shl w \<lparr>mo_bit = ?t mod 32, mo_movbit = ?m\<rparr>)"
    by (simp add: tag_of_def optionCT_def GetDecimalBit_def)
  also have "\<dots> = Some (int_of_ulong (take_bit (nat (?t mod 32)) (drop_bit (nat ?m) w)))"
    using assms by (subst GetDecimalBit_field) auto
  also have "\<dots> = Some (int (unat w div 2 ^ nat ?m mod 2 ^ nat (?t mod 32)))"
    by (simp add: int_of_ulong_field)
  finally show ?thesis .
qed

section \<open>The whole trace\<close>

definition lru_step :: "nat \<Rightarrow> char \<Rightarrow> nat \<Rightarrow> int \<Rightarrow> int list list \<times> resStruct \<Rightarrow> string \<times> int list list \<times> resStruct" where
  "lru_step E opn i t = (\<lambda>(qs, c).
     if opn \<in> {CHR ''M'', CHR ''L'', CHR ''S''} then
       (let (r, qs) = lru_cache E i t qs; c = tally r c
        in if opn = CHR ''M'' then (r @ '' hit'', qs, c\<lparr>hits := hits c + 1\<rparr>) else (r, qs, c))
     else ('''', qs, c))"

fun lru_run :: "nat \<Rightarrow> (char \<times> nat \<times> int) list \<Rightarrow> int list list \<times> resStruct \<Rightarrow> string list \<times> int list list \<times> resStruct" where
  "lru_run E [] st = ([], st)"
| "lru_run E ((opn, i, t) # xs) st =
     (let (r, st) = lru_step E opn i t st; (rs, st) = lru_run E xs st in (r # rs, st))"

definition decode :: "(c_int \<Rightarrow> int \<Rightarrow> c_int) \<Rightarrow> addrStruct \<Rightarrow> trec \<Rightarrow> char \<times> nat \<times> int" where
  "decode oob a r = (op r, unat (addr r) div 2 ^ nat (as_block a) mod 2 ^ nat (as_set a), the (tag_of oob a (addr r)))"

lemma cacheSimulator_step_lru:
  assumes ok: "cache_ok E S s" and E: "as_line a = int E" "0 < E" and S: "S = 2 ^ nat (as_set a)"
    and T: "time s \<le> 999999" and a: "geometry mem a"
  shows "\<exists>ret s'. cacheSimulator_step oob a r s = Some (ret, s') \<and> cache_ok E S s' \<and> time s' \<le> time s + 2 \<and>
    lru_step E (fst (decode oob a r)) (fst (snd (decode oob a r))) (snd (snd (decode oob a r))) (cache_abs E S s, res s)
      = (ret, cache_abs E S s', res s')"
proof -
  define i where "i = unat (addr r) div 2 ^ nat (as_block a) mod 2 ^ nat (as_set a)"
  have g: "0 \<le> as_set a" "as_set a < 32" "0 \<le> as_block a" "as_block a < 64" "as_block a + as_set a < 64"
    using a by (auto simp: geometry_def)
  have i: "i < S" "set_of oob a (addr r) = Some (int i)" using set_of_field [OF g(1-4)] by (simp_all add: i_def S)
  let ?t = "the (tag_of oob a (addr r))"
  have t: "tag_of oob a (addr r) = Some ?t" by (rule tag_of_defined) (use g in auto)
  obtain q s' where q: "LoadCache ?t (int i) (int E) s = Some (q, s')" "cache_ok E S s'"
    "(q, cache_abs E S s') = lru_cache E i ?t (cache_abs E S s)"
    "res s' = tally q (res s)" "time s' \<le> time s + 2"
    using LoadCache_lru [OF ok i(1) E(2) T] by blast
  have m: "cache_ok E S (s'\<lparr>res := c\<rparr>)" "cache_abs E S (s'\<lparr>res := c\<rparr>) = cache_abs E S s'" for c
    using q(2) by (simp_all add: cache_ok_def cache_abs_def)
  have d: "decode oob a r = (op r, i, ?t)" by (simp add: decode_def i_def)
  have LL: "LoadCache ?t (int i) (as_line a) s = Some (q, s')" using q(1) E by simp
  have step: "cacheSimulator_step oob a r s =
      (if op r = CHR ''M'' then Some (q @ '' hit'', s'\<lparr>res := (res s')\<lparr>hits := hits (res s') + 1\<rparr>\<rparr>)
       else if op r = CHR ''L'' \<or> op r = CHR ''S'' then Some (q, s') else Some ('''', s))"
    by (subst cacheSimulator_step_def, subst t, subst i(2)) (simp add: LL)
  consider "op r = CHR ''M''" | "op r \<noteq> CHR ''M''" "op r \<in> {CHR ''L'', CHR ''S''}"
    | "op r \<notin> {CHR ''M'', CHR ''L'', CHR ''S''}" by blast
  then show ?thesis
  proof cases
    case 1
    then have "cacheSimulator_step oob a r s = Some (q @ '' hit'', s'\<lparr>res := (res s')\<lparr>hits := hits (res s') + 1\<rparr>\<rparr>)"
      by (simp add: step)
    moreover have "lru_step E (op r) i ?t (cache_abs E S s, res s) =
        (q @ '' hit'', cache_abs E S s', (res s')\<lparr>hits := hits (res s') + 1\<rparr>)"
      by (simp add: lru_step_def 1 q(3) [symmetric] q(4) Let_def)
    ultimately show ?thesis using m q(5) by (simp add: d)
  next
    case 2
    then have "cacheSimulator_step oob a r s = Some (q, s')"
      by (auto simp: step)
    moreover have "lru_step E (op r) i ?t (cache_abs E S s, res s) = (q, cache_abs E S s', res s')"
      using 2 by (simp add: lru_step_def q(3) [symmetric] q(4))
    ultimately show ?thesis using q(2,5) by (simp add: d)
  next
    case 3
    then show ?thesis using ok by (simp add: step lru_step_def d)
  qed
qed

lemma cacheSimulator_loop_lru:
  assumes "cache_ok E S s" and E: "as_line a = int E" "0 < E" and S: "S = 2 ^ nat (as_set a)"
    and T: "time s + 2 * length trace \<le> 1000000" and a: "geometry mem a"
  shows "\<exists>out s' rets. cacheSimulator_loop oob a trace s = Some (out, s') \<and> cache_ok E S s' \<and>
    lru_run E (map (decode oob a) trace) (cache_abs E S s, res s) = (rets, cache_abs E S s', res s') \<and>
    out = (if as_verbose a then zip trace rets else [])"
  using assms(1) T
proof (induction trace arbitrary: s)
  case (Cons r trace)
  obtain ret s1 where 1: "cacheSimulator_step oob a r s = Some (ret, s1)" "cache_ok E S s1" "time s1 \<le> time s + 2"
    "lru_step E (fst (decode oob a r)) (fst (snd (decode oob a r))) (snd (snd (decode oob a r))) (cache_abs E S s, res s)
      = (ret, cache_abs E S s1, res s1)"
    using cacheSimulator_step_lru [OF Cons.prems(1) E S _ a] Cons.prems(2) by fastforce
  obtain out s2 rets where 2: "cacheSimulator_loop oob a trace s1 = Some (out, s2)" "cache_ok E S s2"
    "lru_run E (map (decode oob a) trace) (cache_abs E S s1, res s1) = (rets, cache_abs E S s2, res s2)"
    "out = (if as_verbose a then zip trace rets else [])"
    using Cons.IH [OF 1(2)] 1(3) Cons.prems(2) by auto
  show ?case using 1 2 by (cases "decode oob a r") auto
qed auto

lemma cache_init_ok:
  assumes E: "as_line a = int E" and a: "geometry mem a"
  shows "\<exists>s. cache_init mem a = Some s \<and> cache_ok E (2 ^ nat (as_set a)) s \<and>
    cache_abs E (2 ^ nat (as_set a)) s = replicate (2 ^ nat (as_set a)) [] \<and>
    time s = 0 \<and> res s = \<lparr>hits = 0, misses = 0, evictions = 0\<rparr>"
proof -
  let ?S = "2 ^ nat (as_set a) :: nat"
  define s where "s = \<lparr>cache = replicate (?S * E) InitCache_line, res = \<lparr>hits = 0, misses = 0, evictions = 0\<rparr>, time = 0\<rparr>"
  have n: "nat (int E * 2 ^ nat (as_set a)) = ?S * E" by (simp add: nat_mult_distrib nat_power_eq)
  have neg: "\<not> x < - (2 ^ 31)" if "0 \<le> x" for x :: int using that by simp
  have "\<not> int E * 2 ^ nat (as_set a) < - (2 ^ 31)" by (intro neg) simp
  then have init: "cache_init mem a = Some s"
    using a n by (simp add: cache_init_def geometry_def Let_def s_def E mult.commute)
  have "set_lines E i (cache s) = replicate E InitCache_line" if "i < ?S" for i
  proof -
    have "(i + 1) * E \<le> ?S * E" using that by (intro mult_right_mono) auto
    then show ?thesis by (simp add: set_lines_def s_def min_def algebra_simps)
  qed
  then have l: "i < ?S \<Longrightarrow> set_ok 0 (set_lines E i (cache s)) \<and> mru_tags (set_lines E i (cache s)) = []" for i
    by (simp add: set_ok_def mru_tags_def InitCache_line_def)
  have "cache_ok E ?S s" "cache_abs E ?S s = replicate ?S []"
    using l by (auto simp: cache_ok_def cache_abs_def intro!: nth_equalityI) (simp_all add: s_def)
  then show ?thesis using init by (auto simp: s_def)
qed

section \<open>Counters\<close>

lemma LoadCache_tally:
  assumes "LoadCache t si line s = Some (r, s')"
  shows "r \<in> {''hit'', ''miss'', ''miss eviction''} \<and> res s' = tally r (res s)"
  using assms
  by (auto simp: LoadCache_def WriteCache_def tally_def Let_def split: found.splits if_splits prod.splits)

lemma tally_count:
  assumes "r \<in> {''hit'', ''miss'', ''miss eviction''}"
  shows "hits (tally r c) + misses (tally r c) = hits c + misses c + 1"
    and "misses (tally r c) - evictions (tally r c) \<ge> misses c - evictions c"
    and "hits c \<le> hits (tally r c)"
  using assms by (auto simp: tally_def)

text \<open>The number of accesses of a record: a modification counts twice.\<close>

definition accesses :: "trec \<Rightarrow> int" where
  "accesses r = (if op r = CHR ''M'' then 2 else if op r \<in> {CHR ''L'', CHR ''S''} then 1 else 0)"

lemma cacheSimulator_step_count:
  assumes "cacheSimulator_step oob a r s = Some (out, s')"
  shows "hits (res s') + misses (res s') = hits (res s) + misses (res s) + accesses r"
    and "misses (res s') - evictions (res s') \<ge> misses (res s) - evictions (res s)"
  using assms tally_count
  by (auto simp: cacheSimulator_step_def accesses_def split: if_splits option.splits prod.splits dest!: LoadCache_tally)

lemma cacheSimulator_loop_count:
  assumes "cacheSimulator_loop oob a trace s = Some (out, s')"
  shows "hits (res s') + misses (res s') = hits (res s) + misses (res s) + sum_list (map accesses trace)
    \<and> misses (res s') - evictions (res s') \<ge> misses (res s) - evictions (res s)"
  using assms
proof (induction trace arbitrary: s out)
  case (Cons r trace)
  from Cons.prems obtain ret s1 out1 where 1: "cacheSimulator_step oob a r s = Some (ret, s1)"
    "cacheSimulator_loop oob a trace s1 = Some (out1, s')"
    by (auto split: option.splits)
  show ?case using Cons.IH [OF 1(2)] cacheSimulator_step_count [OF 1(1)] by simp
qed simp

section \<open>More lines per set\<close>

text \<open>
  Least-recently-used sets of different sizes stay prefixes of one another, so a hit in the
  smaller one is a hit in the larger one.
\<close>

lemma take_remove1:
  "distinct q \<Longrightarrow> t \<in> set (take n q) \<Longrightarrow> take (n - 1) (remove1 t q) = remove1 t (take n q)"
proof (induction q arbitrary: n)
  case (Cons x q)
  show ?case
  proof (cases "x = t")
    case False
    then obtain m where m: "n = Suc m" "t \<in> set (take m q)" using Cons.prems by (cases n) auto
    then have "0 < m" by (cases m) auto
    then show ?thesis using Cons.IH [of m] Cons.prems m False by (cases m) auto
  qed (cases n; use Cons.prems in \<open>auto\<close>)
qed simp

lemma take_remove1_late: "t \<notin> set (take n q) \<Longrightarrow> take n (remove1 t q) = take n q"
  by (induction q arbitrary: n) (auto simp: take_Cons' split: if_splits)

lemma lru_access_prefix:
  assumes "distinct q'" and "length q' \<le> E'" and "0 < E" and "E \<le> E'" and "q = take E q'"
  shows "snd (lru_access E t q) = take E (snd (lru_access E' t q'))"
    and "fst (lru_access E t q) = ''hit'' \<Longrightarrow> fst (lru_access E' t q') = ''hit''"
    and "distinct (snd (lru_access E' t q'))" and "length (snd (lru_access E' t q')) \<le> E'"
proof -
  obtain n where n: "E = Suc n" using \<open>0 < E\<close> by (cases E) auto
  have sub: "set (take E q') \<subseteq> set q'" by (rule set_take_subset)
  have bl: "butlast (take E q') = take n q'" if "\<not> length (take E q') < E"
    using that by (simp add: n butlast_take)
  show "snd (lru_access E t q) = take E (snd (lru_access E' t q'))"
  proof (cases "t \<in> set (take E q')")
    case True
    then show ?thesis using take_remove1 [OF assms(1) True] sub assms(5) by (auto simp: lru_access_def n)
  next
    case False
    then have *: "snd (lru_access E t q) = t # take n q'"
      using bl assms(5) by (auto simp: lru_access_def n)
    have "t \<notin> set (take n q')" using False set_take_subset_set_take [of n E q'] n by auto
    then have "take n (remove1 t q') = take n q'" by (rule take_remove1_late)
    moreover have "take n (butlast q') = take n q'" if "\<not> length q' < E'"
      using that assms(4) n by (simp add: take_butlast)
    ultimately show ?thesis unfolding * by (auto simp: lru_access_def n)
  qed
  show "fst (lru_access E t q) = ''hit'' \<Longrightarrow> fst (lru_access E' t q') = ''hit''"
    using sub assms(5) by (auto simp: lru_access_def split: if_splits)
  show "distinct (snd (lru_access E' t q'))"
    using assms(1) by (auto simp: lru_access_def distinct_butlast dest: in_set_butlastD)
  show "length (snd (lru_access E' t q')) \<le> E'"
    using assms(2-4) by (auto simp: lru_access_def length_remove1) 
qed

definition prefixes :: "nat \<Rightarrow> nat \<Rightarrow> int list list \<Rightarrow> int list list \<Rightarrow> bool" where
  "prefixes E E' qs qs' \<longleftrightarrow> qs = map (take E) qs' \<and> (\<forall>q \<in> set qs'. distinct q \<and> length q \<le> E')"

lemma lru_step_prefixes:
  assumes p: "prefixes E E' qs qs'" and i: "i < length qs'" and E: "0 < E" "E \<le> E'"
    and h: "hits c \<le> hits c'"
    and s: "lru_step E opn i t (qs, c) = (r, qs1, c1)" "lru_step E' opn i t (qs', c') = (r', qs1', c1')"
  shows "prefixes E E' qs1 qs1' \<and> length qs1' = length qs' \<and> hits c1 \<le> hits c1'"
proof -
  have q: "distinct (qs' ! i)" "length (qs' ! i) \<le> E'" "qs ! i = take E (qs' ! i)"
    using p i by (auto simp: prefixes_def)
  note a = lru_access_prefix [OF q(1,2) E q(3), of t]
  obtain x y where x: "lru_access E t (qs ! i) = (x, take E y)" "lru_access E' t (qs' ! i) = (fst (lru_access E' t (qs' ! i)), y)"
    using a(1) by (metis prod.collapse)
  let ?x' = "fst (lru_access E' t (qs' ! i))"
  have t: "hits (tally x c) \<le> hits (tally ?x' c')"
    using h a(2) x(1) by (auto simp: tally_def)
  have y: "distinct y" "length y \<le> E'" using a(3,4) x(2) by (metis snd_conv)+
  have "prefixes E E' (qs[i := take E y]) (qs'[i := y])"
    using p y i unfolding prefixes_def by (auto simp: map_update dest!: set_update_subset_insert [THEN subsetD])
  then show ?thesis
    using s t p h x unfolding lru_step_def lru_cache_def
    by (auto simp: Let_def split: if_splits prod.splits)
qed

lemma lru_run_prefixes:
  assumes "prefixes E E' qs qs'" and "\<forall>x \<in> set xs. fst (snd x) < length qs'" and E: "0 < E" "E \<le> E'"
    and "hits c \<le> hits c'"
  shows "hits (snd (snd (lru_run E xs (qs, c)))) \<le> hits (snd (snd (lru_run E' xs (qs', c'))))"
  using assms(1,2,5)
proof (induction xs arbitrary: qs qs' c c')
  case (Cons x xs)
  obtain opn i t where x: "x = (opn, i, t)" by (metis prod_cases3)
  obtain r qs1 c1 where 1: "lru_step E opn i t (qs, c) = (r, qs1, c1)" by (metis prod_cases3)
  obtain r' qs1' c1' where 2: "lru_step E' opn i t (qs', c') = (r', qs1', c1')" by (metis prod_cases3)
  have "prefixes E E' qs1 qs1' \<and> length qs1' = length qs' \<and> hits c1 \<le> hits c1'"
    using Cons.prems x by (intro lru_step_prefixes [OF _ _ E _ 1 2]) auto
  then show ?case using Cons.IH [of qs1 qs1' c1 c1'] Cons.prems x 1 2
    by (auto simp: split: prod.splits)
qed simp

section \<open>Properties of the simulator\<close>

lemma cacheSimulator_eq:
  assumes "geometry mem a" "length trace \<le> 500000"
  shows "cacheSimulator oob mem a trace =
    (let (rets, qs, c) = lru_run (nat (as_line a)) (map (decode oob a) trace)
       (replicate (2 ^ nat (as_set a)) [], \<lparr>hits = 0, misses = 0, evictions = 0\<rparr>)
     in Some (if as_verbose a then zip trace rets else [], c))"
proof -
  define E where "E = nat (as_line a)"
  have E: "as_line a = int E" "0 < E" using assms(1) by (auto simp: E_def geometry_def)
  obtain s where s: "cache_init mem a = Some s" "cache_ok E (2 ^ nat (as_set a)) s"
    "cache_abs E (2 ^ nat (as_set a)) s = replicate (2 ^ nat (as_set a)) []" "time s = 0"
    "res s = \<lparr>hits = 0, misses = 0, evictions = 0\<rparr>"
    using cache_init_ok [OF E(1) assms(1)] by blast
  have "time s + 2 * length trace \<le> 1000000" using assms(2) s(4) by simp
  then obtain out s' rets where "cacheSimulator_loop oob a trace s = Some (out, s')"
    "lru_run E (map (decode oob a) trace) (cache_abs E (2 ^ nat (as_set a)) s, res s)
      = (rets, cache_abs E (2 ^ nat (as_set a)) s', res s')"
    "out = (if as_verbose a then zip trace rets else [])"
    using cacheSimulator_loop_lru [OF s(2) E refl _ assms(1)] by blast
  note run = this(1) this(2) [unfolded s(3,5), unfolded E_def] this(3)
  then show ?thesis by (simp add: cacheSimulator_def s(1))
qed

text \<open>C11: On a trace of at most 500000 records, and with parameters whose cache fits an \<open>int\<close> and the
  memory and whose set and block bits leave a tag, the simulator is an abstract LRU cache: it returns,
  with every access inside its array, the counters and (when verbose) the output of the run
  that keeps each of the \<open>2^s\<close> sets as the list of its tags in order of use and evicts the
  last one. The set index is the field of \<open>s\<close> bits above the block offset; the tag is what the
  decoder delivers.\<close>

theorem cacheSimulator_lru:
  assumes "geometry mem a" "length trace \<le> 500000"
  shows "cacheSimulator oob mem a trace =
    (let (rets, qs, c) = lru_run (nat (as_line a)) (map (decode oob a) trace)
       (replicate (2 ^ nat (as_set a)) [], \<lparr>hits = 0, misses = 0, evictions = 0\<rparr>)
     in Some (if as_verbose a then zip trace rets else [], c))"
  by (rule cacheSimulator_eq [OF assms])

text \<open>A machine with a megabyte to give.\<close>

definition demo_mem :: "int \<Rightarrow> bool" where
  "demo_mem n \<longleftrightarrow> n \<le> 2 ^ 20"

lemma cacheSimulator_lru_witness:
  "let a = \<lparr>as_set = 1, as_block = 1, as_line = 1, as_verbose = True\<rparr>;
       trace = [\<lparr>op = CHR ''L'', addr = 4, bytes = 1\<rparr>, \<lparr>op = CHR ''M'', addr = 8, bytes = 1\<rparr>]
   in \<exists>rets qs c. cacheSimulator x86_shl demo_mem a trace = Some (zip trace rets, c) \<and>
     lru_run 1 (map (decode x86_shl a) trace)
       (replicate 2 [], \<lparr>hits = 0, misses = 0, evictions = 0\<rparr>) = (rets, qs, c)"
  using cacheSimulator_lru [of demo_mem "\<lparr>as_set = 1, as_block = 1, as_line = 1, as_verbose = True\<rparr>"
      "[\<lparr>op = CHR ''L'', addr = 4, bytes = 1\<rparr>, \<lparr>op = CHR ''M'', addr = 8, bytes = 1\<rparr>]" x86_shl]
  by (simp add: Let_def geometry_def demo_mem_def split: prod.splits)

text \<open>C12: Enlarging the sets never loses a hit: with the same set and block bits and a trace of at
  most 500000 records, a run with more lines per set, when both caches fit an \<open>int\<close> and the memory,
  counts at least as many hits.\<close>

theorem cacheSimulator_more_lines:
  assumes "cacheSimulator oob mem a trace = Some (out, c)"
    and "cacheSimulator oob mem (a\<lparr>as_line := l\<rparr>) trace = Some (out', c')"
    and "geometry mem a" "geometry mem (a\<lparr>as_line := l\<rparr>)" "as_line a \<le> l"
    and "length trace \<le> 500000"
  shows "hits c \<le> hits c'"
proof -
  let ?S = "2 ^ nat (as_set a) :: nat" and ?c0 = "\<lparr>hits = 0, misses = 0, evictions = 0\<rparr>"
  have "decode oob (a\<lparr>as_line := l\<rparr>) = decode oob a"
    by (simp add: fun_eq_iff decode_def tag_of_def optionCT_def)
  then have "c = snd (snd (lru_run (nat (as_line a)) (map (decode oob a) trace) (replicate ?S [], ?c0)))"
    and "c' = snd (snd (lru_run (nat l) (map (decode oob a) trace) (replicate ?S [], ?c0)))"
    using assms cacheSimulator_eq [of mem a trace oob] cacheSimulator_eq [of mem "a\<lparr>as_line := l\<rparr>" trace oob]
    by (auto split: prod.splits)
  moreover have "prefixes (nat (as_line a)) (nat l) (replicate ?S []) (replicate ?S [])"
    by (simp add: prefixes_def)
  ultimately show ?thesis
    using assms by (auto intro!: lru_run_prefixes simp: decode_def geometry_def)
qed

lemma cacheSimulator_more_lines_witness:
  "let a = \<lparr>as_set = 0, as_block = 1, as_line = 1, as_verbose = False\<rparr>;
       trace = map (\<lambda>w. \<lparr>op = CHR ''L'', addr = w, bytes = 1\<rparr>) [2, 4, 2]
   in cacheSimulator x86_shl demo_mem a trace = Some ([], \<lparr>hits = 0, misses = 3, evictions = 2\<rparr>) \<and>
      cacheSimulator x86_shl demo_mem (a\<lparr>as_line := 2\<rparr>) trace = Some ([], \<lparr>hits = 1, misses = 2, evictions = 0\<rparr>) \<and>
      hits \<lparr>hits = 0, misses = 3, evictions = 2\<rparr> \<le> hits \<lparr>hits = 1, misses = 2, evictions = 0\<rparr>"
proof -
  let ?a = "\<lparr>as_set = 0, as_block = 1, as_line = 1, as_verbose = False\<rparr>"
  let ?trace = "map (\<lambda>w. \<lparr>op = CHR ''L'', addr = w, bytes = 1\<rparr>) [2, 4, 2]"
  have 1: "cacheSimulator x86_shl demo_mem ?a ?trace = Some ([], \<lparr>hits = 0, misses = 3, evictions = 2\<rparr>)"
    by code_simp
  have 2: "cacheSimulator x86_shl demo_mem (?a\<lparr>as_line := 2\<rparr>) ?trace = Some ([], \<lparr>hits = 1, misses = 2, evictions = 0\<rparr>)"
    by code_simp
  have "hits \<lparr>hits = 0, misses = 3, evictions = 2\<rparr> \<le> hits \<lparr>hits = 1, misses = 2, evictions = 0\<rparr>"
    by (rule cacheSimulator_more_lines [OF 1 2]) (simp_all add: geometry_def demo_mem_def)
  with 1 2 show ?thesis unfolding Let_def by (intro conjI)
qed

text \<open>Every access is counted once, as a hit or as a miss, and every eviction is a miss: over a
  trace of any length hits plus misses is the number of loads and stores plus twice the number of
  modifications.\<close>

theorem cacheSimulator_counts:
  assumes "cacheSimulator oob mem a trace = Some (out, c)"
  shows "hits c + misses c = sum_list (map accesses trace) \<and> evictions c \<le> misses c"
proof -
  obtain s s' where s: "cache_init mem a = Some s" "cacheSimulator_loop oob a trace s = Some (out, s')" "c = res s'"
    using assms by (auto simp: cacheSimulator_def split: option.splits)
  moreover have "res s = \<lparr>hits = 0, misses = 0, evictions = 0\<rparr>"
    using s(1) by (auto simp: cache_init_def Let_def split: if_splits)
  ultimately show ?thesis using cacheSimulator_loop_count [OF s(2)] by simp
qed

lemma cacheSimulator_counts_witness:
  "let a = \<lparr>as_set = 0, as_block = 1, as_line = 1, as_verbose = False\<rparr>;
       trace = [\<lparr>op = CHR ''M'', addr = 2, bytes = 1\<rparr>, \<lparr>op = CHR ''S'', addr = 4, bytes = 1\<rparr>]
   in cacheSimulator x86_shl demo_mem a trace = Some ([], \<lparr>hits = 1, misses = 2, evictions = 1\<rparr>) \<and>
      hits \<lparr>hits = 1, misses = 2, evictions = 1\<rparr> + misses \<lparr>hits = 1, misses = 2, evictions = 1\<rparr>
        = sum_list (map accesses trace)"
proof -
  let ?a = "\<lparr>as_set = 0, as_block = 1, as_line = 1, as_verbose = False\<rparr>"
  let ?trace = "[\<lparr>op = CHR ''M'', addr = 2, bytes = 1\<rparr>, \<lparr>op = CHR ''S'', addr = 4, bytes = 1\<rparr>]"
  have 1: "cacheSimulator x86_shl demo_mem ?a ?trace = Some ([], \<lparr>hits = 1, misses = 2, evictions = 1\<rparr>)"
    by code_simp
  show ?thesis using 1 cacheSimulator_counts [OF 1, THEN conjunct1] unfolding Let_def by (intro conjI)
qed

text \<open>The tag the decoder delivers on a machine that takes shift amounts modulo 32: of the
  \<open>64-b-s\<close> tag bits of the address only the lowest \<open>(64-b-s) mod 32\<close> are kept, so addresses
  that differ only above them share a tag. With 4 set bits and 4 block bits that is bit 32.\<close>

theorem tag_of_bits:
  assumes "0 < as_block a + as_set a" "as_block a + as_set a < 64"
  shows "tag_of x86_shl a w = Some (int (unat w div 2 ^ nat (as_block a + as_set a)
     mod 2 ^ nat ((64 - as_block a - as_set a) mod 32)))"
  using assms by (rule tag_of_field)

lemma tag_of_bits_witness:
  "let a = \<lparr>as_set = 4, as_block = 4, as_line = 1, as_verbose = False\<rparr>
   in tag_of x86_shl a 0x100000000 = Some 0 \<and> tag_of x86_shl a 0 = Some 0"
  unfolding Let_def by (subst (1 2) tag_of_bits) simp_all

text \<open>The search for the victim starts from the constant 999999: once every line of a full set
  carries a later time stamp, the victim is always the last line of the set, the most recently
  used one included.\<close>

theorem WriteCache_late:
  assumes "\<And>j. j < E \<Longrightarrow> 999999 \<le> timer (cache s ! (i * E + j))" and "0 < E"
  shows "WriteCache t (int E) (int i * int E + int E - 1) s =
    (let k = i * E + (E - 1)
     in s\<lparr>cache := (cache s)[k := (cache s ! k)\<lparr>ctag := t, timer := time s\<rparr>],
          res := (res s)\<lparr>evictions := evictions (res s) + 1\<rparr>, time := time s + 1\<rparr>)"
proof -
  let ?p = "int i * int E + int E - 1"
  let ?body = "\<lambda>l (least, idx). let t = int (timer (cache s ! nat (?p - l))) in if t < least then (t, l) else (least, idx)"
  have line: "nat (?p - l) = i * E + (E - 1 - nat l)" if "0 \<le> l" "l < int E" for l
  proof -
    have "?p - l = int (i * E + (E - 1 - nat l))" using that by (simp add: of_nat_diff)
    then show ?thesis by (simp only: nat_int)
  qed
  have "\<not> int (timer (cache s ! nat (?p - l))) < 999999" if "0 \<le> l" "l < int E" for l
    using assms(1) [of "E - 1 - nat l"] \<open>0 < E\<close> by (simp add: line [OF that])
  then have step: "0 \<le> l + 1 \<and> ?body l st = (999999, 0)" if "0 \<le> l \<and> st = (999999, 0)" "l < int E" for l st
    using that by (simp add: Let_def)
  have "(0 \<le> fst (for_up 0 (int E) 1 ?body (999999, 0)) \<and> snd (for_up 0 (int E) 1 ?body (999999, 0)) = (999999, 0))
    \<and> \<not> fst (for_up 0 (int E) 1 ?body (999999, 0)) < int E"
    by (rule for_up_rule [of "\<lambda>l st. 0 \<le> l \<and> st = (999999, 0)"]) (simp, simp, rule step)
  then have "WriteCache_search (cache s) ?p (int E) = (999999, 0)" by (simp add: WriteCache_search_def)
  moreover have "nat ?p = i * E + (E - 1)" using line [of 0] \<open>0 < E\<close> by simp
  ultimately show ?thesis by (simp add: WriteCache_def Let_def)
qed

lemma WriteCache_late_witness:
  "let l = \<lambda>n t. \<lparr>timer = n, ctag = t, valid = True\<rparr>;
       s = \<lparr>cache = [l 1000000 7, l 1000001 8], res = \<lparr>hits = 0, misses = 0, evictions = 0\<rparr>, time = 1000002\<rparr>
   in cache (WriteCache 9 2 1 s) = [l 1000000 7, l 1000002 9]"
proof -
  let ?s = "\<lparr>cache = [\<lparr>timer = 1000000, ctag = 7, valid = True\<rparr>, \<lparr>timer = 1000001, ctag = 8, valid = True\<rparr>],
    res = \<lparr>hits = 0, misses = 0, evictions = 0\<rparr>, time = 1000002\<rparr> :: csim"
  have "WriteCache 9 (int 2) (int 0 * int 2 + int 2 - 1) ?s =
    (let k = 0 * 2 + (2 - 1)
     in ?s\<lparr>cache := (cache ?s)[k := (cache ?s ! k)\<lparr>ctag := 9, timer := time ?s\<rparr>],
          res := (res ?s)\<lparr>evictions := evictions (res ?s) + 1\<rparr>, time := time ?s + 1\<rparr>)"
    by (rule WriteCache_late) (auto simp: less_Suc_eq numeral_2_eq_2)
  then show ?thesis by simp
qed

text \<open>\<open>InitCache\<close> leaves every line of a cache of \<open>n\<close> lines invalid, with tag and time stamp
  zero, whatever the memory held.\<close>

lemma InitCache_all: "InitCache c (int (length c)) = replicate (length c) InitCache_line"
proof -
  let ?n = "int (length c)" and ?body = "\<lambda>i c. c[nat i := InitCache_line]"
  let ?P = "\<lambda>i d. 0 \<le> i \<and> i \<le> ?n \<and> d = replicate (nat i) InitCache_line @ drop (nat i) c"
  have step: "?P (i + 1) (?body i d)" if "?P i d" "i < ?n" for i d
  proof -
    have *: "nat (i + 1) = Suc (nat i)" "nat i < length c" using that by auto
    then have "drop (nat i) c = c ! nat i # drop (Suc (nat i)) c" by (simp add: Cons_nth_drop_Suc)
    then show ?thesis using that * by (simp add: list_update_append replicate_append_same)
  qed
  have "?P (fst (for_up 0 ?n 1 ?body c)) (snd (for_up 0 ?n 1 ?body c)) \<and> \<not> fst (for_up 0 ?n 1 ?body c) < ?n"
    by (rule for_up_rule [of ?P]) (simp, simp, rule step)
  then have "fst (for_up 0 ?n 1 ?body c) = ?n" "InitCache c ?n = replicate (nat ?n) InitCache_line @ drop (nat ?n) c"
    by (auto simp: InitCache_def)
  then show ?thesis by simp
qed

end
