(* ===== verification/Transpose.thy ===== *)
theory Transpose
  imports Prelude
begin

text \<open>
  The transpose functions of \<open>cachelab/trans.c\<close>, the reference and the function table of
  \<open>cachelab/cachelab.c\<close>, and the run-and-validate loop of \<open>cachelab/tracegen.c\<close>.

  A parameter \<open>int A[N][M]\<close> is a pointer to memory in which \<open>A[i][j]\<close> is the cell \<open>i*M+j\<close>, so a
  matrix is the list of the cells behind its pointer and an index may leave its row, as in C.
  An access outside the list is the result \<open>None\<close>. The two matrices are different arrays.
\<close>

section \<open>Cells\<close>

type_synonym mem = "c_int list"

definition cell :: "mem \<Rightarrow> int \<Rightarrow> int \<Rightarrow> int \<Rightarrow> c_int option" where
  "cell A w i j = (let k = i * w + j in if 0 \<le> k \<and> k < int (length A) then Some (A ! nat k) else None)"

definition set_cell :: "mem \<Rightarrow> int \<Rightarrow> int \<Rightarrow> int \<Rightarrow> c_int \<Rightarrow> mem option" where
  "set_cell B w i j v =
     (let k = i * w + j in if 0 \<le> k \<and> k < int (length B) then Some (B[nat k := v]) else None)"

text \<open>\<open>tmp = A[i][j]; B[j][i] = tmp;\<close>\<close>

definition move :: "int \<Rightarrow> int \<Rightarrow> mem \<Rightarrow> int \<Rightarrow> int \<Rightarrow> mem option \<Rightarrow> mem option" where
  "move M N A i j s = Option.bind s (\<lambda>B. Option.bind (cell A M i j) (\<lambda>tmp. set_cell B N j i tmp))"

section \<open>trans.c and cachelab.c\<close>

definition correctTrans :: "int \<Rightarrow> int \<Rightarrow> mem \<Rightarrow> mem \<Rightarrow> mem option" where
  "correctTrans M N A B =
     snd (for_up 0 N 1 (\<lambda>i s. snd (for_up 0 M 1 (\<lambda>j. move M N A i j) s)) (Some B))"

definition trans :: "int \<Rightarrow> int \<Rightarrow> mem \<Rightarrow> mem \<Rightarrow> mem option" where
  "trans M N A B =
     snd (for_up 0 N 1 (\<lambda>i s. snd (for_up 0 M 1 (\<lambda>j. move M N A i j) s)) (Some B))"

definition transpose_submit :: "int \<Rightarrow> int \<Rightarrow> mem \<Rightarrow> mem \<Rightarrow> mem option" where
  "transpose_submit M N A B = trans M N A B"

definition OptimizeM32 :: "int \<Rightarrow> int \<Rightarrow> mem \<Rightarrow> mem \<Rightarrow> mem option" where
  "OptimizeM32 M N A B =
     snd (for_up 0 N 8 (\<lambda>iMov s. snd (for_up 0 M 8 (\<lambda>jMov s.
       snd (for_up 0 8 1 (\<lambda>iLocal s. snd (for_up 0 8 1 (\<lambda>jLocal.
         move M N A (iLocal + iMov) (jLocal + jMov)) s)) s)) s)) (Some B))"

text \<open>
  The body of \<open>iLocal\<close> in the two functions with a row buffer: \<open>b\<close> cells are read into \<open>tmp8\<close>,
  then written. \<open>b\<close> is at most 8, so the buffer is never left.
\<close>

definition row_read :: "int \<Rightarrow> int \<Rightarrow> mem \<Rightarrow> int \<Rightarrow> int \<Rightarrow> mem \<times> mem \<Rightarrow> (mem \<times> mem) option" where
  "row_read b M A i jMov = (\<lambda>(tmp8, B).
     map_option (\<lambda>t. (t, B))
       (snd (for_up 0 b 1 (\<lambda>jLocal s. Option.bind s (\<lambda>t.
          map_option (\<lambda>v. t[nat jLocal := v]) (cell A M i (jLocal + jMov)))) (Some tmp8))))"

definition row_write :: "int \<Rightarrow> int \<Rightarrow> int \<Rightarrow> int \<Rightarrow> mem \<times> mem \<Rightarrow> (mem \<times> mem) option" where
  "row_write b N i jMov = (\<lambda>(tmp8, B).
     map_option (Pair tmp8)
       (snd (for_up 0 b 1 (\<lambda>jLocal s. Option.bind s (\<lambda>B.
          set_cell B N (jLocal + jMov) i (tmp8 ! nat jLocal))) (Some B))))"

definition row_move ::
    "int \<Rightarrow> int \<Rightarrow> int \<Rightarrow> mem \<Rightarrow> int \<Rightarrow> int \<Rightarrow> (mem \<times> mem) option \<Rightarrow> (mem \<times> mem) option" where
  "row_move b M N A i jMov s = Option.bind s (\<lambda>st. Option.bind (row_read b M A i jMov st) (row_write b N i jMov))"

definition OptimizeM32_rowlocal :: "mem \<Rightarrow> int \<Rightarrow> int \<Rightarrow> mem \<Rightarrow> mem \<Rightarrow> mem option" where
  "OptimizeM32_rowlocal tmp8 M N A B =
     map_option snd (snd (for_up 0 N 8 (\<lambda>iMov s. snd (for_up 0 M 8 (\<lambda>jMov s.
       snd (for_up 0 8 1 (\<lambda>iLocal. row_move 8 M N A (iLocal + iMov) jMov) s)) s)) (Some (tmp8, B))))"

definition OptimizeM64 :: "mem \<Rightarrow> int \<Rightarrow> int \<Rightarrow> mem \<Rightarrow> mem \<Rightarrow> mem option" where
  "OptimizeM64 tmp8 M N A B =
     map_option snd (snd (for_up 0 N 4 (\<lambda>iMov s. snd (for_up 0 M 4 (\<lambda>jMov s.
       snd (for_up 0 4 1 (\<lambda>iLocal. row_move 4 M N A (iLocal + iMov) jMov) s)) s)) (Some (tmp8, B))))"

definition OptimizeM64_2 :: "int \<Rightarrow> int \<Rightarrow> mem \<Rightarrow> mem \<Rightarrow> mem option" where
  "OptimizeM64_2 M N A B = Some B"

text \<open>The result of \<open>is_transpose\<close>; the loop returns at the first difference.\<close>

definition is_transpose :: "int \<Rightarrow> int \<Rightarrow> mem \<Rightarrow> mem \<Rightarrow> c_int option" where
  "is_transpose M N A B =
     (case for_ret 0 N (\<lambda>i. for_ret 0 M (\<lambda>j.
         case (cell A M i j, cell B N j i) of
           (Some a, Some b) \<Rightarrow> if a \<noteq> b then Some (Some 0) else None
         | _ \<Rightarrow> Some None)) of
        Some r \<Rightarrow> r
      | None \<Rightarrow> Some 1)"

section \<open>The function table\<close>

record trans_func_t =
  func_ptr :: "int \<Rightarrow> int \<Rightarrow> mem \<Rightarrow> mem \<Rightarrow> mem option"
  description :: string
  correct :: int
  num_hits :: c_uint
  num_misses :: c_uint
  num_evictions :: c_uint

text \<open>The filled part of \<open>func_list\<close>; writing past its 100 entries is \<open>None\<close>.\<close>

definition MAX_TRANS_FUNCS :: nat where
  "MAX_TRANS_FUNCS = 100"

definition registerTransFunction ::
    "(int \<Rightarrow> int \<Rightarrow> mem \<Rightarrow> mem \<Rightarrow> mem option) \<Rightarrow> string \<Rightarrow> trans_func_t list \<Rightarrow> trans_func_t list option" where
  "registerTransFunction f desc fs =
     (if length fs < MAX_TRANS_FUNCS then
        Some (fs @ [\<lparr>func_ptr = f, description = desc, correct = 0, num_hits = 0, num_misses = 0, num_evictions = 0\<rparr>])
      else None)"

definition registerFunctions :: "mem \<Rightarrow> trans_func_t list \<Rightarrow> trans_func_t list option" where
  "registerFunctions tmp8 fs =
     Option.bind (registerTransFunction transpose_submit ''Transpose submission'' fs) (\<lambda>fs.
     Option.bind (registerTransFunction OptimizeM32 ''Optimize for M32N32'' fs) (\<lambda>fs.
     Option.bind (registerTransFunction (OptimizeM32_rowlocal tmp8) ''8x8 block'' fs) (\<lambda>fs.
     Option.bind (registerTransFunction (OptimizeM64 tmp8) ''4x4 block'' fs)
       (registerTransFunction OptimizeM64_2 ''4x8 block''))))"

section \<open>tracegen.c\<close>

definition validate :: "int \<Rightarrow> int \<Rightarrow> mem \<Rightarrow> mem \<Rightarrow> c_int option" where
  "validate M N A B =
     Option.bind (correctTrans M N A (replicate (nat (M * N)) 0)) (\<lambda>C.
       (case for_ret 0 M (\<lambda>i. for_ret 0 N (\<lambda>j.
           case (cell B N i j, cell C N i j) of
             (Some b, Some c) \<Rightarrow> if b \<noteq> c then Some (Some 0) else None
           | _ \<Rightarrow> Some None)) of
          Some r \<Rightarrow> r
        | None \<Rightarrow> Some 1))"

text \<open>
  The part of \<open>main\<close> after the options: the exit status and the memory of \<open>B\<close>, first for the run
  of all functions, then for one selected function.
\<close>

fun run_all :: "int \<Rightarrow> int \<Rightarrow> mem \<Rightarrow> int \<Rightarrow> trans_func_t list \<Rightarrow> mem \<Rightarrow> (int \<times> mem) option" where
  "run_all M N A i [] B = Some (0, B)"
| "run_all M N A i (f # fs) B =
     Option.bind (func_ptr f M N A B) (\<lambda>B.
       Option.bind (validate M N A B) (\<lambda>r.
         if r = 0 then Some (i + 1, B) else run_all M N A (i + 1) fs B))"

definition run_selected :: "int \<Rightarrow> int \<Rightarrow> mem \<Rightarrow> int \<Rightarrow> trans_func_t list \<Rightarrow> mem \<Rightarrow> (int \<times> mem) option" where
  "run_selected M N A sel fs B =
     (if 0 \<le> sel \<and> sel < int (length fs) then
        Option.bind (func_ptr (fs ! nat sel) M N A B) (\<lambda>B.
          Option.bind (validate M N A B) (\<lambda>r. Some (if r = 0 then sel + 1 else 0, B)))
      else None)"

definition tracegen_main :: "mem \<Rightarrow> int \<Rightarrow> int \<Rightarrow> int \<Rightarrow> mem \<Rightarrow> mem \<Rightarrow> (int \<times> mem) option" where
  "tracegen_main tmp8 selectedFunc M N A B =
     Option.bind (registerFunctions tmp8 []) (\<lambda>fs.
       if selectedFunc = - 1 then run_all M N A 0 fs B else run_selected M N A selectedFunc fs B)"

section \<open>Sequences of moves\<close>

text \<open>What a transpose function must leave in memory.\<close>

definition transposed :: "int \<Rightarrow> int \<Rightarrow> mem \<Rightarrow> mem \<Rightarrow> mem" where
  "transposed M N A B =
     map (\<lambda>k. if int k < M * N then A ! nat (int k mod N * M + int k div N) else B ! k) [0..<length B]"

definition fits :: "int \<Rightarrow> int \<Rightarrow> mem \<Rightarrow> mem \<Rightarrow> bool" where
  "fits M N A B \<longleftrightarrow> 0 \<le> M \<and> 0 \<le> N \<and> M * N \<le> int (length A) \<and> M * N \<le> int (length B)"

abbreviation in_range :: "int \<Rightarrow> int \<Rightarrow> int \<times> int \<Rightarrow> bool" where
  "in_range M N \<equiv> \<lambda>(i, j). 0 \<le> i \<and> i < N \<and> 0 \<le> j \<and> j < M"

lemma index_less: "0 \<le> i \<Longrightarrow> i < N \<Longrightarrow> 0 \<le> j \<Longrightarrow> j < M \<Longrightarrow> 0 \<le> i * M + j \<and> i * M + j < M * (N :: int)"
proof
  assume "0 \<le> i" "i < N" "0 \<le> j" "j < M"
  then have "(i + 1) * M \<le> N * M" by (intro mult_right_mono) auto
  with \<open>j < M\<close> show "i * M + j < M * N" by (simp add: algebra_simps)
qed simp

lemma cell_in_range:
  assumes "fits M N A B" "0 \<le> i" "i < N" "0 \<le> j" "j < M"
  shows "cell A M i j = Some (A ! nat (i * M + j))"
  using assms index_less [of i N j M] by (simp add: cell_def fits_def)

lemma set_cell_in_range:
  assumes "fits M N A B" "0 \<le> i" "i < N" "0 \<le> j" "j < M"
  shows "set_cell B N j i v = Some (B[nat (j * N + i) := v])"
  using assms index_less [of j M i N] by (simp add: set_cell_def fits_def mult.commute)

lemma fits_update [simp]: "fits M N A (B[k := v]) = fits M N A B"
  by (simp add: fits_def)

lemma flat_index:
  assumes "0 \<le> i" "i < N" "0 \<le> j"
  shows "int k = j * N + i \<longleftrightarrow> (int k mod N, int k div N) = (i, j :: int)"
  using assms by auto

lemma moves_eq:
  assumes "fits M N A B" and "\<And>p. p \<in> set ps \<Longrightarrow> in_range M N p"
  shows "fold (\<lambda>(i, j). move M N A i j) ps (Some B) =
    Some (map (\<lambda>k. if (int k mod N, int k div N) \<in> set ps
                 then A ! nat (int k mod N * M + int k div N) else B ! k) [0..<length B])"
  using assms
proof (induction ps arbitrary: B)
  case Nil
  then show ?case by (simp add: map_nth)
next
  case (Cons p ps)
  obtain i j where p: "p = (i, j)" by fastforce
  then have r: "0 \<le> i" "i < N" "0 \<le> j" "j < M" using Cons.prems(2) by auto
  let ?k = "nat (j * N + i)"
  have m: "move M N A i j (Some B) = Some (B[?k := A ! nat (i * M + j)])"
    using r Cons.prems(1) by (simp add: move_def cell_in_range set_cell_in_range)
  have k: "?k = k \<longleftrightarrow> (int k mod N, int k div N) = (i, j)" for k
    using flat_index [OF r(1,2,3), of k] index_less [of j M i N] r by auto
  have IH: "fold (\<lambda>(i, j). move M N A i j) ps (Some (B[?k := A ! nat (i * M + j)])) =
     Some (map (\<lambda>k. if (int k mod N, int k div N) \<in> set ps then A ! nat (int k mod N * M + int k div N)
       else B[?k := A ! nat (i * M + j)] ! k) [0..<length B])"
    using Cons.IH [of "B[?k := A ! nat (i * M + j)]"] Cons.prems by simp
  show ?case
    unfolding fold.simps comp_def p prod.case m IH
    by (auto simp: nth_list_update k)
qed

lemma div_less_iff:
  assumes "0 < (n :: int)"
  shows "x div n < m \<longleftrightarrow> x < m * n"
proof
  assume "x div n < m"
  then have "(x div n + 1) * n \<le> m * n" using assms by (intro mult_right_mono) auto
  moreover have "x < (x div n + 1) * n"
    using div_mult_mod_eq [of x n] pos_mod_bound [OF assms, of x]
    by (simp only: distrib_right mult_1)
  ultimately show "x < m * n" by simp
next
  assume x: "x < m * n"
  show "x div n < m"
  proof (rule ccontr)
    assume "\<not> x div n < m"
    then have "m * n \<le> x div n * n" using assms by (intro mult_right_mono) auto
    also have "\<dots> \<le> x" using div_mult_mod_eq [of x n] pos_mod_sign [OF assms, of x] by linarith
    finally show False using x by simp
  qed
qed

lemma moves_all:
  assumes "fits M N A B" and "set ps = {0..<N} \<times> {0..<M}"
  shows "fold (\<lambda>(i, j). move M N A i j) ps (Some B) = Some (transposed M N A B)"
proof -
  have "(int k mod N, int k div N) \<in> {0..<N} \<times> {0..<M} \<longleftrightarrow> int k < M * N" for k
  proof (cases "0 < N")
    case True
    have "int k div N < M \<longleftrightarrow> int k < M * N" using True by (simp add: div_less_iff)
    with True show ?thesis by (simp add: pos_imp_zdiv_nonneg_iff)
  next
    case False
    then show ?thesis using assms(1) by (auto simp: fits_def)
  qed
  then show ?thesis
    using moves_eq [OF assms(1), of ps] assms(2) by (auto simp: transposed_def)
qed

text \<open>Moves of a failed state fail.\<close>

lemma move_None [simp]: "move M N A i j None = None"
  by (simp add: move_def)

lemma row_move_None [simp]: "row_move b M N A i jMov None = None"
  by (simp add: row_move_def)

section \<open>The loops as sequences of moves\<close>

lemma correctTrans_moves:
  "correctTrans M N A B = fold (\<lambda>(i, j). move M N A i j)
     (concat (map (\<lambda>i. map (Pair i) (steps 0 M 1)) (steps 0 N 1))) (Some B)"
  by (simp add: correctTrans_def for_up_fold fold_concat_map)

lemma correctTrans_ok: "fits M N A B \<Longrightarrow> correctTrans M N A B = Some (transposed M N A B)"
  unfolding correctTrans_moves by (rule moves_all) auto

definition blocks :: "int \<Rightarrow> int \<Rightarrow> int \<Rightarrow> (int \<times> int) list" where
  "blocks b M N = concat (map (\<lambda>iMov. concat (map (\<lambda>jMov. concat (map (\<lambda>iLocal.
     map (\<lambda>jLocal. (iLocal + iMov, jLocal + jMov)) (steps 0 b 1)) (steps 0 b 1))) (steps 0 M b))) (steps 0 N b))"

lemma fold_concat: "fold f (concat xss) = fold (fold f) xss"
  by (induction xss) simp_all

lemma OptimizeM32_moves:
  "OptimizeM32 M N A B = fold (\<lambda>(i, j). move M N A i j) (blocks 8 M N) (Some B)"
  by (simp add: OptimizeM32_def for_up_fold blocks_def fold_concat fold_map comp_def)

lemma block_index:
  assumes "0 < b" "b dvd n" "0 \<le> (n :: int)"
  shows "0 \<le> i \<and> i < n \<longleftrightarrow> (\<exists>m l. 0 \<le> m \<and> m < n \<and> b dvd m \<and> 0 \<le> l \<and> l < b \<and> i = l + m)"
proof
  assume i: "0 \<le> i \<and> i < n"
  let ?m = "b * (i div b)"
  have "?m \<le> i" using i assms(1) by (metis minus_mod_eq_mult_div diff_le_eq le_add_same_cancel1 pos_mod_sign)
  then have "0 \<le> ?m \<and> ?m < n \<and> b dvd ?m \<and> 0 \<le> i mod b \<and> i mod b < b \<and> i = i mod b + ?m"
    using i assms(1) by (auto simp: pos_imp_zdiv_nonneg_iff)
  then show "\<exists>m l. 0 \<le> m \<and> m < n \<and> b dvd m \<and> 0 \<le> l \<and> l < b \<and> i = l + m" by blast
next
  assume "\<exists>m l. 0 \<le> m \<and> m < n \<and> b dvd m \<and> 0 \<le> l \<and> l < b \<and> i = l + m"
  then obtain m l where m: "0 \<le> m" "m < n" "b dvd m" "0 \<le> l" "l < b" "i = l + m" by blast
  have "b dvd (n - m)" using assms(2) m(3) by simp
  then have "b \<le> n - m" using m(2) by (intro zdvd_imp_le) auto
  with m show "0 \<le> i \<and> i < n" by auto
qed

lemma set_blocks:
  assumes "0 < b" "b dvd M" "b dvd N" "0 \<le> M" "0 \<le> N"
  shows "set (blocks b M N) = {0..<N} \<times> {0..<M}"
proof -
  let ?X = "\<lambda>n. {m. 0 \<le> m \<and> m < n \<and> b dvd m}"
  have "set (blocks b M N) = (\<Union>iMov \<in> ?X N. \<Union>jMov \<in> ?X M. \<Union>iLocal \<in> {0..<b}.
      (\<lambda>jLocal. (iLocal + iMov, jLocal + jMov)) ` {0..<b})"
    using assms(1) by (simp add: blocks_def set_steps)
  then have "(i, j) \<in> set (blocks b M N) \<longleftrightarrow>
    (\<exists>iMov \<in> ?X N. \<exists>jMov \<in> ?X M. \<exists>iLocal \<in> {0..<b}. \<exists>jLocal \<in> {0..<b}. i = iLocal + iMov \<and> j = jLocal + jMov)"
    for i j by (simp add: image_iff)
  then have "(i, j) \<in> set (blocks b M N) \<longleftrightarrow>
    (\<exists>m \<in> ?X N. \<exists>l \<in> {0..<b}. i = l + m) \<and> (\<exists>m \<in> ?X M. \<exists>l \<in> {0..<b}. j = l + m)" for i j
    by blast
  then have "(i, j) \<in> set (blocks b M N) \<longleftrightarrow>
    (\<exists>m l. 0 \<le> m \<and> m < N \<and> b dvd m \<and> 0 \<le> l \<and> l < b \<and> i = l + m) \<and>
    (\<exists>m l. 0 \<le> m \<and> m < M \<and> b dvd m \<and> 0 \<le> l \<and> l < b \<and> j = l + m)" for i j
    by (simp add: Bex_def conj_assoc)
  then have "(i, j) \<in> set (blocks b M N) \<longleftrightarrow> (0 \<le> i \<and> i < N) \<and> (0 \<le> j \<and> j < M)" for i j
    using block_index [OF assms(1,3,5)] block_index [OF assms(1,2,4)] by presburger
  then show ?thesis by auto
qed

text \<open>A row that goes through the buffer is a row of moves.\<close>

lemma row_read_eq:
  assumes "\<And>j. 0 \<le> j \<Longrightarrow> j < b \<Longrightarrow> cell A M i (j + jMov) = Some (v j)" and "0 \<le> b" "b \<le> int (length t)"
  shows "row_read b M A i jMov (t, B) = Some (map (\<lambda>k. if int k < b then v (int k) else t ! k) [0..<length t], B)"
proof -
  let ?body = "\<lambda>jLocal s. Option.bind s (\<lambda>t. map_option (\<lambda>v. t[nat jLocal := v]) (cell A M i (jLocal + jMov)))"
  let ?P = "\<lambda>j s. 0 \<le> j \<and> j \<le> b \<and> s = Some (map (\<lambda>k. if int k < j then v (int k) else t ! k) [0..<length t])"
  have step: "?P (j + 1) (?body j s)" if "?P j s" "j < b" for j s
  proof -
    have j: "0 \<le> j" "j < b" "cell A M i (j + jMov) = Some (v j)" using that assms by auto
    have "(map (\<lambda>k. if int k < j then v (int k) else t ! k) [0..<length t])[nat j := v j] =
      map (\<lambda>k. if int k < j + 1 then v (int k) else t ! k) [0..<length t]"
      using j assms(3) by (intro nth_equalityI) (auto simp: nth_list_update)
    with that j show ?thesis by simp
  qed
  have "?P (fst (for_up 0 b 1 ?body (Some t))) (snd (for_up 0 b 1 ?body (Some t))) \<and> \<not> fst (for_up 0 b 1 ?body (Some t)) < b"
    by (rule for_up_rule [of ?P]) (simp add: assms map_nth, simp, rule step)
  then show ?thesis by (auto simp: row_read_def)
qed

lemma row_move_eq:
  assumes "\<And>j. 0 \<le> j \<Longrightarrow> j < b \<Longrightarrow> cell A M i (j + jMov) \<noteq> None" and "0 \<le> b" "b \<le> int (length t)"
  shows "\<exists>t'. length t' = length t \<and> row_move b M N A i jMov (Some (t, B)) =
    map_option (Pair t') (fold (\<lambda>j. move M N A i (j + jMov)) (steps 0 b 1) (Some B))"
proof -
  let ?v = "\<lambda>j. the (cell A M i (j + jMov))"
  let ?t = "map (\<lambda>k. if int k < b then ?v (int k) else t ! k) [0..<length t]"
  have "row_read b M A i jMov (t, B) = Some (?t, B)"
    using assms by (intro row_read_eq) auto
  moreover have "fold (\<lambda>j s. Option.bind s (\<lambda>B. set_cell B N (j + jMov) i (?t ! nat j))) (steps 0 b 1) (Some B)
    = fold (\<lambda>j. move M N A i (j + jMov)) (steps 0 b 1) (Some B)"
  proof (rule fold_cong)
    fix j assume "j \<in> set (steps 0 b 1)"
    then have j: "0 \<le> j" "j < b" by auto
    then have "cell A M i (j + jMov) = Some (?t ! nat j)" using assms by auto
    then show "(\<lambda>s. Option.bind s (\<lambda>B. set_cell B N (j + jMov) i (?t ! nat j))) = move M N A i (j + jMov)"
      by (auto simp: move_def fun_eq_iff split: bind_split)
  qed auto
  ultimately have "row_move b M N A i jMov (Some (t, B)) =
    map_option (Pair ?t) (fold (\<lambda>j. move M N A i (j + jMov)) (steps 0 b 1) (Some B))"
    by (simp add: row_move_def row_write_def for_up_fold)
  then show ?thesis by (intro exI [of _ ?t]) simp
qed

definition rows :: "int \<Rightarrow> int \<Rightarrow> int \<Rightarrow> (int \<times> int) list" where
  "rows b M N = concat (map (\<lambda>iMov. concat (map (\<lambda>jMov. map (\<lambda>iLocal. (iLocal + iMov, jMov)) (steps 0 b 1))
     (steps 0 M b))) (steps 0 N b))"

lemma concat_concat: "concat (concat xss) = concat (map concat xss)"
  by (induction xss) simp_all

lemma blocks_rows: "blocks b M N = concat (map (\<lambda>(i, jMov). map (\<lambda>j. (i, j + jMov)) (steps 0 b 1)) (rows b M N))"
  by (simp add: blocks_def rows_def map_concat comp_def concat_concat)

lemma fold_row_moves:
  assumes "fits M N A B" and "0 \<le> b" "b \<le> int (length t)"
    and "\<And>i jMov. (i, jMov) \<in> set rs \<Longrightarrow> 0 \<le> i \<and> i < N \<and> 0 \<le> jMov \<and> jMov + b \<le> M"
  shows "map_option snd (fold (\<lambda>(i, jMov). row_move b M N A i jMov) rs (Some (t, B))) =
    fold (\<lambda>(i, j). move M N A i j) (concat (map (\<lambda>(i, jMov). map (\<lambda>j. (i, j + jMov)) (steps 0 b 1)) rs)) (Some B)"
  using assms
proof (induction rs arbitrary: t B)
  case (Cons r rs)
  obtain i jMov where r: "r = (i, jMov)" by fastforce
  then have ij: "0 \<le> i" "i < N" "0 \<le> jMov" "jMov + b \<le> M" using Cons.prems(4) by auto
  have c: "cell A M i (j + jMov) \<noteq> None" if "0 \<le> j" "j < b" for j
    using cell_in_range [OF Cons.prems(1), of i "j + jMov"] ij that by simp
  let ?row = "map (\<lambda>j. (i, j + jMov)) (steps 0 b 1)"
  obtain t' where t': "length t' = length t" "row_move b M N A i jMov (Some (t, B)) =
      map_option (Pair t') (fold (\<lambda>j. move M N A i (j + jMov)) (steps 0 b 1) (Some B))"
    using row_move_eq [OF c Cons.prems(2,3)] by blast
  have f: "fold (\<lambda>j. move M N A i (j + jMov)) (steps 0 b 1) (Some B) = fold (\<lambda>(i, j). move M N A i j) ?row (Some B)"
    by (simp add: fold_map comp_def)
  have "in_range M N p" if "p \<in> set ?row" for p using that ij by auto
  from moves_eq [OF Cons.prems(1) this]
  obtain B' where B': "fold (\<lambda>(i, j). move M N A i j) ?row (Some B) = Some B'" "length B' = length B"
    by (metis (no_types, lifting) length_map map_nth)
  have fits: "fits M N A B'" using Cons.prems(1) B'(2) by (simp add: fits_def)
  have IH: "map_option snd (fold (\<lambda>(i, jMov). row_move b M N A i jMov) rs (Some (t', B'))) =
    fold (\<lambda>(i, j). move M N A i j) (concat (map (\<lambda>(i, jMov). map (\<lambda>j. (i, j + jMov)) (steps 0 b 1)) rs)) (Some B')"
    using Cons.prems by (intro Cons.IH [OF fits]) (auto simp: t'(1))
  show ?case
    unfolding r fold.simps comp_def prod.case t'(2) f B'(1) option.map(2) IH
      list.map concat.simps fold_append by simp
qed simp

lemma rowlocal_ok:
  assumes "fits M N A B" "0 < b" "b dvd M" "b dvd N" "b \<le> int (length t)"
  shows "map_option snd (fold (\<lambda>(i, jMov). row_move b M N A i jMov) (rows b M N) (Some (t, B)))
    = Some (transposed M N A B)"
proof -
  have MN: "0 \<le> M" "0 \<le> N" using assms(1) by (auto simp: fits_def)
  have r: "0 \<le> i \<and> i < N \<and> 0 \<le> jMov \<and> jMov + b \<le> M" if h: "(i, jMov) \<in> set (rows b M N)" for i jMov
  proof -
    have "(i, j + jMov) \<in> set (blocks b M N)" if "0 \<le> j" "j < b" for j
      using h that by (force simp: blocks_rows)
    from this [of 0] this [of "b - 1"]
    have "(i, 0 + jMov) \<in> {0..<N} \<times> {0..<M}" "(i, (b - 1) + jMov) \<in> {0..<N} \<times> {0..<M}"
      unfolding set_blocks [OF assms(2,3,4) MN] using assms(2) by simp_all
    then show ?thesis by auto
  qed
  show ?thesis
    using fold_row_moves [OF assms(1) _ assms(5) r] assms(2)
      moves_all [OF assms(1) set_blocks [OF assms(2,3,4) MN]]
    by (simp add: blocks_rows)
qed

lemma OptimizeM32_rowlocal_rows: "OptimizeM32_rowlocal t M N A B =
    map_option snd (fold (\<lambda>(i, jMov). row_move 8 M N A i jMov) (rows 8 M N) (Some (t, B)))"
  by (simp add: OptimizeM32_rowlocal_def for_up_fold rows_def fold_concat fold_map comp_def)

lemma OptimizeM64_rows: "OptimizeM64 t M N A B =
    map_option snd (fold (\<lambda>(i, jMov). row_move 4 M N A i jMov) (rows 4 M N) (Some (t, B)))"
  by (simp add: OptimizeM64_def for_up_fold rows_def fold_concat fold_map comp_def)

section \<open>Checking a transpose\<close>

definition transpose_of :: "int \<Rightarrow> int \<Rightarrow> mem \<Rightarrow> mem \<Rightarrow> bool" where
  "transpose_of M N A B \<longleftrightarrow> (\<forall>i j. 0 \<le> i \<and> i < N \<and> 0 \<le> j \<and> j < M \<longrightarrow> A ! nat (i * M + j) = B ! nat (j * N + i))"

text \<open>A double loop that returns at the first pair that differs.\<close>

lemma compare_loops:
  assumes "\<And>i j. 0 \<le> i \<Longrightarrow> i < n \<Longrightarrow> 0 \<le> j \<Longrightarrow> j < m \<Longrightarrow> body i j = (if P i j then None else Some (Some (0 :: c_int)))"
  shows "(case for_ret 0 n (\<lambda>i. for_ret 0 m (body i)) of Some r \<Rightarrow> r | None \<Rightarrow> Some 1) =
    Some (c_bool (\<forall>i j. 0 \<le> i \<and> i < n \<and> 0 \<le> j \<and> j < m \<longrightarrow> P i j))"
proof (cases "for_ret 0 n (\<lambda>i. for_ret 0 m (body i))")
  case None
  then have "0 \<le> i \<and> i < n \<and> 0 \<le> j \<and> j < m \<Longrightarrow> body i j = None" for i j
    unfolding for_ret_None_iff by blast
  with assms have "0 \<le> i \<and> i < n \<and> 0 \<le> j \<and> j < m \<Longrightarrow> P i j" for i j
    by (metis option.distinct(1))
  with None show ?thesis by (simp add: c_bool_def)
next
  case (Some r)
  then obtain i where i: "0 \<le> i" "i < n" "for_ret 0 m (body i) = Some r" using for_ret_SomeD by metis
  then obtain j where j: "0 \<le> j" "j < m" "body i j = Some r" using for_ret_SomeD by metis
  with assms [OF i(1,2) j(1,2)] have "\<not> P i j" "r = Some 0" by (auto split: if_splits)
  with Some i j show ?thesis by (auto simp: c_bool_def)
qed

lemma is_transpose_eq:
  assumes "fits M N A B"
  shows "is_transpose M N A B = Some (c_bool (transpose_of M N A B))"
  unfolding is_transpose_def transpose_of_def
proof (rule compare_loops)
  fix i j assume ij: "0 \<le> i" "i < N" "0 \<le> j" "j < M"
  have B: "cell B N j i = Some (B ! nat (j * N + i))"
    using assms ij index_less [of j M i N] by (simp add: cell_def fits_def mult.commute)
  show "(case (cell A M i j, cell B N j i) of (Some a, Some b) \<Rightarrow> if a \<noteq> b then Some (Some 0) else None
      | _ \<Rightarrow> Some None) = (if A ! nat (i * M + j) = B ! nat (j * N + i) then None else Some (Some 0))"
    unfolding cell_in_range [OF assms ij] B by simp
qed

lemma transposed_nth:
  assumes "fits M N A B" "0 \<le> i" "i < N" "0 \<le> j" "j < M"
  shows "transposed M N A B ! nat (j * N + i) = A ! nat (i * M + j)"
proof -
  have k: "0 \<le> j * N + i" "j * N + i < M * N" using index_less [of j M i N] assms by (auto simp: mult.commute)
  then have "nat (j * N + i) < length B" using assms(1) by (auto simp: fits_def)
  moreover have "(j * N + i) mod N = i" "(j * N + i) div N = j" using assms by auto
  ultimately show ?thesis using k by (simp add: transposed_def)
qed

lemma transposed_transpose_of: "fits M N A B \<Longrightarrow> transpose_of M N A (transposed M N A B)"
  by (simp add: transpose_of_def transposed_nth)

lemma length_transposed [simp]: "length (transposed M N A B) = length B"
  by (simp add: transposed_def)

lemma validate_eq:
  assumes "fits M N A B"
  shows "validate M N A B = Some (c_bool (transpose_of M N A B))"
proof -
  let ?Z = "replicate (nat (M * N)) 0 :: mem"
  have Z: "fits M N A ?Z" using assms by (simp add: fits_def)
  have swap: "transpose_of M N A B \<longleftrightarrow>
    (\<forall>i j. 0 \<le> i \<and> i < M \<and> 0 \<le> j \<and> j < N \<longrightarrow> B ! nat (i * N + j) = transposed M N A ?Z ! nat (i * N + j))"
    using transposed_nth [OF Z] unfolding transpose_of_def by metis
  show ?thesis
    unfolding validate_def correctTrans_ok [OF Z] bind.bind_lunit swap
  proof (rule compare_loops)
    fix i j assume ij: "0 \<le> i" "i < M" "0 \<le> j" "j < N"
    have k: "0 \<le> i * N + j" "i * N + j < M * N" using index_less [of i M j N] ij by (auto simp: mult.commute)
    then have c: "cell B N i j = Some (B ! nat (i * N + j))"
      "cell (transposed M N A ?Z) N i j = Some (transposed M N A ?Z ! nat (i * N + j))"
      using assms by (simp_all add: cell_def fits_def)
    show "(case (cell B N i j, cell (transposed M N A ?Z) N i j) of (Some b, Some c) \<Rightarrow> if b \<noteq> c then Some (Some 0) else None
        | _ \<Rightarrow> Some None) = (if B ! nat (i * N + j) = transposed M N A ?Z ! nat (i * N + j) then None else Some (Some 0))"
      unfolding c by simp
  qed
qed

section \<open>Properties\<close>

lemma OptimizeM32_eq: "fits M N A B \<Longrightarrow> 8 dvd M \<Longrightarrow> 8 dvd N \<Longrightarrow> OptimizeM32 M N A B = Some (transposed M N A B)"
  unfolding OptimizeM32_moves by (rule moves_all) (auto simp: set_blocks fits_def)

lemma row_buffer_eq:
  assumes "fits M N A B" "length t = 8"
  shows "8 dvd M \<Longrightarrow> 8 dvd N \<Longrightarrow> OptimizeM32_rowlocal t M N A B = Some (transposed M N A B)"
    and "4 dvd M \<Longrightarrow> 4 dvd N \<Longrightarrow> OptimizeM64 t M N A B = Some (transposed M N A B)"
  unfolding OptimizeM32_rowlocal_rows OptimizeM64_rows
  by (rule rowlocal_ok, (use assms in auto)[5])+

lemma transpose_submit_eq: "fits M N A B \<Longrightarrow> transpose_submit M N A B = Some (transposed M N A B)"
  using correctTrans_ok by (simp add: transpose_submit_def trans_def correctTrans_def)

lemma fits_8: "length A = 64 \<Longrightarrow> length B = 64 \<Longrightarrow> fits 8 8 A B"
  by (simp add: fits_def)

text \<open>C15: The submitted function writes the transpose of \<open>A\<close> into \<open>B\<close> and leaves the memory behind it
  alone, for every size the arrays have room for.\<close>

theorem transpose_submit_ok:
  assumes "0 \<le> M" "0 \<le> N" "M * N \<le> int (length A)" "M * N \<le> int (length B)"
  shows "\<exists>B'. transpose_submit M N A B = Some B' \<and> length B' = length B \<and>
    (\<forall>i j. 0 \<le> i \<and> i < N \<and> 0 \<le> j \<and> j < M \<longrightarrow> B' ! nat (j * N + i) = A ! nat (i * M + j)) \<and>
    (\<forall>k < length B. M * N \<le> int k \<longrightarrow> B' ! k = B ! k)"
proof -
  have f: "fits M N A B" using assms by (simp add: fits_def)
  show ?thesis
    by (intro exI [of _ "transposed M N A B"])
      (use f in \<open>auto simp: transpose_submit_eq transposed_nth, auto simp: transposed_def\<close>)
qed

lemma transpose_submit_ok_witness:
  "\<exists>B'. transpose_submit 2 1 [5, 6] [0, 0, 9] = Some B' \<and> length B' = 3 \<and> B' ! 2 = 9"
  using transpose_submit_ok [of 2 1 "[5, 6]" "[0, 0, 9]"] by fastforce

text \<open>C13: The 8x8 blocked function computes what the reference computes whenever 8 divides both
  sizes: the four loops visit every cell exactly inside the matrices.\<close>

theorem OptimizeM32_ok:
  assumes "8 dvd M" "8 dvd N" "0 \<le> M" "0 \<le> N" "M * N \<le> int (length A)" "M * N \<le> int (length B)"
  shows "OptimizeM32 M N A B = correctTrans M N A B \<and> correctTrans M N A B \<noteq> None"
proof -
  have "fits M N A B" using assms by (simp add: fits_def)
  then show ?thesis
    using assms by (simp_all add: OptimizeM32_eq correctTrans_ok)
qed

lemma OptimizeM32_ok_witness:
  "OptimizeM32 8 8 (map of_nat [0..<64]) (replicate 64 0) = correctTrans 8 8 (map of_nat [0..<64]) (replicate 64 0)"
  by (rule OptimizeM32_ok [THEN conjunct1]) simp_all

text \<open>C14: The two functions that copy a row of a block through the eight cells of \<open>tmp8\<close> compute what
  the reference computes when the block size divides both sizes, whatever the buffer held.\<close>

theorem row_buffer_ok:
  assumes "b dvd M" "b dvd N" "0 \<le> M" "0 \<le> N" "M * N \<le> int (length A)" "M * N \<le> int (length B)" "length t = 8"
  shows "(b = 8 \<longrightarrow> OptimizeM32_rowlocal t M N A B = correctTrans M N A B) \<and>
    (b = 4 \<longrightarrow> OptimizeM64 t M N A B = correctTrans M N A B)"
proof -
  have "fits M N A B" using assms by (simp add: fits_def)
  then show ?thesis using assms by (auto simp: row_buffer_eq correctTrans_ok)
qed

lemma row_buffer_ok_witness:
  "OptimizeM64 (replicate 8 7) 8 4 (map of_nat [0..<32]) (replicate 32 0)
    = correctTrans 8 4 (map of_nat [0..<32]) (replicate 32 0)"
  using row_buffer_ok [of 4 8 4 "map of_nat [0..<32]" "replicate 32 0" "replicate 8 7"] by simp

text \<open>\<open>validate\<close> and \<open>is_transpose\<close> decide the same question, whether \<open>B\<close> is the transpose of \<open>A\<close>:
  they return 1 exactly when every cell agrees.\<close>

theorem validate_ok:
  assumes "0 \<le> M" "0 \<le> N" "M * N \<le> int (length A)" "M * N \<le> int (length B)"
  shows "validate M N A B = Some (c_bool (\<forall>i j. 0 \<le> i \<and> i < N \<and> 0 \<le> j \<and> j < M \<longrightarrow>
      A ! nat (i * M + j) = B ! nat (j * N + i))) \<and>
    is_transpose M N A B = validate M N A B"
proof -
  have "fits M N A B" using assms by (simp add: fits_def)
  then show ?thesis
    by (simp_all add: validate_eq is_transpose_eq transpose_of_def)
qed

lemma validate_ok_witness: "is_transpose 2 1 [5, 6] [5, 7] = validate 2 1 [5, 6] [5, 7]"
  by (rule validate_ok [THEN conjunct2]) simp_all

text \<open>The run of all registered functions on sizes divisible by 8 exits with status 0 although the
  last function writes nothing: \<open>B\<close> still holds the transpose the function before it wrote. Run
  alone, it exits with status 5 unless \<open>B\<close> was the transpose to start with.\<close>

theorem tracegen_main_all:
  assumes "8 dvd M" "8 dvd N" "0 \<le> M" "0 \<le> N" "M * N \<le> int (length A)" "M * N \<le> int (length B)" "length t = 8"
  shows "map_option fst (tracegen_main t (- 1) M N A B) = Some 0 \<and>
    tracegen_main t 4 M N A B =
      Some (if \<forall>i j. 0 \<le> i \<and> i < N \<and> 0 \<le> j \<and> j < M \<longrightarrow> A ! nat (i * M + j) = B ! nat (j * N + i)
            then 0 else 5, B)"
proof (intro conjI)
  have f: "fits M N A B" using assms by (simp add: fits_def)
  have d: "4 dvd M" "4 dvd N" using assms(1,2) by presburger+
  let ?T = "transposed M N A B"
  have fT: "fits M N A ?T" using f by (simp add: fits_def)
  have TT: "transposed M N A ?T = ?T" by (rule nth_equalityI) (simp_all add: transposed_def)
  note runs = transpose_submit_eq [OF f] OptimizeM32_eq [OF fT assms(1,2)]
    row_buffer_eq(1) [OF fT assms(7,1,2)] row_buffer_eq(2) [OF fT assms(7) d] TT
    validate_eq [OF fT] transposed_transpose_of [OF f]
  note regs = tracegen_main_def registerFunctions_def registerTransFunction_def MAX_TRANS_FUNCS_def
  show "map_option fst (tracegen_main t (- 1) M N A B) = Some 0"
    by (simp add: regs runs OptimizeM64_2_def)
  show "tracegen_main t 4 M N A B =
      Some (if \<forall>i j. 0 \<le> i \<and> i < N \<and> 0 \<le> j \<and> j < M \<longrightarrow> A ! nat (i * M + j) = B ! nat (j * N + i)
            then 0 else 5, B)"
    by (simp add: regs run_selected_def OptimizeM64_2_def validate_eq [OF f] transpose_of_def c_bool_def)
qed

lemma tracegen_main_all_witness:
  "map_option fst (tracegen_main (replicate 8 0) (- 1) 8 8 (map of_nat [0..<64]) (replicate 64 0)) = Some 0"
  by (rule tracegen_main_all [THEN conjunct1]) simp_all

text \<open>A ragged size: the 4x4 blocks of a 1x2 matrix in larger memory overwrite its cells.\<close>

lemma OptimizeM64_ragged:
  "map_option fst (tracegen_main (replicate 8 0) 3 2 1 [0, 1, 2, 3, 4, 5, 6, 7, 8, 9] (replicate 10 0)) = Some 4"
  by code_simp

end
