(* ===== verification/Boundary_Tags.thy ===== *)
theory Boundary_Tags
  imports Prelude
begin

text \<open>
  Heaps of blocks with boundary tags, for all the allocators of the repository: a block of \<open>n\<close>
  bytes whose payload starts at \<open>bp\<close> has the same tag, its size and its allocated bit, in the
  word before \<open>bp\<close> and in the last word of the block. The word size and the coding of tags are
  the parameters of the locale; every allocator interprets it with its own macros.
\<close>

type_synonym block = "int \<times> bool"

definition total :: "block list \<Rightarrow> int" where
  "total bs = sum_list (map fst bs)"

lemma total_simps [simp]:
  "total [] = 0" "total (b # bs) = fst b + total bs" "total (xs @ ys) = total xs + total ys"
  by (simp_all add: total_def)

text \<open>The words \<open>T\<close> hold the tags of the blocks \<open>bs\<close>, one after the other, from payload \<open>a\<close> on.\<close>

fun seg :: "int \<Rightarrow> (int \<Rightarrow> bool \<Rightarrow> 'w) \<Rightarrow> (int \<Rightarrow> 'w option) \<Rightarrow> int \<Rightarrow> block list \<Rightarrow> bool" where
  "seg W pack T a [] = True"
| "seg W pack T a (b # bs) =
     (T (a - W) = Some (pack (fst b) (snd b)) \<and> T (a + fst b - 2 * W) = Some (pack (fst b) (snd b)) \<and>
      seg W pack T (a + fst b) bs)"

lemma seg_append [simp]:
  "seg W pack T a (xs @ ys) \<longleftrightarrow> seg W pack T a xs \<and> seg W pack T (a + total xs) ys"
  by (induction xs arbitrary: a) (auto simp: add.assoc)

text \<open>Writing both tags of a block.\<close>

definition retag :: "int \<Rightarrow> (int \<Rightarrow> bool \<Rightarrow> 'w) \<Rightarrow> (int \<Rightarrow> 'w option) \<Rightarrow> int \<Rightarrow> int \<Rightarrow> bool \<Rightarrow> int \<Rightarrow> 'w option" where
  "retag W pack T bp n f = T(bp - W \<mapsto> pack n f, bp + n - 2 * W \<mapsto> pack n f)"

section \<open>Block lists\<close>

text \<open>No two free blocks are neighbours.\<close>

definition coalesced :: "block list \<Rightarrow> bool" where
  "coalesced bs \<longleftrightarrow> successively (\<lambda>b c. snd b \<or> snd c) bs"

lemma coalesced_append:
  "coalesced (xs @ ys) \<longleftrightarrow>
     coalesced xs \<and> coalesced ys \<and> (xs \<noteq> [] \<and> ys \<noteq> [] \<longrightarrow> snd (last xs) \<or> snd (hd ys))"
  by (auto simp: coalesced_def successively_append_iff)

lemma coalesced_simps [simp]:
  "coalesced []" "coalesced [b]" "coalesced (b # c # bs) \<longleftrightarrow> (snd b \<or> snd c) \<and> coalesced (c # bs)"
  by (simp_all add: coalesced_def)

text \<open>First fit: the first free block of at least \<open>n\<close> bytes, with the blocks around it.\<close>

fun first_fit :: "int \<Rightarrow> block list \<Rightarrow> (block list \<times> int \<times> block list) option" where
  "first_fit n [] = None"
| "first_fit n (b # bs) =
     (if \<not> snd b \<and> n \<le> fst b then Some ([], fst b, bs)
      else map_option (\<lambda>(xs, m, ys). (b # xs, m, ys)) (first_fit n bs))"

lemma first_fit_Some:
  "first_fit n bs = Some (xs, m, ys) \<Longrightarrow> bs = xs @ (m, False) # ys \<and> n \<le> m"
  by (induction bs arbitrary: xs) (auto split: if_splits simp: prod_eq_iff)

lemma first_fit_None: "first_fit n bs = None \<longleftrightarrow> (\<forall>b \<in> set bs. \<not> snd b \<longrightarrow> fst b < n)"
  by (induction bs) (auto split: prod.splits)

text \<open>Placing \<open>n\<close> bytes in a free block of \<open>m\<close>: the rest stays a free block.\<close>

definition placed :: "int \<Rightarrow> int \<Rightarrow> block list" where
  "placed n m = (n, True) # (if n < m then [(m - n, False)] else [])"

lemma total_placed [simp]: "n \<le> m \<Longrightarrow> total (placed n m) = m"
  by (simp add: placed_def)

text \<open>Joining a free block with its free neighbours.\<close>

definition joined :: "block list \<Rightarrow> int \<Rightarrow> block list \<Rightarrow> block list" where
  "joined xs n ys =
     (let (xs, n) = (if xs \<noteq> [] \<and> \<not> snd (last xs) then (butlast xs, fst (last xs) + n) else (xs, n));
          (n, ys) = (if ys \<noteq> [] \<and> \<not> snd (hd ys) then (n + fst (hd ys), tl ys) else (n, ys))
      in xs @ (n, False) # ys)"

lemma total_joined: "total (joined xs n ys) = total xs + n + total ys"
  by (cases xs rule: rev_cases; cases ys) (auto simp: joined_def)

lemma joined_cases:
  obtains (keep) "joined xs n ys = xs @ (n, False) # ys" "xs \<noteq> [] \<Longrightarrow> snd (last xs)" "ys \<noteq> [] \<Longrightarrow> snd (hd ys)"
  | (next_free) m ys' where "ys = (m, False) # ys'" "joined xs n ys = xs @ (n + m, False) # ys'" "xs \<noteq> [] \<Longrightarrow> snd (last xs)"
  | (prev_free) m xs' where "xs = xs' @ [(m, False)]" "joined xs n ys = xs' @ (m + n, False) # ys" "ys \<noteq> [] \<Longrightarrow> snd (hd ys)"
  | (both) m xs' k ys' where "xs = xs' @ [(m, False)]" "ys = (k, False) # ys'" "joined xs n ys = xs' @ (m + n + k, False) # ys'"
proof (cases "xs \<noteq> [] \<and> \<not> snd (last xs)")
  case True
  then obtain m xs' where x: "xs = xs' @ [(m, False)]" by (cases xs rule: rev_cases) (auto simp: prod_eq_iff)
  show thesis
  proof (cases "ys \<noteq> [] \<and> \<not> snd (hd ys)")
    case True
    then obtain k ys' where "ys = (k, False) # ys'" by (cases ys) (auto simp: prod_eq_iff)
    then show thesis using x by (intro both) (auto simp: joined_def)
  next
    case False
    then show thesis using x by (intro prev_free) (auto simp: joined_def)
  qed
next
  case False
  show thesis
  proof (cases "ys \<noteq> [] \<and> \<not> snd (hd ys)")
    case True
    then obtain k ys' where "ys = (k, False) # ys'" by (cases ys) (auto simp: prod_eq_iff)
    then show thesis using False by (intro next_free) (auto simp: joined_def)
  next
    case F2: False
    then show thesis using False by (intro keep) (auto simp: joined_def)
  qed
qed

lemma coalesced_joined:
  assumes "coalesced xs" "coalesced ys"
  shows "coalesced (joined xs n ys)"
  by (rule joined_cases [of xs n ys]; use assms in \<open>auto simp: coalesced_append\<close>)
    (auto simp: coalesced_def successively_Cons)

lemma coalesced_placed:
  assumes "coalesced (xs @ (m, False) # ys)"
  shows "coalesced (xs @ placed n m @ ys)"
  using assms by (cases ys) (auto simp: placed_def coalesced_append)

section \<open>Reading and writing tags\<close>

locale boundary_tags =
  fixes W :: int and pack :: "int \<Rightarrow> bool \<Rightarrow> 'w" and tag_size :: "'w \<Rightarrow> int" and tag_alloc :: "'w \<Rightarrow> bool"
    and ok_size :: "int \<Rightarrow> bool"
  assumes W_pos: "0 < W"
    and tag_size_pack: "ok_size n \<Longrightarrow> tag_size (pack n f) = n"
    and tag_alloc_pack: "ok_size n \<Longrightarrow> tag_alloc (pack n f) = f"
    and ok_size_min: "ok_size n \<Longrightarrow> 2 * W \<le> n"
begin

definition ok_blocks :: "block list \<Rightarrow> bool" where
  "ok_blocks bs \<longleftrightarrow> (\<forall>b \<in> set bs. ok_size (fst b))"

lemma ok_blocks_simps [simp]:
  "ok_blocks []" "ok_blocks (b # bs) \<longleftrightarrow> ok_size (fst b) \<and> ok_blocks bs"
  "ok_blocks (xs @ ys) \<longleftrightarrow> ok_blocks xs \<and> ok_blocks ys"
  by (auto simp: ok_blocks_def)

lemma total_nonneg: "ok_blocks bs \<Longrightarrow> 0 \<le> total bs"
proof (induction bs)
  case (Cons b bs)
  then show ?case using ok_size_min [of "fst b"] W_pos by simp
qed simp

text \<open>Tags outside the segment do not matter.\<close>

lemma seg_cong:
  assumes "ok_blocks bs" and "\<And>q. a - W \<le> q \<Longrightarrow> q < a + total bs - W \<Longrightarrow> T' q = T q"
  shows "seg W pack T' a bs = seg W pack T a bs"
  using assms
proof (induction bs arbitrary: a)
  case (Cons b bs)
  have n: "2 * W \<le> fst b" "0 \<le> total bs" using ok_size_min total_nonneg Cons.prems(1) by auto
  have "seg W pack T' (a + fst b) bs = seg W pack T (a + fst b) bs"
    by (rule Cons.IH) (use Cons.prems n W_pos in \<open>auto simp: algebra_simps\<close>)
  moreover have "T' (a - W) = T (a - W)" "T' (a + fst b - 2 * W) = T (a + fst b - 2 * W)"
    by (rule Cons.prems(2); use n W_pos in simp)+
  ultimately show ?case by simp
qed simp

text \<open>
  The step of every operation: new tags for the middle of the heap, which keeps its length and
  whose surroundings keep their words.
\<close>

lemma seg_replace:
  assumes s: "seg W pack T a (xs @ mid @ ys)" and ok: "ok_blocks xs" "ok_blocks mid" "ok_blocks ys"
    and t: "total mid' = total mid" and mid: "seg W pack T' (a + total xs) mid'"
    and same: "\<And>q. q < a + total xs - W \<or> a + total xs + total mid - W \<le> q \<Longrightarrow> T' q = T q"
  shows "seg W pack T' a (xs @ mid' @ ys)"
proof -
  have "seg W pack T' a xs = seg W pack T a xs"
    by (rule seg_cong) (use ok same in auto)
  moreover have "seg W pack T' (a + total xs + total mid) ys = seg W pack T (a + total xs + total mid) ys"
    by (rule seg_cong) (use ok same in auto)
  ultimately show ?thesis using s mid t by (simp add: add.assoc)
qed

text \<open>A new block in place of adjacent ones, and two in place of one.\<close>

lemma seg_retag:
  assumes s: "seg W pack T a (xs @ mid @ ys)" and ok: "ok_blocks xs" "ok_blocks mid" "ok_blocks ys" "ok_size (total mid)"
  shows "seg W pack (retag W pack T (a + total xs) (total mid) f) a (xs @ [(total mid, f)] @ ys)"
proof (rule seg_replace [OF s ok(1-3)])
  have "2 * W \<le> total mid" by (rule ok_size_min [OF ok(4)])
  then show "retag W pack T (a + total xs) (total mid) f q = T q"
    if "q < a + total xs - W \<or> a + total xs + total mid - W \<le> q" for q
    using that W_pos by (auto simp: retag_def)
qed (auto simp: retag_def)

lemma seg_retag_split:
  assumes s: "seg W pack T a (xs @ (n + r, g) # ys)" and ok: "ok_blocks xs" "ok_blocks ys" "ok_size (n + r)" "ok_size n" "ok_size r"
  shows "seg W pack (retag W pack (retag W pack T (a + total xs) n f) (a + total xs + n) r f') a (xs @ [(n, f), (r, f')] @ ys)"
proof (rule seg_replace [of T a xs "[(n + r, g)]"])
  have m: "2 * W \<le> n" "2 * W \<le> r" using ok ok_size_min by auto
  then show "retag W pack (retag W pack T (a + total xs) n f) (a + total xs + n) r f' q = T q"
    if "q < a + total xs - W \<or> a + total xs + total [(n + r, g)] - W \<le> q" for q
    using that W_pos by (auto simp: retag_def)
  show "seg W pack (retag W pack (retag W pack T (a + total xs) n f) (a + total xs + n) r f') (a + total xs) [(n, f), (r, f')]"
    using m W_pos by (auto simp: retag_def)
qed (use assms in auto)

text \<open>What the macros read at a block, and at its neighbours.\<close>

lemma seg_block:
  assumes "seg W pack T a (xs @ (n, f) # ys)" and "bp = a + total xs" and "ok_size n"
  shows "T (bp - W) = Some (pack n f)" "T (bp + n - 2 * W) = Some (pack n f)"
    "tag_size (pack n f) = n" "tag_alloc (pack n f) = f"
  using assms by (auto simp: tag_size_pack tag_alloc_pack)

lemma seg_prev:
  assumes "seg W pack T a (xs @ [(m, g)] @ ys)" and "bp = a + total xs + m" and "ok_size m"
  shows "T (bp - 2 * W) = Some (pack m g)" "T (bp - m - W) = Some (pack m g)"
    "tag_size (pack m g) = m" "tag_alloc (pack m g) = g"
  using assms by (auto simp: tag_size_pack tag_alloc_pack algebra_simps)

end

end
