(* ===== verification/Malloc_Lab.thy ===== *)
theory Malloc_Lab
  imports Boundary_Tags "HOL-Library.Monad_Syntax"
begin

text \<open>
  The allocator of \<open>malloc/malloclab\<close>: the simulated heap of \<open>memlib.c\<close>, the macros of
  \<open>macro.h\<close> and the operations of \<open>mm.c\<close>.

  The \<open>Makefile\<close> builds it with \<open>-m32\<close>: \<open>size_t\<close> and pointers have 32 bits. Addresses and sizes are
  integers; values of type \<open>size_t\<close> wrap modulo \<open>2^32\<close> and are written so where they can, and so is
  the new break that \<open>mem_sbrk\<close> compares. The allocator reads and writes aligned 32-bit words of the
  heap only, so memory is a function from the addresses of words to words. A read or write that is
  unaligned or outside the heap is the result \<open>None\<close>, and so are \<open>exit\<close> and an overlapping
  \<open>memcpy\<close>. A null pointer is 0.
\<close>

section \<open>memlib.c\<close>

text \<open>The static variables of \<open>memlib.c\<close> and \<open>mm.c\<close>, and the memory.\<close>

record heap =
  words :: "int \<Rightarrow> c_uint"
  mem_start_brk :: int
  mem_brk :: int
  mem_max_addr :: int
  heap_listp :: int
  start_brk :: int
  final_brk :: int

definition MAX_HEAP :: int where
  "MAX_HEAP = 20 * 2 ^ 20"

text \<open>\<open>p\<close> is what \<open>malloc\<close> returned.\<close>

definition mem_init :: "int \<Rightarrow> heap \<Rightarrow> heap option" where
  "mem_init p h = (if p = 0 then None
     else Some (h\<lparr>mem_start_brk := p, mem_max_addr := p + MAX_HEAP, mem_brk := p\<rparr>))"

definition mem_reset_brk :: "heap \<Rightarrow> heap" where
  "mem_reset_brk h = h\<lparr>mem_brk := mem_start_brk h\<rparr>"

definition mem_sbrk :: "int \<Rightarrow> heap \<Rightarrow> int \<times> heap" where
  "mem_sbrk incr h =
     (if incr < 0 \<or> mem_max_addr h < (mem_brk h + incr) mod 2 ^ 32 then (- 1, h)
      else (mem_brk h, h\<lparr>mem_brk := (mem_brk h + incr) mod 2 ^ 32\<rparr>))"

definition mem_heap_lo :: "heap \<Rightarrow> int" where
  "mem_heap_lo h = mem_start_brk h"

definition mem_heap_hi :: "heap \<Rightarrow> int" where
  "mem_heap_hi h = mem_brk h - 1"

definition mem_heapsize :: "heap \<Rightarrow> int" where
  "mem_heapsize h = mem_brk h - mem_start_brk h"

section \<open>macro.h\<close>

definition WSIZE :: int where "WSIZE = 4"
definition DSIZE :: int where "DSIZE = 8"
definition CHUNKSIZE :: int where "CHUNKSIZE = 2 ^ 12"

definition PACK :: "int \<Rightarrow> bool \<Rightarrow> c_uint" where
  "PACK sz alloc = word_of_int sz OR (if alloc then 1 else 0)"

definition in_heap :: "heap \<Rightarrow> int \<Rightarrow> bool" where
  "in_heap h p \<longleftrightarrow> 4 dvd p \<and> mem_start_brk h \<le> p \<and> p + 4 \<le> mem_brk h"

definition GET :: "heap \<Rightarrow> int \<Rightarrow> c_uint option" where
  "GET h p = (if in_heap h p then Some (words h p) else None)"

definition PUT :: "heap \<Rightarrow> int \<Rightarrow> c_uint \<Rightarrow> heap option" where
  "PUT h p val = (if in_heap h p then Some (h\<lparr>words := (words h)(p := val)\<rparr>) else None)"

definition tag_size :: "c_uint \<Rightarrow> int" where
  "tag_size w = uint (w AND NOT 0x7)"

definition tag_alloc :: "c_uint \<Rightarrow> bool" where
  "tag_alloc w \<longleftrightarrow> w AND 0x1 \<noteq> 0"

definition GET_SIZE :: "heap \<Rightarrow> int \<Rightarrow> int option" where
  "GET_SIZE h p = map_option tag_size (GET h p)"

definition IS_ALLOC :: "heap \<Rightarrow> int \<Rightarrow> bool option" where
  "IS_ALLOC h p = map_option tag_alloc (GET h p)"

definition HDRP :: "int \<Rightarrow> int" where
  "HDRP bp = bp - WSIZE"

definition FTRP :: "heap \<Rightarrow> int \<Rightarrow> int option" where
  "FTRP h bp = do { n \<leftarrow> GET_SIZE h (HDRP bp); Some (bp + n - DSIZE) }"

definition NEXT_BLKP :: "heap \<Rightarrow> int \<Rightarrow> int option" where
  "NEXT_BLKP h bp = do { n \<leftarrow> GET_SIZE h (HDRP bp); Some (bp + n) }"

definition PREV_BLKP :: "heap \<Rightarrow> int \<Rightarrow> int option" where
  "PREV_BLKP h bp = do { n \<leftarrow> GET_SIZE h (bp - DSIZE); Some (bp - n) }"

section \<open>mm.c\<close>

text \<open>\<open>DSIZE*(((size+DSIZE)+DSIZE-1)/DSIZE)\<close> in \<open>size_t\<close>.\<close>

definition AGNSIZE :: "int \<Rightarrow> int" where
  "AGNSIZE sz = DSIZE * ((sz + DSIZE + DSIZE - 1) mod 2 ^ 32 div DSIZE)"

definition coalesce :: "int \<Rightarrow> heap \<Rightarrow> (int \<times> heap) option" where
  "coalesce bp h = (if bp = 0 then Some (bp, h) else do {
     size \<leftarrow> GET_SIZE h (HDRP bp);
     nxt \<leftarrow> NEXT_BLKP h bp;
     next_alloc \<leftarrow> IS_ALLOC h (HDRP nxt);
     prv \<leftarrow> PREV_BLKP h bp;
     prev_alloc \<leftarrow> IS_ALLOC h (HDRP prv);
     if prev_alloc \<and> next_alloc then Some (bp, h)
     else if prev_alloc \<and> \<not> next_alloc then do {
       nxt \<leftarrow> NEXT_BLKP h bp;
       n \<leftarrow> GET_SIZE h (HDRP nxt);
       let size = (size + n) mod 2 ^ 32;
       h \<leftarrow> PUT h (HDRP bp) (PACK size False);
       ftr \<leftarrow> FTRP h bp;
       h \<leftarrow> PUT h ftr (PACK size False);
       Some (bp, h)
     } else if \<not> prev_alloc \<and> next_alloc then do {
       prv \<leftarrow> PREV_BLKP h bp;
       ftr \<leftarrow> FTRP h prv;
       n \<leftarrow> GET_SIZE h ftr;
       let size = (size + n) mod 2 ^ 32;
       prv \<leftarrow> PREV_BLKP h bp;
       h \<leftarrow> PUT h (HDRP prv) (PACK size False);
       ftr \<leftarrow> FTRP h bp;
       h \<leftarrow> PUT h ftr (PACK size False);
       bp \<leftarrow> PREV_BLKP h bp;
       Some (bp, h)
     } else do {
       prv \<leftarrow> PREV_BLKP h bp;
       prev_size \<leftarrow> GET_SIZE h (HDRP prv);
       nxt \<leftarrow> NEXT_BLKP h bp;
       next_size \<leftarrow> GET_SIZE h (HDRP nxt);
       let size = (size + (prev_size + next_size)) mod 2 ^ 32;
       prv \<leftarrow> PREV_BLKP h bp;
       h \<leftarrow> PUT h (HDRP prv) (PACK size False);
       prv \<leftarrow> PREV_BLKP h bp;
       ftr \<leftarrow> FTRP h prv;
       h \<leftarrow> PUT h ftr (PACK size False);
       bp \<leftarrow> PREV_BLKP h bp;
       Some (bp, h)
     }
   })"

text \<open>\<open>extend_heap\<close> returns null when \<open>mem_sbrk\<close> fails.\<close>

definition extend_heap :: "int \<Rightarrow> heap \<Rightarrow> (int \<times> heap) option" where
  "extend_heap ws h =
     (let size = (if ws mod 2 \<noteq> 0 then (ws + 1) * WSIZE else ws * WSIZE) mod 2 ^ 32;
          (bp, h) = mem_sbrk (to_int size) h
      in if bp = - 1 then Some (0, h)
         else do {
           let h = h\<lparr>final_brk := bp + size\<rparr>;
           h \<leftarrow> PUT h (HDRP bp) (PACK size False);
           ftr \<leftarrow> FTRP h bp;
           h \<leftarrow> PUT h ftr (PACK size False);
           nxt \<leftarrow> NEXT_BLKP h bp;
           h \<leftarrow> PUT h (HDRP nxt) (PACK 0 True);
           coalesce bp h
         })"

text \<open>The first-fit loop; a walk that never meets a size of zero does not return.\<close>

partial_function (option) find_fit_loop :: "heap \<Rightarrow> int \<Rightarrow> int \<Rightarrow> int option" where
  "find_fit_loop h asize walkHeapPtr = do {
     size \<leftarrow> GET_SIZE h (HDRP walkHeapPtr);
     if size \<noteq> 0 then do {
       alloc \<leftarrow> IS_ALLOC h (HDRP walkHeapPtr);
       if \<not> alloc \<and> asize \<le> size then Some walkHeapPtr
       else do { nxt \<leftarrow> NEXT_BLKP h walkHeapPtr; find_fit_loop h asize nxt }
     } else Some 0
   }"

definition find_fit :: "int \<Rightarrow> heap \<Rightarrow> int option" where
  "find_fit asize h = do { p \<leftarrow> NEXT_BLKP h (heap_listp h); find_fit_loop h asize p }"

definition place :: "int \<Rightarrow> int \<Rightarrow> heap \<Rightarrow> heap option" where
  "place bp asize h = do {
     allocable_size \<leftarrow> GET_SIZE h (HDRP bp);
     let remain_size = (allocable_size - asize) mod 2 ^ 32;
     h \<leftarrow> PUT h (HDRP bp) (PACK asize True);
     ftr \<leftarrow> FTRP h bp;
     h \<leftarrow> PUT h ftr (PACK asize True);
     if 2 * DSIZE \<le> remain_size then do {
       nxt \<leftarrow> NEXT_BLKP h bp;
       h \<leftarrow> PUT h (HDRP nxt) (PACK remain_size False);
       nxt \<leftarrow> NEXT_BLKP h bp;
       ftr \<leftarrow> FTRP h nxt;
       PUT h ftr (PACK remain_size False)
     } else if odd (remain_size div WSIZE) then None
     else if remain_size = DSIZE then do {
       nxt \<leftarrow> NEXT_BLKP h bp;
       h \<leftarrow> PUT h (HDRP nxt) (PACK DSIZE False);
       nxt \<leftarrow> NEXT_BLKP h bp;
       ftr \<leftarrow> FTRP h nxt;
       PUT h ftr (PACK DSIZE False)
     } else Some h
   }"

definition mm_init :: "heap \<Rightarrow> (int \<times> heap) option" where
  "mm_init h =
     (let (p, h) = mem_sbrk (to_int (4 * WSIZE)) h; h = h\<lparr>heap_listp := p\<rparr>
      in if p = - 1 then Some (- 1, h)
         else do {
           h \<leftarrow> PUT h (heap_listp h) 0;
           h \<leftarrow> PUT h (heap_listp h + 1 * WSIZE) (PACK DSIZE True);
           h \<leftarrow> PUT h (heap_listp h + 2 * WSIZE) (PACK DSIZE True);
           h \<leftarrow> PUT h (heap_listp h + 3 * WSIZE) (PACK 0 True);
           let h = h\<lparr>start_brk := heap_listp h\<rparr>;
           let h = h\<lparr>heap_listp := heap_listp h + 2 * WSIZE\<rparr>;
           (bp, h) \<leftarrow> extend_heap (CHUNKSIZE div WSIZE) h;
           Some (if bp = 0 then - 1 else 0, h)
         })"

definition adjusted :: "int \<Rightarrow> int" where
  "adjusted sz = (if sz \<le> DSIZE then 2 * DSIZE else AGNSIZE sz)"

definition mm_malloc :: "int \<Rightarrow> heap \<Rightarrow> (int \<times> heap) option" where
  "mm_malloc sz h =
     (if sz = 0 then Some (0, h)
      else do {
        let asize = adjusted sz;
        bp \<leftarrow> find_fit asize h;
        if bp \<noteq> 0 then do { h \<leftarrow> place bp asize h; Some (bp, h) }
        else do {
          let extendsize = (if CHUNKSIZE < asize then asize else CHUNKSIZE);
          (bp, h) \<leftarrow> extend_heap (extendsize div WSIZE) h;
          if bp = 0 then Some (0, h)
          else do { h \<leftarrow> place bp asize h; Some (bp, h) }
        }
      })"

definition mm_free :: "int \<Rightarrow> heap \<Rightarrow> heap option" where
  "mm_free bp h =
     (if bp = 0 then Some h
      else do {
        size \<leftarrow> GET_SIZE h (HDRP bp);
        h \<leftarrow> PUT h (HDRP bp) (PACK size False);
        ftr \<leftarrow> FTRP h bp;
        h \<leftarrow> PUT h ftr (PACK size False);
        (_, h) \<leftarrow> coalesce bp h;
        Some h
      })"

text \<open>
  \<open>memcpy\<close> of a whole number of words between aligned pointers, from the first word on;
  regions that overlap are undefined.
\<close>

fun copy_words :: "nat \<Rightarrow> int \<Rightarrow> int \<Rightarrow> heap \<Rightarrow> heap option" where
  "copy_words 0 d s h = Some h"
| "copy_words (Suc k) d s h = do {
     w \<leftarrow> GET h s;
     h \<leftarrow> PUT h d w;
     copy_words k (d + 4) (s + 4) h
   }"

definition memcpy :: "int \<Rightarrow> int \<Rightarrow> int \<Rightarrow> heap \<Rightarrow> heap option" where
  "memcpy d s n h =
     (if d < s + n \<and> s < d + n then None else copy_words (nat (n div 4)) d s h)"

text \<open>The branches of \<open>mm_realloc\<close> after \<open>mm_malloc\<close> has failed.\<close>

definition mm_realloc_in_place :: "int \<Rightarrow> int \<Rightarrow> int \<Rightarrow> int \<Rightarrow> heap \<Rightarrow> (int \<times> heap) option" where
  "mm_realloc_in_place oldptr asize old_size copy_size h =
     (if old_size < asize then do {
        nxt \<leftarrow> NEXT_BLKP h oldptr;
        next_alloc \<leftarrow> IS_ALLOC h nxt;
        prv \<leftarrow> PREV_BLKP h oldptr;
        prev_alloc \<leftarrow> IS_ALLOC h prv;
        if next_alloc \<and> prev_alloc then Some (0, h)
        else do {
          next_fits \<leftarrow> (if next_alloc then Some False
            else do { n \<leftarrow> GET_SIZE h (HDRP nxt); Some (asize \<le> (n + old_size) mod 2 ^ 32) });
          if next_fits then do {
            next_size \<leftarrow> GET_SIZE h (HDRP nxt);
            let remain_size = (next_size + old_size - asize) mod 2 ^ 32;
            h \<leftarrow> PUT h (HDRP oldptr) (PACK asize True);
            ftr \<leftarrow> FTRP h oldptr;
            h \<leftarrow> PUT h ftr (PACK asize True);
            if DSIZE \<le> remain_size then do {
              nxt \<leftarrow> NEXT_BLKP h oldptr;
              h \<leftarrow> PUT h (HDRP nxt) (PACK remain_size False);
              nxt \<leftarrow> NEXT_BLKP h oldptr;
              ftr \<leftarrow> FTRP h nxt;
              h \<leftarrow> PUT h ftr (PACK remain_size False);
              nxt \<leftarrow> NEXT_BLKP h oldptr;
              (_, h) \<leftarrow> coalesce nxt h;
              Some (oldptr, h)
            } else None
          } else do {
            prev_fits \<leftarrow> (if prev_alloc then Some False
              else do { n \<leftarrow> GET_SIZE h (HDRP prv); Some (asize \<le> (n + old_size) mod 2 ^ 32) });
            if prev_fits then do {
              prev_size \<leftarrow> GET_SIZE h (HDRP prv);
              let remain_size = (prev_size + old_size - asize) mod 2 ^ 32;
              let prev_bp = prv;
              h \<leftarrow> PUT h (HDRP prev_bp) (PACK asize True);
              ftr \<leftarrow> FTRP h prev_bp;
              h \<leftarrow> PUT h ftr (PACK asize True);
              if DSIZE \<le> remain_size then do {
                nxt \<leftarrow> NEXT_BLKP h prev_bp;
                h \<leftarrow> PUT h (HDRP nxt) (PACK remain_size False);
                nxt \<leftarrow> NEXT_BLKP h prev_bp;
                ftr \<leftarrow> FTRP h nxt;
                h \<leftarrow> PUT h ftr (PACK remain_size False);
                nxt \<leftarrow> NEXT_BLKP h prev_bp;
                (_, h) \<leftarrow> coalesce nxt h;
                h \<leftarrow> memcpy prev_bp oldptr ((copy_size - DSIZE) mod 2 ^ 32) h;
                Some (prev_bp, h)
              } else None
            } else Some (0, h)
          }
        }
      } else if asize < old_size then do {
        h \<leftarrow> PUT h (HDRP oldptr) (PACK asize True);
        ftr \<leftarrow> FTRP h oldptr;
        h \<leftarrow> PUT h ftr (PACK asize True);
        nxt \<leftarrow> NEXT_BLKP h oldptr;
        h \<leftarrow> PUT h (HDRP nxt) (PACK (old_size - asize) False);
        nxt \<leftarrow> NEXT_BLKP h oldptr;
        ftr \<leftarrow> FTRP h nxt;
        h \<leftarrow> PUT h ftr (PACK (old_size - asize) False);
        nxt \<leftarrow> NEXT_BLKP h oldptr;
        (_, h) \<leftarrow> coalesce nxt h;
        Some (oldptr, h)
      } else Some (0, h))"

definition mm_realloc :: "int \<Rightarrow> int \<Rightarrow> heap \<Rightarrow> (int \<times> heap) option" where
  "mm_realloc ptr sz h =
     (if ptr = 0 then mm_malloc sz h
      else if sz = 0 then do { h \<leftarrow> mm_free ptr h; Some (0, h) }
      else do {
        let asize = adjusted sz;
        old_size \<leftarrow> GET_SIZE h (HDRP ptr);
        if asize = old_size then Some (ptr, h)
        else do {
          let copy_size = (if asize < old_size then asize else old_size);
          (newptr, h) \<leftarrow> mm_malloc sz h;
          if newptr = 0 then mm_realloc_in_place ptr asize old_size copy_size h
          else do {
            h \<leftarrow> memcpy newptr ptr ((copy_size - DSIZE) mod 2 ^ 32) h;
            h \<leftarrow> mm_free ptr h;
            Some (newptr, h)
          }
        }
      })"

section \<open>Tags and words\<close>

definition ok_size :: "int \<Rightarrow> bool" where
  "ok_size n \<longleftrightarrow> 8 dvd n \<and> 8 \<le> n \<and> n < 2 ^ 32"

lemma bit_7: "bit (7 :: c_uint) i \<longleftrightarrow> i < 3"
proof -
  have "(7 :: c_uint) = mask 3" by (simp add: mask_eq_exp_minus_1)
  then show ?thesis by (simp only: bit_mask_iff) auto
qed

lemma PACK_shift: "8 dvd n \<Longrightarrow> PACK n f = push_bit 3 (word_of_int (n div 8)) OR (if f then 1 else 0)"
proof -
  assume "8 dvd n"
  then have "n = n div 8 * 8" by simp
  then have "(word_of_int n :: c_uint) = word_of_int (n div 8) * 8" by (metis of_int_mult of_int_numeral)
  then show ?thesis by (simp add: PACK_def push_bit_eq_mult)
qed

lemma tag_size_PACK: "8 dvd n \<Longrightarrow> 0 \<le> n \<Longrightarrow> n < 2 ^ 32 \<Longrightarrow> tag_size (PACK n f) = n"
proof -
  assume n: "8 dvd n" "0 \<le> n" "n < 2 ^ 32"
  have "PACK n f AND NOT 7 = push_bit 3 (word_of_int (n div 8))"
    unfolding PACK_shift [OF n(1)]
    by (rule bit_word_eqI, cases f)
      (auto simp only: bit_and_iff bit_or_iff bit_not_iff bit_7 bit_push_bit_iff bit_1_iff if_True if_False bit_0_eq bot_fun_def bot_bool_def)
  also have "\<dots> = word_of_int n" using n by (auto simp: push_bit_eq_mult)
  finally show ?thesis unfolding tag_size_def using n by (simp add: uint_word_of_int)
qed

lemma tag_alloc_PACK: "8 dvd n \<Longrightarrow> tag_alloc (PACK n f) = f"
proof -
  assume n: "8 dvd n"
  have "PACK n f AND 1 = (if f then 1 else 0)"
    unfolding PACK_shift [OF n]
    by (rule bit_word_eqI) (auto simp: bit_and_iff bit_or_iff bit_push_bit_iff bit_1_iff split: if_splits)
  then show ?thesis by (simp add: tag_alloc_def)
qed

interpretation mm: boundary_tags 4 PACK tag_size tag_alloc ok_size
  by unfold_locales (auto simp: ok_size_def tag_size_PACK tag_alloc_PACK)

definition put :: "heap \<Rightarrow> int \<Rightarrow> c_uint \<Rightarrow> heap" where
  "put h p w = h\<lparr>words := (words h)(p := w)\<rparr>"

lemma PUT_eq: "in_heap h p \<Longrightarrow> PUT h p w = Some (put h p w)"
  by (simp add: PUT_def put_def)

lemma put_fields [simp]:
  "mem_start_brk (put h p w) = mem_start_brk h" "mem_brk (put h p w) = mem_brk h"
  "mem_max_addr (put h p w) = mem_max_addr h" "heap_listp (put h p w) = heap_listp h"
  "start_brk (put h p w) = start_brk h" "final_brk (put h p w) = final_brk h"
  by (simp_all add: put_def)

lemma in_heap_put [simp]: "in_heap (put h p w) q = in_heap h q"
  by (simp add: in_heap_def)

lemma GET_put: "in_heap h p \<Longrightarrow> GET (put h p w) q = (if q = p then Some w else GET h q)"
  by (auto simp: GET_def) (auto simp: put_def)

lemma GET_in_heap: "GET h p = Some w \<Longrightarrow> in_heap h p"
  by (simp add: GET_def split: if_splits)

lemmas macros = HDRP_def FTRP_def NEXT_BLKP_def PREV_BLKP_def GET_SIZE_def IS_ALLOC_def WSIZE_def DSIZE_def

section \<open>coalesce\<close>

text \<open>The words \<open>coalesce\<close> looks at: the block, the block before it and the tag after it.\<close>

definition around :: "heap \<Rightarrow> int \<Rightarrow> int \<times> bool \<Rightarrow> int \<Rightarrow> int \<times> bool \<Rightarrow> bool" where
  "around h bp p n q \<longleftrightarrow>
     ok_size n \<and> ok_size (fst p) \<and> (q = (0, True) \<or> ok_size (fst q)) \<and> bp \<noteq> 0 \<and>
     GET h (bp - 4) = Some (PACK n False) \<and> GET h (bp + n - 8) = Some (PACK n False) \<and>
     GET h (bp - 8) = Some (PACK (fst p) (snd p)) \<and> GET h (bp - fst p - 4) = Some (PACK (fst p) (snd p)) \<and>
     GET h (bp + n - 4) = Some (PACK (fst q) (snd q)) \<and>
     (\<not> snd q \<longrightarrow> GET h (bp + n + fst q - 8) = Some (PACK (fst q) (snd q)))"

lemma aroundD:
  assumes "around h bp (p, pf) n (q, qf)"
  shows "tag_size (PACK n f) = n" "tag_size (PACK p f) = p" "tag_size (PACK q f) = q"
    "tag_alloc (PACK n f) = f" "tag_alloc (PACK p f) = f" "tag_alloc (PACK q f) = f" "bp \<noteq> 0"
    "8 \<le> n" "8 \<le> p" "0 \<le> q" "\<not> qf \<Longrightarrow> 8 \<le> q" "n < 2 ^ 32" "p < 2 ^ 32" "q < 2 ^ 32"
    "8 dvd n" "8 dvd p" "8 dvd q"
    "GET h (bp - 4) = Some (PACK n False)" "GET h (bp + n - 8) = Some (PACK n False)"
    "GET h (bp - 8) = Some (PACK p pf)" "GET h (bp - p - 4) = Some (PACK p pf)"
    "GET h (bp + n - 4) = Some (PACK q qf)" "\<not> qf \<Longrightarrow> GET h (bp + n + q - 8) = Some (PACK q qf)"
  using assms by (auto simp: around_def ok_size_def tag_size_PACK tag_alloc_PACK)

lemma coalesce_keep:
  assumes "around h bp (p, True) n (q, True)"
  shows "coalesce bp h = Some (bp, h)"
  using aroundD [OF assms]
  by (simp add: coalesce_def macros algebra_simps)

lemma coalesce_next:
  assumes a: "around h bp (p, True) n (q, False)" and s: "n + q < 2 ^ 32"
  shows "coalesce bp h = Some (bp, put (put h (bp - 4) (PACK (n + q) False)) (bp + (n + q) - 8) (PACK (n + q) False))"
proof -
  note d = aroundD [OF a]
  have m: "(n + q) mod 4294967296 = n + q" using d(8,10) s by simp
  have t: "tag_size (PACK (n + q) False) = n + q"
    by (rule tag_size_PACK) (use d(8,10,15,17) s in auto)
  have i: "in_heap h (bp - 4)" "in_heap h (bp + (n + q) - 8)"
    using d(18,23) by (auto dest: GET_in_heap simp: algebra_simps)
  show ?thesis using d s i
    by (simp add: coalesce_def macros PUT_eq GET_put t m Let_def algebra_simps)
qed

lemma coalesce_prev:
  assumes a: "around h bp (p, False) n (q, True)" and s: "p + n < 2 ^ 32"
  shows "coalesce bp h = Some (bp - p,
     put (put h (bp - p - 4) (PACK (p + n) False)) (bp + n - 8) (PACK (p + n) False))"
proof -
  note d = aroundD [OF a]
  have i: "in_heap h (bp - p - 4)" "in_heap h (bp + n - 8)"
    using d(19,21) by (auto dest: GET_in_heap simp: algebra_simps)
  show ?thesis using d s i
    by (simp add: coalesce_def macros PUT_eq GET_put Let_def algebra_simps)
qed

lemma coalesce_both:
  assumes a: "around h bp (p, False) n (q, False)" and s: "p + n + q < 2 ^ 32"
  shows "coalesce bp h = Some (bp - p,
     put (put h (bp - p - 4) (PACK (p + n + q) False)) (bp + n + q - 8) (PACK (p + n + q) False))"
proof -
  note d = aroundD [OF a]
  have t: "tag_size (PACK (p + n + q) False) = p + n + q"
    by (rule tag_size_PACK) (use d s in auto)
  have i: "in_heap h (bp - p - 4)" "in_heap h (bp + n + q - 8)"
    using d(21,23) by (auto dest: GET_in_heap simp: algebra_simps)
  show ?thesis using d s i t
    by (simp add: coalesce_def macros PUT_eq GET_put Let_def algebra_simps)
qed

section \<open>The heap as a list of blocks\<close>

text \<open>
  The blocks include the prologue, which is the first one; \<open>heap_listp\<close> is its payload address.
  The heap ends with the epilogue tag.
\<close>

definition heap_inv :: "heap \<Rightarrow> block list \<Rightarrow> bool" where
  "heap_inv h bs \<longleftrightarrow>
     8 dvd mem_start_brk h \<and> 0 < mem_start_brk h \<and> heap_listp h = mem_start_brk h + 8 \<and>
     mem_brk h \<le> mem_max_addr h \<and> mem_max_addr h - mem_start_brk h \<le> 2 ^ 30 \<and>
     bs \<noteq> [] \<and> hd bs = (8, True) \<and> mm.ok_blocks bs \<and> mem_brk h = heap_listp h + total bs \<and>
     seg 4 PACK (GET h) (heap_listp h) bs \<and> GET h (mem_brk h - 4) = Some (PACK 0 True)"

text \<open>A step that may change the words of the region of payload addresses \<open>lo\<close> to \<open>hi\<close> only.\<close>

definition changes :: "heap \<Rightarrow> heap \<Rightarrow> int \<Rightarrow> int \<Rightarrow> bool" where
  "changes h h' lo hi \<longleftrightarrow>
     mem_start_brk h' = mem_start_brk h \<and> mem_brk h' = mem_brk h \<and> mem_max_addr h' = mem_max_addr h \<and>
     heap_listp h' = heap_listp h \<and> (\<forall>q. q < lo - 4 \<or> hi - 4 \<le> q \<longrightarrow> GET h' q = GET h q)"

lemma changes_refl: "changes h h lo hi"
  by (simp add: changes_def)

lemma changes_trans:
  "changes h h1 lo hi \<Longrightarrow> changes h1 h2 lo' hi' \<Longrightarrow> lo2 \<le> lo \<Longrightarrow> lo2 \<le> lo' \<Longrightarrow> hi \<le> hi2 \<Longrightarrow> hi' \<le> hi2 \<Longrightarrow>
   changes h h2 lo2 hi2"
  by (auto simp: changes_def)

lemma changes_put:
  "in_heap h p \<Longrightarrow> lo - 4 \<le> p \<Longrightarrow> p < hi - 4 \<Longrightarrow> changes h (put h p w) lo hi"
  by (auto simp: changes_def GET_put)

lemma heap_inv_D:
  assumes "heap_inv h (xs @ (n, f) # ys)"
  shows "ok_size n" "n < 2 ^ 30" "total xs + n + total ys \<le> 2 ^ 30" "0 \<le> total xs" "0 \<le> total ys"
    "mm.ok_blocks xs" "mm.ok_blocks ys" "0 < heap_listp h" "8 dvd heap_listp h"
    "GET h (heap_listp h + total xs - 4) = Some (PACK n f)"
    "GET h (heap_listp h + total xs + n - 8) = Some (PACK n f)"
proof -
  have ok: "mm.ok_blocks xs" "ok_size n" "mm.ok_blocks ys" using assms by (auto simp: heap_inv_def)
  have t: "0 \<le> total xs" "0 \<le> total ys" using mm.total_nonneg ok by auto
  have m: "mem_brk h = heap_listp h + (total xs + (n + total ys))" "heap_listp h = mem_start_brk h + 8"
    "mem_brk h \<le> mem_max_addr h" "mem_max_addr h - mem_start_brk h \<le> 2 ^ 30" "0 < mem_start_brk h"
    "8 dvd mem_start_brk h"
    using assms by (auto simp: heap_inv_def)
  show "ok_size n" "mm.ok_blocks xs" "mm.ok_blocks ys" "0 \<le> total xs" "0 \<le> total ys" using ok t by auto
  show "n < 2 ^ 30" "total xs + n + total ys \<le> 2 ^ 30" using m t by linarith+
  show "0 < heap_listp h" "8 dvd heap_listp h" using m by auto
  show "GET h (heap_listp h + total xs - 4) = Some (PACK n f)"
    "GET h (heap_listp h + total xs + n - 8) = Some (PACK n f)"
    using assms by (auto simp: heap_inv_def)
qed

text \<open>Replacing the middle of the heap.\<close>

lemma heap_inv_replace:
  assumes inv: "heap_inv h (xs @ mid @ ys)" and "xs \<noteq> []" and c: "changes h h' lo hi"
    and r: "lo = heap_listp h + total xs" "hi = lo + total mid"
    and t: "total mid' = total mid" and ok: "mm.ok_blocks mid'"
    and s: "seg 4 PACK (GET h') lo mid'"
  shows "heap_inv h' (xs @ mid' @ ys)"
proof -
  have ok': "mm.ok_blocks xs" "mm.ok_blocks mid" "mm.ok_blocks ys" using inv by (auto simp: heap_inv_def)
  have same: "q < heap_listp h + total xs - 4 \<or> heap_listp h + total xs + total mid - 4 \<le> q \<Longrightarrow> GET h' q = GET h q" for q
    using c r by (auto simp: changes_def)
  have "seg 4 PACK (GET h') (heap_listp h) (xs @ mid' @ ys)"
    by (rule mm.seg_replace [OF _ ok' t _ same]) (use inv s r in \<open>auto simp: heap_inv_def\<close>)
  moreover have "GET h' (mem_brk h - 4) = GET h (mem_brk h - 4)"
    by (rule same) (use inv mm.total_nonneg [OF ok'(3)] in \<open>auto simp: heap_inv_def\<close>)
  ultimately show ?thesis
    using inv c t ok ok' \<open>xs \<noteq> []\<close> by (auto simp: heap_inv_def changes_def)
qed

lemma heap_inv_around:
  assumes "heap_inv h (xs @ (n, False) # ys)" and "xs \<noteq> []"
  shows "around h (heap_listp h + total xs) (last xs) n (if ys = [] then (0, True) else hd ys)"
proof -
  note d = heap_inv_D [OF assms(1)]
  obtain p f xs' where x: "xs = xs' @ [(p, f)]" using assms(2) by (cases xs rule: rev_cases) auto
  have p: "ok_size p" using d(6) by (simp add: x)
  have "heap_inv h (xs' @ (p, f) # (n, False) # ys)" using assms(1) by (simp add: x)
  note dp = heap_inv_D [OF this]
  have q: "GET h (heap_listp h + total xs + n - 4) = Some (PACK (fst q) (snd q)) \<and> (q = (0, True) \<or> ok_size (fst q)) \<and>
     (\<not> snd q \<longrightarrow> GET h (heap_listp h + total xs + n + fst q - 8) = Some (PACK (fst q) (snd q)))"
    if "q = (if ys = [] then (0, True) else hd ys)" for q
  proof (cases ys)
    case Nil
    then show ?thesis using assms(1) that by (auto simp: heap_inv_def algebra_simps)
  next
    case (Cons b ys')
    then have "heap_inv h ((xs @ [(n, False)]) @ (fst b, snd b) # ys')" using assms(1) by simp
    from heap_inv_D [OF this] show ?thesis using that Cons by (auto simp: algebra_simps)
  qed
  show ?thesis
    using d dp p q [OF refl] by (auto simp: around_def x algebra_simps)
qed

text \<open>\<open>coalesce\<close> joins a free block with its free neighbours.\<close>

lemma coalesce_joined:
  assumes inv: "heap_inv h (xs @ (n, False) # ys)" and ne: "xs \<noteq> []"
  defines "bp \<equiv> heap_listp h + total xs"
  shows "\<exists>bp' h' xs' m ys'. coalesce bp h = Some (bp', h') \<and> joined xs n ys = xs' @ (m, False) # ys' \<and> xs' \<noteq> [] \<and>
     bp' = heap_listp h + total xs' \<and> heap_inv h' (joined xs n ys) \<and> changes h h' bp' (bp' + m) \<and>
     bp' \<le> bp \<and> bp + n \<le> bp' + m"
proof -
  note a = heap_inv_around [OF inv ne, folded bp_def]
  note d = heap_inv_D [OF inv]
  show ?thesis
  proof (rule joined_cases [of xs n ys])
    assume j: "joined xs n ys = xs @ (n, False) # ys" "xs \<noteq> [] \<Longrightarrow> snd (last xs)" "ys \<noteq> [] \<Longrightarrow> snd (hd ys)"
    have "coalesce bp h = Some (bp, h)"
      using a j(2,3) ne by (cases "last xs"; cases "if ys = [] then (0, True) else hd ys")
        (auto intro!: coalesce_keep split: if_splits)
    then show ?thesis using inv j(1) ne
      by (intro exI [of _ bp] exI [of _ h] exI [of _ xs] exI [of _ n] exI [of _ ys]) (auto simp: bp_def changes_refl)
  next
    fix m ys' assume j: "ys = (m, False) # ys'" "joined xs n ys = xs @ (n + m, False) # ys'" "xs \<noteq> [] \<Longrightarrow> snd (last xs)"
    obtain p where p: "last xs = (p, True)" using j(3) ne by (cases "last xs") auto
    have m: "ok_size m" "0 \<le> total ys'" using d(7) j(1) mm.total_nonneg by auto
    have s: "n + m < 2 ^ 32" using d(3,4) m j(1) by simp
    have a': "around h bp (p, True) n (m, False)" using a by (simp add: p j(1))
    note da = aroundD [OF a']
    let ?h = "put (put h (bp - 4) (PACK (n + m) False)) (bp + (n + m) - 8) (PACK (n + m) False)"
    have i: "in_heap h (bp - 4)" "in_heap h (bp + (n + m) - 8)"
      using da(18,23) by (auto dest: GET_in_heap simp: algebra_simps)
    have c: "changes h ?h bp (bp + (n + m))"
      by (rule changes_trans [OF changes_put changes_put]) (use i da in auto)
    have "heap_inv ?h (xs @ [(n + m, False)] @ ys')"
      by (rule heap_inv_replace [OF _ ne c, of "[(n, False), (m, False)]"])
        (use inv j da s i in \<open>auto simp: bp_def ok_size_def GET_put\<close>)
    then show ?thesis using coalesce_next [OF a' s] j ne c da
      by (intro exI [of _ bp] exI [of _ ?h] exI [of _ xs] exI [of _ "n + m"] exI [of _ ys']) (auto simp: bp_def)
  next
    fix p xs' assume j: "xs = xs' @ [(p, False)]" "joined xs n ys = xs' @ (p + n, False) # ys" "ys \<noteq> [] \<Longrightarrow> snd (hd ys)"
    have ne': "xs' \<noteq> []" using inv j(1) by (auto simp: heap_inv_def)
    obtain q where q: "(if ys = [] then (0, True) else hd ys) = (q, True)"
      using j(3) by (cases ys) auto
    have a': "around h bp (p, False) n (q, True)" using a q by (simp add: j(1))
    note da = aroundD [OF a']
    have t: "0 \<le> total xs'" using d(6) mm.total_nonneg j(1) by auto
    have s: "p + n < 2 ^ 32" using d(3,5) j(1) t by simp
    let ?h = "put (put h (bp - p - 4) (PACK (p + n) False)) (bp + n - 8) (PACK (p + n) False)"
    have i: "in_heap h (bp - p - 4)" "in_heap h (bp + n - 8)"
      using da(19,21) by (auto dest: GET_in_heap)
    have c: "changes h ?h (bp - p) (bp - p + (p + n))"
      by (rule changes_trans [OF changes_put changes_put]) (use i da in auto)
    have "heap_inv ?h (xs' @ [(p + n, False)] @ ys)"
      by (rule heap_inv_replace [OF _ ne' c, of "[(p, False), (n, False)]"])
        (use inv j da s i in \<open>auto simp: bp_def ok_size_def GET_put\<close>)
    then show ?thesis using coalesce_prev [OF a' s] j ne' c da
      by (intro exI [of _ "bp - p"] exI [of _ ?h] exI [of _ xs'] exI [of _ "p + n"] exI [of _ ys]) (auto simp: bp_def)
  next
    fix p xs' m ys' assume j: "xs = xs' @ [(p, False)]" "ys = (m, False) # ys'" "joined xs n ys = xs' @ (p + n + m, False) # ys'"
    have ne': "xs' \<noteq> []" using inv j(1) by (auto simp: heap_inv_def)
    have a': "around h bp (p, False) n (m, False)" using a by (simp add: j)
    note da = aroundD [OF a']
    have t: "0 \<le> total xs'" "0 \<le> total ys'" using d(6,7) mm.total_nonneg j by auto
    have s: "p + n + m < 2 ^ 32" using d(3) j t by simp
    let ?h = "put (put h (bp - p - 4) (PACK (p + n + m) False)) (bp + n + m - 8) (PACK (p + n + m) False)"
    have i: "in_heap h (bp - p - 4)" "in_heap h (bp + n + m - 8)"
      using da(21,23) by (auto dest: GET_in_heap)
    have c: "changes h ?h (bp - p) (bp - p + (p + n + m))"
      by (rule changes_trans [OF changes_put changes_put]) (use i da in auto)
    have "heap_inv ?h (xs' @ [(p + n + m, False)] @ ys')"
      by (rule heap_inv_replace [OF _ ne' c, of "[(p, False), (n, False), (m, False)]"])
        (use inv j da s i in \<open>auto simp: bp_def ok_size_def GET_put\<close>)
    then show ?thesis using coalesce_both [OF a' s] j ne' c da
      by (intro exI [of _ "bp - p"] exI [of _ ?h] exI [of _ xs'] exI [of _ "p + n + m"] exI [of _ ys']) (auto simp: bp_def)
  qed
qed

section \<open>find_fit\<close>

lemma find_fit_loop_first_fit:
  "heap_inv h (xs @ ys) \<Longrightarrow> xs \<noteq> [] \<Longrightarrow> find_fit_loop h asize (heap_listp h + total xs) =
     Some (case first_fit asize ys of None \<Rightarrow> 0 | Some (zs, _) \<Rightarrow> heap_listp h + total (xs @ zs))"
proof (induction ys arbitrary: xs)
  case Nil
  have "GET h (heap_listp h + total xs - 4) = Some (PACK 0 True)" using Nil(1) by (auto simp: heap_inv_def)
  then show ?case
    by (subst find_fit_loop.simps) (simp add: macros tag_size_PACK)
next
  case (Cons b ys)
  obtain n f where b: "b = (n, f)" by fastforce
  have inv: "heap_inv h (xs @ (n, f) # ys)" using Cons.prems(1) b by simp
  note d = heap_inv_D [OF inv]
  have t: "tag_size (PACK n f) = n" "tag_alloc (PACK n f) = f" "n \<noteq> 0"
    using d(1) by (auto simp: ok_size_def tag_size_PACK tag_alloc_PACK)
  have IH: "find_fit_loop h asize (heap_listp h + total xs + n) =
     Some (case first_fit asize ys of None \<Rightarrow> 0 | Some (zs, _) \<Rightarrow> heap_listp h + total ((xs @ [(n, f)]) @ zs))"
    using Cons.IH [of "xs @ [(n, f)]"] inv by (simp add: add.assoc)
  show ?case
    using d(10) t by (subst find_fit_loop.simps) (auto simp: macros b IH split: option.splits)
qed

lemma find_fit_first_fit:
  assumes "heap_inv h bs"
  shows "find_fit asize h = Some (case first_fit asize bs of None \<Rightarrow> 0 | Some (xs, _) \<Rightarrow> heap_listp h + total xs)"
proof -
  obtain ys where bs: "bs = [(8, True)] @ ys" using assms by (cases bs) (auto simp: heap_inv_def)
  have "GET h (heap_listp h - 4) = Some (PACK 8 True)"
    using heap_inv_D(10) [of h "[]" 8 True ys] assms bs by simp
  then have "NEXT_BLKP h (heap_listp h) = Some (heap_listp h + 8)"
    by (simp add: macros tag_size_PACK)
  then show ?thesis
    using find_fit_loop_first_fit [of h "[(8, True)]" ys asize] assms bs
    by (auto simp: find_fit_def split: option.splits)
qed

section \<open>place\<close>

text \<open>Writing both tags of a block.\<close>

definition tags :: "heap \<Rightarrow> int \<Rightarrow> int \<Rightarrow> bool \<Rightarrow> heap" where
  "tags h bp n f = put (put h (bp - 4) (PACK n f)) (bp + n - 8) (PACK n f)"

lemma GET_tags:
  "in_heap h (bp - 4) \<Longrightarrow> in_heap h (bp + n - 8) \<Longrightarrow>
   GET (tags h bp n f) q = (if q = bp - 4 \<or> q = bp + n - 8 then Some (PACK n f) else GET h q)"
  by (auto simp: tags_def GET_put)

lemma in_heap_tags [simp]: "in_heap (tags h bp n f) = in_heap h"
  by (simp add: tags_def fun_eq_iff)

lemma changes_tags:
  "in_heap h (bp - 4) \<Longrightarrow> in_heap h (bp + n - 8) \<Longrightarrow> 8 \<le> n \<Longrightarrow> lo \<le> bp \<Longrightarrow> bp + n \<le> hi \<Longrightarrow>
   changes h (tags h bp n f) lo hi"
  unfolding tags_def by (rule changes_trans [OF changes_put changes_put]) auto

lemma heap_inv_in_heap:
  assumes "heap_inv h bs" and "heap_listp h - 4 \<le> q" "q < heap_listp h + total bs" "4 dvd q"
  shows "in_heap h q"
proof -
  have "in_heap h (mem_brk h - 4)" using assms(1) by (auto simp: heap_inv_def dest: GET_in_heap)
  moreover have "8 dvd mem_start_brk h" using assms(1) by (simp add: heap_inv_def)
  ultimately have "4 dvd mem_brk h" unfolding in_heap_def by presburger
  then show ?thesis using assms by (auto simp: heap_inv_def in_heap_def) presburger
qed

lemma place_placed:
  assumes inv: "heap_inv h (xs @ (m, False) # ys)" and ne: "xs \<noteq> []"
    and a: "ok_size a" "a \<le> m"
  defines "bp \<equiv> heap_listp h + total xs"
  shows "\<exists>h'. place bp a h = Some h' \<and> heap_inv h' (xs @ placed a m @ ys) \<and> changes h h' bp (bp + m)"
proof -
  note d = heap_inv_D [OF inv, folded bp_def]
  have 8: "8 dvd a" "8 \<le> a" "8 dvd m" "8 dvd bp" "0 < bp" "8 dvd total xs" "8 dvd m - a"
  proof -
    show "8 dvd a" "8 \<le> a" "8 dvd m" "8 dvd m - a" using a d(1) by (auto simp: ok_size_def)
    show "8 dvd total xs" using d(6)
      by (induction xs) (auto simp: ok_size_def)
    then show "8 dvd bp" "0 < bp" using d(4,8,9) by (auto simp: bp_def)
  qed
  have i: "in_heap h q" if "bp - 4 \<le> q" "q < bp + m" "4 dvd q" for q
    by (rule heap_inv_in_heap [OF inv]) (use that d(4,5) in \<open>auto simp: bp_def\<close>)
  have i1: "in_heap h (bp - 4)" "in_heap h (bp + a - 8)"
    by (rule i; use a(2) 8 in \<open>simp; presburger\<close>)+
  let ?h = "tags h bp a True"
  have t: "tag_size (PACK a True) = a" "tag_size (PACK m False) = m"
    using a d(1) by (auto simp: ok_size_def tag_size_PACK)
  have r: "(m - a) mod 2 ^ 32 = m - a" using a d(2) 8 by simp
  show ?thesis
  proof (cases "m = a")
    case True
    have "place bp a h = Some ?h"
      using d(10) i1 t by (simp add: place_def macros PUT_eq GET_put tags_def True)
    moreover have c: "changes h ?h bp (bp + m)" by (rule changes_tags) (use i1 8 True in auto)
    moreover have "heap_inv ?h (xs @ [(a, True)] @ ys)"
      by (rule heap_inv_replace [OF _ ne c, of "[(m, False)]"])
        (use inv a True i1 in \<open>auto simp: bp_def GET_tags\<close>)
    ultimately show ?thesis by (intro exI [of _ ?h]) (simp add: placed_def True)
  next
    case False
    then have ra: "a < m" using a by simp
    define r where "r = m - a"
    have rr: "ok_size r" "8 dvd r" "8 \<le> r" "r mod 2 ^ 32 = r" "m = a + r"
      using 8 ra d(2) a by (auto simp: r_def ok_size_def intro!: zdvd_imp_le)
    have tr: "tag_size (PACK r False) = r" using rr by (auto simp: ok_size_def tag_size_PACK)
    let ?h2 = "tags ?h (bp + a) r False"
    have "in_heap h (bp + a - 4)" "in_heap h (bp + a + r - 8)"
      by (rule i; use rr(2,3,5) 8 in \<open>simp; presburger\<close>)+
    then have i2: "in_heap ?h (bp + a - 4)" "in_heap ?h (bp + a + r - 8)" by simp_all
    have even: "\<not> odd (r div 4)" using rr(2) by (auto elim!: dvdE)
    have ge: "16 \<le> r \<or> r = 8" using rr(2,3) by presburger
    have "place bp a h = Some ?h2"
      using ge
    proof
      assume "16 \<le> r"
      then show ?thesis using d(10) i1 i2 t tr rr(4) 8(2)
        by (simp add: place_def macros PUT_eq GET_put tags_def rr(5))
    next
      assume "r = 8"
      then show ?thesis using d(10) i1 i2 t tr rr(4) even 8(2)
        by (simp add: place_def macros PUT_eq GET_put tags_def rr(5))
    qed
    moreover have c: "changes h ?h2 bp (bp + m)"
      by (rule changes_trans [OF changes_tags changes_tags]) (use i1 i2 8 rr in auto)
    moreover have "heap_inv ?h2 (xs @ [(a, True), (r, False)] @ ys)"
      by (rule heap_inv_replace [OF _ ne c, of "[(m, False)]"])
        (use inv a rr i1 i2 8 in \<open>auto simp: bp_def GET_tags\<close>)
    ultimately show ?thesis using ra by (intro exI [of _ ?h2]) (simp add: placed_def r_def)
  qed
qed

section \<open>extend_heap\<close>

text \<open>A step that may extend the heap and change the words from payload address \<open>lo\<close> on.\<close>

definition grows :: "heap \<Rightarrow> heap \<Rightarrow> int \<Rightarrow> bool" where
  "grows h h' lo \<longleftrightarrow>
     mem_start_brk h' = mem_start_brk h \<and> mem_max_addr h' = mem_max_addr h \<and> heap_listp h' = heap_listp h \<and>
     mem_brk h \<le> mem_brk h' \<and> (\<forall>q < lo - 4. GET h' q = GET h q)"

lemma grows_changes: "grows h h1 lo \<Longrightarrow> changes h1 h2 lo' hi \<Longrightarrow> lo2 \<le> lo \<Longrightarrow> lo2 \<le> lo' \<Longrightarrow> grows h h2 lo2"
  by (auto simp: grows_def changes_def)

lemma dvd_total: "mm.ok_blocks bs \<Longrightarrow> 8 dvd total bs"
  by (induction bs) (auto simp: ok_size_def)

lemma mem_sbrk_ok:
  "0 \<le> n \<Longrightarrow> 0 \<le> mem_brk h \<Longrightarrow> mem_brk h + n \<le> mem_max_addr h \<Longrightarrow> mem_max_addr h < 2 ^ 32 \<Longrightarrow>
   mem_sbrk n h = (mem_brk h, h\<lparr>mem_brk := mem_brk h + n\<rparr>)"
  by (simp add: mem_sbrk_def)

text \<open>The heap after the break has moved and the new block and the new epilogue have their tags.\<close>

definition extended :: "int \<Rightarrow> int \<Rightarrow> heap \<Rightarrow> heap" where
  "extended fb n h =
     put (tags (h\<lparr>mem_brk := mem_brk h + n, final_brk := fb\<rparr>) (mem_brk h) n False)
       (mem_brk h + n - 4) (PACK 0 True)"

lemma extended_inv:
  assumes inv: "heap_inv h bs" and n: "ok_size n" and room: "mem_brk h + n \<le> mem_max_addr h"
  shows "heap_inv (extended fb n h) (bs @ [(n, False)])" and "grows h (extended fb n h) (mem_brk h)"
    and "mem_brk (extended fb n h) = mem_brk h + n" and "heap_listp (extended fb n h) = heap_listp h"
    and "fb = mem_brk h + n \<Longrightarrow> mem_max_addr h < 2 ^ 32 \<Longrightarrow> extend_heap (n div 4) h = coalesce (mem_brk h) (extended fb n h)"
proof -
  let ?b = "mem_brk h" and ?h0 = "h\<lparr>mem_brk := mem_brk h + n, final_brk := fb\<rparr>"
  let ?h1 = "tags ?h0 ?b n False"
  have ok: "mm.ok_blocks bs" "0 < mem_start_brk h" "heap_listp h = mem_start_brk h + 8" "8 dvd heap_listp h"
    "?b = heap_listp h + total bs" "mem_max_addr h - mem_start_brk h \<le> 2 ^ 30"
    using inv by (auto simp: heap_inv_def)
  have t: "0 \<le> total bs" "8 dvd total bs" "8 dvd n" "8 \<le> n" "8 dvd ?b" "8 \<le> ?b" "n < 2 ^ 31"
    using mm.total_nonneg [OF ok(1)] dvd_total [OF ok(1)] ok n room by (auto simp: ok_size_def)
  have i: "in_heap ?h0 q" if "?b - 4 \<le> q" "q + 4 \<le> ?b + n" "4 dvd q" for q
    using that ok t by (simp add: in_heap_def)
  have i0: "in_heap ?h0 (?b - 4)" "in_heap ?h0 (?b + n - 8)" "in_heap ?h0 (?b + n - 4)"
    by (rule i; use t in \<open>simp; presburger\<close>)+
  have same: "GET ?h0 q = GET h q" if "q < ?b - 4" for q
    using that t by (simp add: GET_def in_heap_def)
  have g: "GET (extended fb n h) q = (if q = ?b + n - 4 then Some (PACK 0 True)
      else if q = ?b - 4 \<or> q = ?b + n - 8 then Some (PACK n False) else GET ?h0 q)" for q
    using i0 by (simp add: extended_def GET_put GET_tags)
  show f: "mem_brk (extended fb n h) = ?b + n" "heap_listp (extended fb n h) = heap_listp h"
    by (simp_all add: extended_def tags_def)
  show grows: "grows h (extended fb n h) ?b"
    using t by (auto simp: grows_def g same) (simp_all add: extended_def tags_def)
  have "seg 4 PACK (GET (extended fb n h)) (heap_listp h) bs = seg 4 PACK (GET h) (heap_listp h) bs"
  proof (rule mm.seg_cong [OF ok(1)])
    fix q assume "q < heap_listp h + total bs - 4"
    then have q: "q < ?b - 4" using ok(5) by linarith
    then have "q \<noteq> ?b + n - 4" "q \<noteq> ?b - 4" "q \<noteq> ?b + n - 8" using t by linarith+
    then show "GET (extended fb n h) q = GET h q" by (simp only: g same [OF q] if_False simp_thms)
  qed
  then show "heap_inv (extended fb n h) (bs @ [(n, False)])"
    using inv n t room ok grows by (auto simp: heap_inv_def f g grows_def)
  have sz: "to_int n = n" using t by (intro to_int_small) auto
  have w: "n div 4 mod 2 = 0" "n div 4 * 4 = n" "n mod 2 ^ 32 = n"
    using t by (presburger, presburger, simp)
  have tz: "tag_size (PACK n False) = n" using n by (auto simp: ok_size_def tag_size_PACK)
  assume fb: "fb = mem_brk h + n" and mx: "mem_max_addr h < 2 ^ 32"
  have sb: "mem_sbrk n h = (?b, h\<lparr>mem_brk := ?b + n\<rparr>)" by (rule mem_sbrk_ok) (use room mx t in auto)
  show "extend_heap (n div 4) h = coalesce ?b (extended fb n h)"
    using fb t i0 tz w
    by (simp add: extend_heap_def Let_def sz sb macros PUT_eq GET_put extended_def tags_def)
qed

lemma extended_joined:
  assumes inv: "heap_inv h bs" and n: "ok_size n" and room: "mem_brk h + n \<le> mem_max_addr h"
  shows "\<exists>bp h' xs m. coalesce (mem_brk h) (extended fb n h) = Some (bp, h') \<and> joined bs n [] = xs @ [(m, False)] \<and> xs \<noteq> [] \<and> n \<le> m \<and>
     bp = heap_listp h + total xs \<and> heap_inv h' (joined bs n []) \<and> grows h h' bp \<and> mem_brk h' = mem_brk h + n"
proof -
  note e = extended_inv [where fb = fb, OF inv n room]
  have ne: "bs \<noteq> []" using inv by (simp add: heap_inv_def)
  have b: "mem_brk h = heap_listp (extended fb n h) + total bs" using inv e(4) by (simp add: heap_inv_def)
  obtain bp h' xs m ys where c: "coalesce (mem_brk h) (extended fb n h) = Some (bp, h')"
    "joined bs n [] = xs @ (m, False) # ys" "xs \<noteq> []" "bp = heap_listp h + total xs"
    "heap_inv h' (joined bs n [])" "changes (extended fb n h) h' bp (bp + m)" "bp \<le> mem_brk h" "mem_brk h + n \<le> bp + m"
    using coalesce_joined [OF e(1) ne] b e(4) by auto
  have "ys = []"
  proof (cases ys)
    case (Cons y ys')
    have "mm.ok_blocks (y # ys')" using c(2,5) Cons by (simp add: heap_inv_def)
    then have "8 \<le> fst y" "0 \<le> total ys'" using mm.total_nonneg by (auto simp: ok_size_def)
    moreover have "total bs + n = total xs + m + total ys"
      using total_joined [of bs n "[]"] c(2) by simp
    moreover have "total bs + n \<le> total xs + m" using c(4,8) b e(4) by simp
    ultimately show ?thesis using Cons by simp
  qed simp
  moreover have "grows h h' bp" by (rule grows_changes [OF e(2) c(6) c(7) order.refl])
  moreover have "mem_brk h' = mem_brk h + n" using c(6) e(3) by (simp add: changes_def)
  ultimately show ?thesis using c by (intro exI [of _ bp] exI [of _ h'] exI [of _ xs] exI [of _ m]) auto
qed

lemma extend_heap_joined:
  assumes inv: "heap_inv h bs" and n: "ok_size n" and room: "mem_brk h + n \<le> mem_max_addr h" and mx: "mem_max_addr h < 2 ^ 32"
  shows "\<exists>bp h' xs m. extend_heap (n div 4) h = Some (bp, h') \<and> joined bs n [] = xs @ [(m, False)] \<and> xs \<noteq> [] \<and> n \<le> m \<and>
     bp = heap_listp h + total xs \<and> heap_inv h' (joined bs n []) \<and> grows h h' bp \<and> mem_brk h' = mem_brk h + n"
  using extended_joined [OF inv n room] unfolding extended_inv(5) [OF inv n room refl mx] .

lemma extend_heap_fails:
  assumes "heap_inv h bs" and "ok_size n" "mem_max_addr h < mem_brk h + n" "n < 2 ^ 31 \<longrightarrow> mem_brk h + n < 2 ^ 32"
  shows "extend_heap (n div 4) h = Some (0, h)"
proof -
  have w: "n div 4 mod 2 = 0" "n div 4 * 4 = n" "n mod 2 ^ 32 = n" "8 \<le> n" "n < 2 ^ 32"
    using assms(2) by (auto simp: ok_size_def elim!: dvdE)
  have b: "0 < mem_brk h"
    using assms(1) mm.total_nonneg [of bs] by (auto simp: heap_inv_def)
  have "mem_sbrk (to_int n) h = (- 1, h)"
  proof (cases "n < 2 ^ 31")
    case True
    then have "to_int n = n" "(mem_brk h + n) mod 2 ^ 32 = mem_brk h + n"
      using w b assms(4) by (simp_all add: to_int_small)
    then show ?thesis using assms(3) by (simp add: mem_sbrk_def)
  next
    case False
    then show ?thesis using to_int_big [of n] w by (simp add: mem_sbrk_def)
  qed
  then show ?thesis using w by (simp add: extend_heap_def Let_def WSIZE_def)
qed

section \<open>mm_init\<close>

text \<open>The heap with its prologue and epilogue, as \<open>mm_init\<close> leaves it to \<open>extend_heap\<close>.\<close>

definition room_of :: "heap \<Rightarrow> heap" where
  "room_of h = h\<lparr>mem_brk := mem_start_brk h + 16, heap_listp := mem_start_brk h\<rparr>"

definition prologue :: "int \<Rightarrow> heap \<Rightarrow> heap" where
  "prologue sb h = (let p = mem_start_brk h in
     (put (put (put (put (room_of h) p 0) (p + 4) (PACK 8 True)) (p + 8) (PACK 8 True)) (p + 12) (PACK 0 True))
     \<lparr>start_brk := sb, heap_listp := p + 8\<rparr>)"

lemma room_of_in_heap:
  assumes "8 dvd mem_start_brk h"
  shows "in_heap (room_of h) (mem_start_brk h)" "in_heap (room_of h) (mem_start_brk h + 4)"
    "in_heap (room_of h) (mem_start_brk h + 8)" "in_heap (room_of h) (mem_start_brk h + 12)"
  using assms by (auto simp: in_heap_def room_of_def)

lemma prologue_inv:
  assumes "8 dvd mem_start_brk h" "0 < mem_start_brk h" "mem_max_addr h - mem_start_brk h \<le> 2 ^ 30"
    and "16 \<le> mem_max_addr h - mem_start_brk h"
  shows "heap_inv (prologue sb h) [(8, True)]" "mem_start_brk (prologue sb h) = mem_start_brk h"
    "mem_brk (prologue sb h) = mem_start_brk h + 16" "heap_listp (prologue sb h) = mem_start_brk h + 8"
    "mem_max_addr (prologue sb h) = mem_max_addr h"
proof -
  let ?p = "mem_start_brk h" and ?h0 = "room_of h"
  show f: "mem_start_brk (prologue sb h) = ?p" "mem_brk (prologue sb h) = ?p + 16"
    "heap_listp (prologue sb h) = ?p + 8" "mem_max_addr (prologue sb h) = mem_max_addr h"
    by (simp_all add: prologue_def Let_def) (simp_all add: room_of_def)
  note i = room_of_in_heap [OF assms(1)]
  have G: "GET (prologue sb h) q = GET (put (put (put (put ?h0 ?p 0) (?p + 4) (PACK 8 True)) (?p + 8) (PACK 8 True)) (?p + 12) (PACK 0 True)) q" for q
    by (simp add: prologue_def Let_def GET_def in_heap_def)
  have "GET (prologue sb h) (?p + 4) = Some (PACK 8 True)" "GET (prologue sb h) (?p + 8) = Some (PACK 8 True)"
    "GET (prologue sb h) (?p + 12) = Some (PACK 0 True)"
    using i by (simp_all add: G GET_put)
  then show "heap_inv (prologue sb h) [(8, True)]"
    using assms by (simp add: heap_inv_def f ok_size_def add.commute)
qed

text \<open>The block of the first extension.\<close>

lemma first_extension: "joined [(8, True)] 4096 [] = [(8, True), (4096, False)]" "ok_size 4096"
  by (simp_all add: joined_def ok_size_def)

lemma mm_init_ok:
  assumes "8 dvd mem_start_brk h" "0 < mem_start_brk h" "mem_brk h = mem_start_brk h"
    and "mem_max_addr h - mem_start_brk h \<le> 2 ^ 30" "4112 \<le> mem_max_addr h - mem_start_brk h" "mem_max_addr h < 2 ^ 32"
  shows "\<exists>h'. mm_init h = Some (0, h') \<and> heap_inv h' [(8, True), (4096, False)] \<and>
    heap_listp h' = mem_start_brk h + 8 \<and> mem_brk h' = mem_start_brk h + 4112 \<and>
    mem_start_brk h' = mem_start_brk h \<and> mem_max_addr h' = mem_max_addr h"
proof -
  let ?p = "mem_start_brk h" and ?h2 = "prologue (mem_start_brk h) h"
  have z: "to_int 16 = 16" by (rule to_int_small) auto
  have s: "mem_sbrk 16 h = (?p, h\<lparr>mem_brk := ?p + 16\<rparr>)"
    using mem_sbrk_ok [of 16 h] assms by simp
  note i = room_of_in_heap [OF assms(1), unfolded room_of_def]
  have p: "heap_inv ?h2 [(8, True)]" "mem_start_brk ?h2 = ?p" "mem_brk ?h2 = ?p + 16" "heap_listp ?h2 = ?p + 8"
    "mem_max_addr ?h2 = mem_max_addr h"
    by (rule prologue_inv; use assms in simp)+
  obtain bp h' xs m where e: "extend_heap (4096 div 4) ?h2 = Some (bp, h')" "joined [(8, True)] 4096 [] = xs @ [(m, False)]" "xs \<noteq> []"
    "bp = heap_listp ?h2 + total xs" "heap_inv h' (joined [(8, True)] 4096 [])" "grows ?h2 h' bp" "mem_brk h' = mem_brk ?h2 + 4096"
    using extend_heap_joined [OF p(1) first_extension(2)] assms p by auto
  have "bp \<noteq> 0" using e(2,4) assms(2) by (auto simp: p first_extension(1) Cons_eq_append_conv)
  moreover have "mm_init h = do { (bp, h) \<leftarrow> extend_heap (4096 div 4) ?h2; Some (if bp = 0 then - 1 else 0, h) }"
    using i assms(2)
    by (simp add: mm_init_def Let_def WSIZE_def DSIZE_def CHUNKSIZE_def z s PUT_eq prologue_def room_of_def)
  ultimately have "mm_init h = Some (0, h')" using e(1) by simp
  then show ?thesis using e first_extension(1) p by (intro exI [of _ h']) (auto simp: grows_def)
qed

section \<open>Allocated blocks\<close>

text \<open>Payload addresses and sizes of the allocated blocks of a list that starts at \<open>a\<close>.\<close>

fun live :: "int \<Rightarrow> block list \<Rightarrow> (int \<times> int) set" where
  "live a [] = {}"
| "live a (b # bs) = (if snd b then {(a, fst b)} else {}) \<union> live (a + fst b) bs"

text \<open>The blocks of the client: those after the prologue.\<close>

definition live_blocks :: "heap \<Rightarrow> block list \<Rightarrow> (int \<times> int) set" where
  "live_blocks h bs = live (heap_listp h + 8) (tl bs)"

lemma live_append [simp]: "live a (xs @ ys) = live a xs \<union> live (a + total xs) ys"
  by (induction xs arbitrary: a) (auto simp: add.assoc)

lemma live_bounds: "(q, k) \<in> live a bs \<Longrightarrow> mm.ok_blocks bs \<Longrightarrow> a \<le> q \<and> q + k \<le> a + total bs \<and> ok_size k"
proof (induction bs arbitrary: a)
  case (Cons b bs)
  then have ok: "ok_size (fst b)" "mm.ok_blocks bs" by auto
  then have "8 \<le> fst b" "0 \<le> total bs" using mm.total_nonneg by (auto simp: ok_size_def)
  with Cons ok show ?case by (fastforce split: if_splits)
qed simp

lemma live_mem: "(q, k) \<in> live a bs \<Longrightarrow> \<exists>xs ys. bs = xs @ (k, True) # ys \<and> q = a + total xs"
proof (induction bs arbitrary: a)
  case (Cons b bs)
  show ?case
  proof (cases "(q, k) = (a, fst b) \<and> snd b")
    case True
    then show ?thesis by (intro exI [of _ "[]"] exI [of _ bs]) (auto simp: prod_eq_iff)
  next
    case False
    then have "(q, k) \<in> live (a + fst b) bs" using Cons.prems by (auto split: if_splits)
    then obtain xs ys where "bs = xs @ (k, True) # ys" "q = a + fst b + total xs" using Cons.IH by blast
    then show ?thesis by (intro exI [of _ "b # xs"] exI [of _ ys]) simp
  qed
qed simp

text \<open>Different allocated blocks do not overlap.\<close>

lemma live_disjoint:
  "(q, k) \<in> live a bs \<Longrightarrow> (r, l) \<in> live a bs \<Longrightarrow> mm.ok_blocks bs \<Longrightarrow> (q, k) = (r, l) \<or> q + k \<le> r \<or> r + l \<le> q"
proof (induction bs arbitrary: a)
  case (Cons b bs)
  then have IH: "(q, k) \<in> live (a + fst b) bs \<Longrightarrow> (r, l) \<in> live (a + fst b) bs \<Longrightarrow> ?case" by simp
  from Cons.prems live_bounds [of q k "a + fst b" bs] live_bounds [of r l "a + fst b" bs] IH
  show ?case by (auto split: if_splits)
qed simp

lemma live_joined [simp]: "live a (joined xs n ys) = live a xs \<union> live (a + total xs + n) ys"
  by (rule joined_cases [of xs n ys]) (auto simp: algebra_simps)

lemma live_placed: "n \<le> m \<Longrightarrow> live a (placed n m) = {(a, n)}"
  by (simp add: placed_def)

text \<open>What a client sees of the step from one heap to the next: the same words in its blocks.\<close>

definition keeps :: "(int \<times> int) set \<Rightarrow> heap \<Rightarrow> heap \<Rightarrow> bool" where
  "keeps L h h' \<longleftrightarrow> (\<forall>(q, k) \<in> L. \<forall>x. q \<le> x \<and> x < q + k - 8 \<longrightarrow> GET h' x = GET h x)"

lemma keeps_refl [simp]: "keeps L h h"
  by (auto simp: keeps_def)

lemma keeps_trans: "keeps L h h1 \<Longrightarrow> keeps L h1 h2 \<Longrightarrow> keeps L h h2"
  by (fastforce simp: keeps_def)

lemma keeps_Un: "keeps (L \<union> M) h h' \<longleftrightarrow> keeps L h h' \<and> keeps M h h'"
  by (auto simp: keeps_def)

lemma keeps_mono: "keeps L h h' \<Longrightarrow> M \<subseteq> L \<Longrightarrow> keeps M h h'"
  by (auto simp: keeps_def)

lemma keeps_below:
  assumes "\<And>q. q < lo - 4 \<Longrightarrow> GET h' q = GET h q" and "mm.ok_blocks xs" "a + total xs \<le> lo"
  shows "keeps (live a xs) h h'"
  using assms live_bounds [of _ _ a xs] by (fastforce simp: keeps_def)

lemma keeps_changes:
  assumes "changes h h' lo hi" and "mm.ok_blocks xs" "a + total xs \<le> lo" and "mm.ok_blocks ys" "hi \<le> b"
  shows "keeps (live a xs \<union> live b ys) h h'"
  unfolding keeps_Un
proof
  show "keeps (live a xs) h h'"
    by (rule keeps_below) (use assms in \<open>auto simp: changes_def\<close>)
  show "keeps (live b ys) h h'"
    using assms live_bounds [of _ _ b ys] by (fastforce simp: keeps_def changes_def)
qed

text \<open>The blocks of a heap around a block that is not the prologue.\<close>

lemma live_blocks_append:
  assumes "heap_inv h (xs @ ys)" and "xs \<noteq> []"
  shows "live_blocks h (xs @ ys) = live (heap_listp h + 8) (tl xs) \<union> live (heap_listp h + total xs) ys"
    and "mm.ok_blocks (tl xs)" and "heap_listp h + 8 + total (tl xs) = heap_listp h + total xs" and "mm.ok_blocks ys"
proof -
  obtain xs' where xs: "xs = (8, True) # xs'" using assms by (cases xs) (auto simp: heap_inv_def)
  have ok: "mm.ok_blocks (xs @ ys)" using assms(1) by (simp add: heap_inv_def)
  then show "mm.ok_blocks (tl xs)" "mm.ok_blocks ys" by (simp_all add: xs)
  show "heap_listp h + 8 + total (tl xs) = heap_listp h + total xs" by (simp add: xs)
  show "live_blocks h (xs @ ys) = live (heap_listp h + 8) (tl xs) \<union> live (heap_listp h + total xs) ys"
    by (simp add: xs live_blocks_def add.assoc)
qed

section \<open>mm_malloc\<close>

text \<open>Requests that are rounded up without wrapping around.\<close>

lemma AGNSIZE_small:
  assumes "0 \<le> n" "n \<le> 2 ^ 32 - 16"
  shows "AGNSIZE n = 8 * ((n + 15) div 8)"
proof -
  have "0 \<le> n + 15" "n + 15 < 2 ^ 32" using assms by simp_all
  then have "(n + 15) mod 2 ^ 32 = n + 15" by (rule mod_pos_pos_trivial)
  moreover have "n + DSIZE + DSIZE - 1 = n + 15" by (simp add: DSIZE_def)
  ultimately have "(n + DSIZE + DSIZE - 1) mod 2 ^ 32 = n + 15" by (simp only:)
  then show ?thesis unfolding AGNSIZE_def by (simp only: DSIZE_def)
qed

lemma round_up_8: "8 * ((n + 15) div 8) \<le> n + 15" "n + 8 \<le> 8 * ((n + 15) div 8)" for n :: int
  by presburger+

lemma adjusted_ok:
  assumes "0 < n" "n \<le> 2 ^ 32 - 16"
  shows "ok_size (adjusted n)" and "n + 8 \<le> adjusted n" and "adjusted n \<le> n + 16" and "8 dvd adjusted n"
proof -
  have a: "adjusted n = (if n \<le> 8 then 16 else 8 * ((n + 15) div 8))"
    using AGNSIZE_small [of n] assms by (simp add: adjusted_def DSIZE_def)
  show "n + 8 \<le> adjusted n" "adjusted n \<le> n + 16" "8 dvd adjusted n"
    unfolding a using round_up_8 [of n] assms(1) by auto
  moreover have "adjusted n < 2 ^ 32" unfolding a using round_up_8 [of n] assms by auto
  ultimately show "ok_size (adjusted n)" using assms by (simp add: ok_size_def)
qed

text \<open>
  The abstract allocation of \<open>n\<close> bytes with \<open>room\<close> bytes left to extend: the offset of the new
  block and the blocks afterwards, or nothing.
\<close>

definition blocks_malloc :: "int \<Rightarrow> int \<Rightarrow> block list \<Rightarrow> (int \<times> block list) option" where
  "blocks_malloc n room bs =
     (case first_fit n bs of
        Some (xs, m, ys) \<Rightarrow> Some (total xs, xs @ placed n m @ ys)
      | None \<Rightarrow>
          (let e = max n 4096
           in if room < e then None
              else let bs = joined bs e []; xs = butlast bs; m = fst (last bs)
                   in Some (total xs, xs @ placed n m)))"

lemma malloc_fit:
  assumes inv: "heap_inv h bs" and n: "ok_size (adjusted sz)" "sz \<noteq> 0"
    and f: "first_fit (adjusted sz) bs = Some (xs, m, ys)"
  shows "\<exists>h'. mm_malloc sz h = Some (heap_listp h + total xs, h') \<and> heap_inv h' (xs @ placed (adjusted sz) m @ ys) \<and>
    changes h h' (heap_listp h + total xs) (heap_listp h + total xs + m) \<and> xs \<noteq> [] \<and> heap_listp h + total xs \<noteq> 0"
proof -
  note bs = first_fit_Some [OF f]
  have ne: "xs \<noteq> []" using inv bs by (cases xs) (auto simp: heap_inv_def)
  have inv': "heap_inv h (xs @ (m, False) # ys)" using inv bs by simp
  note d = heap_inv_D [OF inv']
  have nz: "heap_listp h + total xs \<noteq> 0" using d(4,8) by linarith
  obtain h' where "place (heap_listp h + total xs) (adjusted sz) h = Some h'"
    "heap_inv h' (xs @ placed (adjusted sz) m @ ys)"
    "changes h h' (heap_listp h + total xs) (heap_listp h + total xs + m)"
    using place_placed [OF inv' ne n(1)] bs by auto
  then show ?thesis
    using find_fit_first_fit [OF inv, of "adjusted sz"] f n nz ne by (simp add: mm_malloc_def)
qed

text \<open>Requests that neither the rounding nor, when no block fits, the moved break takes out of the
  range of the types.\<close>

definition safe_size :: "heap \<Rightarrow> int \<Rightarrow> bool" where
  "safe_size h sz \<longleftrightarrow> 0 \<le> sz \<and> sz \<le> 2 ^ 32 - 16 \<and> (sz < 2 ^ 31 \<longrightarrow> mem_max_addr h + sz + 4096 < 2 ^ 32)"

lemma safe_size_same: "mem_max_addr h' = mem_max_addr h \<Longrightarrow> safe_size h' sz = safe_size h sz"
  by (simp add: safe_size_def)

lemma malloc_extend:
  assumes inv: "heap_inv h bs" and sz: "0 < sz" "sz \<le> 2 ^ 32 - 16" and mx: "mem_max_addr h < 2 ^ 32"
    and f: "first_fit (adjusted sz) bs = None"
    and room: "mem_brk h + max (adjusted sz) 4096 \<le> mem_max_addr h"
  defines "e \<equiv> max (adjusted sz) 4096"
  shows "\<exists>h' xs m. mm_malloc sz h = Some (heap_listp h + total xs, h') \<and> joined bs e [] = xs @ [(m, False)] \<and>
    heap_inv h' (xs @ placed (adjusted sz) m) \<and> adjusted sz \<le> m \<and>
    grows h h' (heap_listp h + total xs) \<and> xs \<noteq> [] \<and> heap_listp h + total xs \<noteq> 0"
proof -
  note a = adjusted_ok [OF sz]
  have e: "ok_size e" "adjusted sz \<le> e" "(if CHUNKSIZE < adjusted sz then adjusted sz else CHUNKSIZE) = e"
    using a by (auto simp: e_def ok_size_def CHUNKSIZE_def max_def)
  obtain bp h1 xs m where x: "extend_heap (e div 4) h = Some (bp, h1)" "joined bs e [] = xs @ [(m, False)]" "xs \<noteq> []" "e \<le> m"
    "bp = heap_listp h + total xs" "heap_inv h1 (joined bs e [])" "grows h h1 bp" "mem_brk h1 = mem_brk h + e"
    using extend_heap_joined [OF inv e(1) _ mx] room by (auto simp: e_def)
  have l: "heap_listp h1 = heap_listp h" using x(7) by (simp add: grows_def)
  have inv1: "heap_inv h1 (xs @ (m, False) # [])" using x(2,6) by simp
  note d = heap_inv_D [OF inv1]
  have nz: "bp \<noteq> 0" using d(4,8) x(5) l by linarith
  have am: "adjusted sz \<le> m" using e(2) x(4) by simp
  obtain h' where p: "place bp (adjusted sz) h1 = Some h'" "heap_inv h' (xs @ placed (adjusted sz) m)"
    "changes h1 h' bp (bp + m)"
    using place_placed [OF inv1 x(3) a(1) am] x(5) l by auto
  have "grows h h' bp" by (rule grows_changes [OF x(7) p(3)]) auto
  then show ?thesis
    using find_fit_first_fit [OF inv, of "adjusted sz"] f sz nz x p e am
    by (intro exI [of _ h'] exI [of _ xs] exI [of _ m]) (simp add: mm_malloc_def WSIZE_def Let_def)
qed

lemma malloc_null:
  assumes inv: "heap_inv h bs" and sz: "0 < sz" "safe_size h sz"
    and f: "first_fit (adjusted sz) bs = None"
    and room: "mem_max_addr h < mem_brk h + max (adjusted sz) 4096"
  shows "mm_malloc sz h = Some (0, h)"
proof -
  have s: "sz \<le> 2 ^ 32 - 16" using sz(2) by (simp add: safe_size_def)
  note a = adjusted_ok [OF sz(1) s]
  let ?e = "max (adjusted sz) 4096"
  have e: "ok_size ?e" "(if CHUNKSIZE < adjusted sz then adjusted sz else CHUNKSIZE) = ?e"
    using a by (auto simp: ok_size_def CHUNKSIZE_def max_def)
  have "mem_brk h \<le> mem_max_addr h" using inv by (simp add: heap_inv_def)
  then have "?e < 2 ^ 31 \<longrightarrow> mem_brk h + ?e < 2 ^ 32"
    using a(2,3) sz by (auto simp: safe_size_def)
  then show ?thesis
    using find_fit_first_fit [OF inv, of "adjusted sz"] f sz e extend_heap_fails [OF inv e(1) room]
    by (simp add: mm_malloc_def WSIZE_def Let_def)
qed

lemma ok_placed: "ok_size n \<Longrightarrow> ok_size m \<Longrightarrow> n \<le> m \<Longrightarrow> mm.ok_blocks (placed n m)"
  by (auto simp: placed_def ok_size_def intro!: zdvd_imp_le)

text \<open>The heap has room for a request: a block that fits, or bytes left to extend it.\<close>

definition has_room :: "int \<Rightarrow> heap \<Rightarrow> block list \<Rightarrow> bool" where
  "has_room sz h bs \<longleftrightarrow> first_fit (adjusted sz) bs \<noteq> None \<or>
     mem_brk h + max (adjusted sz) 4096 \<le> mem_max_addr h"

text \<open>A request that has room is less than the whole heap.\<close>

lemma has_room_small:
  assumes "heap_inv h bs" "has_room sz h bs" shows "adjusted sz \<le> 2 ^ 30"
proof (cases "first_fit (adjusted sz) bs")
  case None
  then have "mem_brk h + adjusted sz \<le> mem_max_addr h" using assms(2) by (simp add: has_room_def)
  then show ?thesis using assms(1) mm.total_nonneg [of bs] by (auto simp: heap_inv_def)
next
  case (Some x)
  then obtain xs m ys where "first_fit (adjusted sz) bs = Some (xs, m, ys)" by (cases x) auto
  then have "bs = xs @ (m, False) # ys" "adjusted sz \<le> m" using first_fit_Some by blast+
  then show ?thesis using heap_inv_D(2) [of h xs m False ys] assms(1) by simp
qed

lemma safe_has_room:
  assumes "heap_inv h bs" "0 < sz" "safe_size h sz" "has_room sz h bs"
  shows "sz \<le> 2 ^ 32 - 16" "mem_max_addr h < 2 ^ 32"
proof -
  show s: "sz \<le> 2 ^ 32 - 16" using assms(3) by (simp add: safe_size_def)
  have "sz < 2 ^ 31" using adjusted_ok(2) [OF assms(2) s] has_room_small [OF assms(1,4)] by simp
  then show "mem_max_addr h < 2 ^ 32" using assms(2,3) by (simp add: safe_size_def)
qed

text \<open>What allocating \<open>a\<close> bytes of a free block means for the client.\<close>

lemma placed_live:
  assumes inv: "heap_inv h (xs @ (m, False) # ys)" "coalesced (xs @ (m, False) # ys)" and ne: "xs \<noteq> []"
    and inv': "heap_inv h' (xs @ placed a m @ ys)" and a: "ok_size a" "a \<le> m"
  defines "p \<equiv> heap_listp h + total xs"
  assumes c: "changes h h' p (p + m)"
  shows "live_blocks h' (xs @ placed a m @ ys) = insert (p, a) (live_blocks h (xs @ (m, False) # ys))"
    and "(p, a) \<notin> live_blocks h (xs @ (m, False) # ys)" and "keeps (live_blocks h (xs @ (m, False) # ys)) h h'"
    and "coalesced (xs @ placed a m @ ys)"
proof -
  note l0 = live_blocks_append [OF inv(1) ne]
  note l1 = live_blocks_append [OF inv' ne]
  have lp: "heap_listp h' = heap_listp h" using c by (simp add: changes_def)
  have L0: "live_blocks h (xs @ (m, False) # ys) = live (heap_listp h + 8) (tl xs) \<union> live (p + m) ys"
    using l0(1) by (simp add: p_def)
  show "live_blocks h' (xs @ placed a m @ ys) = insert (p, a) (live_blocks h (xs @ (m, False) # ys))"
    unfolding l1(1) L0 using a by (auto simp: lp live_placed p_def)
  show "(p, a) \<notin> live_blocks h (xs @ (m, False) # ys)"
    unfolding L0 using live_bounds [OF _ l0(2), of _ _ "heap_listp h + 8"] live_bounds [of _ _ "p + m" ys]
      l0(3,4) a(1) heap_inv_D(1) [OF inv(1)] by (fastforce simp: ok_size_def p_def)
  show "keeps (live_blocks h (xs @ (m, False) # ys)) h h'"
    unfolding L0 by (rule keeps_changes [OF c l0(2)]) (use l0 in \<open>auto simp: p_def\<close>)
  show "coalesced (xs @ placed a m @ ys)" by (rule coalesced_placed [OF inv(2)])
qed

lemma extended_live:
  assumes inv: "heap_inv h bs" "coalesced bs" and j: "joined bs e [] = xs @ [(m, False)]" and ne: "xs \<noteq> []"
    and inv': "heap_inv h' (xs @ placed a m)" and a: "ok_size a" "a \<le> m"
  defines "p \<equiv> heap_listp h + total xs"
  assumes g: "grows h h' p"
  shows "live_blocks h' (xs @ placed a m) = insert (p, a) (live_blocks h bs)"
    and "(p, a) \<notin> live_blocks h bs" and "keeps (live_blocks h bs) h h'" and "coalesced (xs @ placed a m)"
proof -
  note l1 = live_blocks_append [OF inv' ne]
  have lp: "heap_listp h' = heap_listp h" using g by (simp add: grows_def)
  obtain ys where bs: "bs = (8, True) # ys" using inv(1) by (cases bs) (auto simp: heap_inv_def)
  have j': "tl (joined bs e []) = joined ys e []" "hd (joined bs e []) = (8, True)"
    by (cases ys rule: rev_cases; simp add: bs joined_def Let_def)+
  have "joined ys e [] = tl xs @ [(m, False)]" using j'(1) j ne by (cases xs) auto
  then have L0: "live_blocks h bs = live (heap_listp h + 8) (tl xs)"
    using live_joined [of "heap_listp h + 8" ys e "[]"] by (simp add: live_blocks_def bs)
  show "live_blocks h' (xs @ placed a m) = insert (p, a) (live_blocks h bs)"
    unfolding l1(1) L0 using a by (auto simp: lp live_placed p_def)
  show "(p, a) \<notin> live_blocks h bs"
    unfolding L0 using live_bounds [OF _ l1(2), of _ _ "heap_listp h + 8"] l1(3) lp a(1) by (fastforce simp: ok_size_def p_def)
  show "keeps (live_blocks h bs) h h'"
    unfolding L0 by (rule keeps_below [OF _ l1(2)]) (use l1 g lp in \<open>auto simp: grows_def p_def\<close>)
  show "coalesced (xs @ placed a m)"
    using coalesced_placed [of xs m "[]" a] coalesced_joined [OF inv(2), of "[]" e] j by simp
qed

lemma mm_malloc_spec:
  assumes inv: "heap_inv h bs" "coalesced bs" and sz: "0 < sz" "sz \<le> 2 ^ 32 - 16" and mx: "mem_max_addr h < 2 ^ 32"
    and room: "has_room sz h bs"
  shows "\<exists>p h' bs'. mm_malloc sz h = Some (p, h') \<and> p \<noteq> 0 \<and> heap_inv h' bs' \<and> coalesced bs' \<and>
    live_blocks h' bs' = insert (p, adjusted sz) (live_blocks h bs) \<and>
    (p, adjusted sz) \<notin> live_blocks h bs \<and> keeps (live_blocks h bs) h h' \<and>
    mem_start_brk h' = mem_start_brk h \<and> mem_max_addr h' = mem_max_addr h"
proof (cases "first_fit (adjusted sz) bs")
  case (Some r)
  obtain xs m ys where r: "r = (xs, m, ys)" by (metis prod_cases3)
  note a = adjusted_ok [OF sz]
  have f: "bs = xs @ (m, False) # ys" "adjusted sz \<le> m" using first_fit_Some [OF Some [unfolded r]] by auto
  obtain h' where h': "mm_malloc sz h = Some (heap_listp h + total xs, h')"
    "heap_inv h' (xs @ placed (adjusted sz) m @ ys)"
    "changes h h' (heap_listp h + total xs) (heap_listp h + total xs + m)" "xs \<noteq> []" "heap_listp h + total xs \<noteq> 0"
    using malloc_fit [OF inv(1) a(1) _ Some [unfolded r]] sz(1) by auto
  show ?thesis
    using h' placed_live [OF inv [unfolded f(1)] h'(4) h'(2) a(1) f(2) h'(3)] by (auto simp: changes_def f(1))
next
  case None
  note a = adjusted_ok [OF sz]
  let ?e = "max (adjusted sz) 4096"
  have rm: "mem_brk h + ?e \<le> mem_max_addr h" using room None by (simp add: has_room_def)
  obtain h' xs m where h': "mm_malloc sz h = Some (heap_listp h + total xs, h')" "joined bs ?e [] = xs @ [(m, False)]"
    "heap_inv h' (xs @ placed (adjusted sz) m)" "adjusted sz \<le> m" "grows h h' (heap_listp h + total xs)"
    "xs \<noteq> []" "heap_listp h + total xs \<noteq> 0"
    using malloc_extend [OF inv(1) sz mx None rm] by blast
  show ?thesis
    using h' extended_live [OF inv h'(2,6,3) a(1) h'(4,5)]
    by (intro exI [of _ "heap_listp h + total xs"] exI [of _ h'] exI [of _ "xs @ placed (adjusted sz) m"])
      (auto simp: grows_def)
qed

section \<open>mm_free\<close>

text \<open>The heap after \<open>mm_free\<close> has written the tags of the block, before it coalesces.\<close>

lemma freed_tags:
  assumes inv: "heap_inv h (xs @ (n, True) # ys)" and ne: "xs \<noteq> []"
  defines "bp \<equiv> heap_listp h + total xs"
  shows "heap_inv (tags h bp n False) (xs @ (n, False) # ys)" "changes h (tags h bp n False) bp (bp + n)"
    "heap_listp (tags h bp n False) = heap_listp h" "bp \<noteq> 0"
    "GET_SIZE h (HDRP bp) = Some n"
    "do { h \<leftarrow> PUT h (HDRP bp) (PACK n False); ftr \<leftarrow> FTRP h bp; h \<leftarrow> PUT h ftr (PACK n False); k h } = k (tags h bp n False)"
proof -
  note d = heap_inv_D [OF inv, folded bp_def]
  have n: "8 \<le> n" "tag_size (PACK n True) = n" "tag_size (PACK n False) = n"
    using d(1) by (auto simp: ok_size_def tag_size_PACK)
  have i: "in_heap h (bp - 4)" "in_heap h (bp + n - 8)" using d(10,11) by (auto dest: GET_in_heap)
  show c: "changes h (tags h bp n False) bp (bp + n)" by (rule changes_tags) (use i n in auto)
  have "heap_inv (tags h bp n False) (xs @ [(n, False)] @ ys)"
    by (rule heap_inv_replace [OF _ ne c, of "[(n, True)]"]) (use inv i d(1) in \<open>auto simp: GET_tags bp_def\<close>)
  then show "heap_inv (tags h bp n False) (xs @ (n, False) # ys)" by simp
  show "heap_listp (tags h bp n False) = heap_listp h" by (simp add: tags_def)
  show "bp \<noteq> 0" using d(4,8) by (simp add: bp_def)
  show "GET_SIZE h (HDRP bp) = Some n" using d(10) n by (simp add: macros)
  show "do { h \<leftarrow> PUT h (HDRP bp) (PACK n False); ftr \<leftarrow> FTRP h bp; h \<leftarrow> PUT h ftr (PACK n False); k h } = k (tags h bp n False)"
    using n i by (simp add: macros PUT_eq GET_put tags_def)
qed

lemma free_joined:
  assumes inv: "heap_inv h (xs @ (n, True) # ys)" and ne: "xs \<noteq> []"
  shows "\<exists>h'. mm_free (heap_listp h + total xs) h = Some h' \<and> heap_inv h' (joined xs n ys) \<and>
    mem_start_brk h' = mem_start_brk h \<and> mem_brk h' = mem_brk h \<and> mem_max_addr h' = mem_max_addr h \<and> heap_listp h' = heap_listp h \<and>
    keeps (live (heap_listp h + 8) (tl xs) \<union> live (heap_listp h + total xs + n) ys) h h'"
proof -
  let ?bp = "heap_listp h + total xs" and ?h = "tags h (heap_listp h + total xs) n False"
  note ft = freed_tags [OF inv ne]
  note c = ft(2)
  obtain bp' h' xs' m ys' where co: "coalesce ?bp ?h = Some (bp', h')" "joined xs n ys = xs' @ (m, False) # ys'" "xs' \<noteq> []"
    "bp' = heap_listp h + total xs'" "heap_inv h' (joined xs n ys)" "changes ?h h' bp' (bp' + m)" "bp' \<le> ?bp" "?bp + n \<le> bp' + m"
    using coalesce_joined [OF ft(1) ne, unfolded ft(3)] by auto
  have ch: "changes h h' bp' (bp' + m)" by (rule changes_trans [OF c co(6)]) (use co in auto)
  have "mm_free ?bp h = Some h'"
    using co(1) ft(4,5) by (simp add: mm_free_def ft(6))
  moreover have "keeps (live (heap_listp h + 8) (tl xs) \<union> live (?bp + n) ys) h h'"
  proof -
    have inv': "heap_inv h' (xs' @ (m, False) # ys')" using co(2,5) by simp
    have lp': "heap_listp h' = heap_listp h" using ch by (simp add: changes_def)
    note l = live_blocks_append [OF inv' co(3)]
    obtain zs where x: "xs = (8, True) # zs" using inv ne by (cases xs) (auto simp: heap_inv_def)
    have "tl (joined xs n ys) = joined zs n ys"
      by (cases zs rule: rev_cases; simp add: x joined_def Let_def split: if_splits)
    then have "live_blocks h' (joined xs n ys) = live (heap_listp h + 8) (tl xs) \<union> live (?bp + n) ys"
      using live_joined [of "heap_listp h + 8" zs n ys] by (simp add: live_blocks_def x lp' add.assoc)
    then have "live (heap_listp h + 8) (tl xs) \<union> live (?bp + n) ys =
        live (heap_listp h + 8) (tl xs') \<union> live (bp' + m) ys'"
      using l(1) co(2,4) lp' by simp
    then show ?thesis
      using keeps_changes [OF ch l(2), of "heap_listp h + 8" ys' "bp' + m"] l(3,4) lp' co(4) by simp
  qed
  ultimately show ?thesis using co(5) ch by (auto simp: changes_def)
qed

lemma mm_free_spec:
  assumes inv: "heap_inv h bs" "coalesced bs" and p: "(p, n) \<in> live_blocks h bs"
  shows "\<exists>h' bs'. mm_free p h = Some h' \<and> heap_inv h' bs' \<and> coalesced bs' \<and>
    live_blocks h' bs' = live_blocks h bs - {(p, n)} \<and> keeps (live_blocks h bs - {(p, n)}) h h' \<and>
    mem_start_brk h' = mem_start_brk h \<and> mem_brk h' = mem_brk h \<and> mem_max_addr h' = mem_max_addr h \<and> heap_listp h' = heap_listp h"
proof -
  obtain zs ys where z: "tl bs = zs @ (n, True) # ys" "p = heap_listp h + 8 + total zs"
    using live_mem p unfolding live_blocks_def by metis
  let ?xs = "(8, True) # zs"
  have bs: "bs = ?xs @ (n, True) # ys" using z inv(1) by (cases bs) (auto simp: heap_inv_def)
  have inv': "heap_inv h (?xs @ (n, True) # ys)" using inv(1) bs by simp
  note d = heap_inv_D [OF inv']
  have bp: "p = heap_listp h + total ?xs" using z by simp
  obtain h' where h': "mm_free p h = Some h'" "heap_inv h' (joined ?xs n ys)"
    "mem_start_brk h' = mem_start_brk h" "mem_brk h' = mem_brk h" "mem_max_addr h' = mem_max_addr h" "heap_listp h' = heap_listp h"
    "keeps (live (heap_listp h + 8) (tl ?xs) \<union> live (heap_listp h + total ?xs + n) ys) h h'"
    using free_joined [OF inv'] bp by auto
  have zs: "mm.ok_blocks zs" using d(6) by simp
  have "tl (joined ?xs n ys) = joined zs n ys"
    by (cases zs rule: rev_cases; simp add: joined_def Let_def split: if_splits)
  then have L1: "live_blocks h' (joined ?xs n ys) = live (heap_listp h + 8) zs \<union> live (p + n) ys"
    using live_joined [of "heap_listp h + 8" zs n ys] by (simp add: live_blocks_def h'(6) z(2) add.assoc)
  have "(p, n) \<notin> live (heap_listp h + 8) zs \<union> live (p + n) ys"
    using live_bounds [OF _ zs, of p n "heap_listp h + 8"] live_bounds [OF _ d(7), of p n "p + n"] d(1) z(2)
    by (auto simp: ok_size_def)
  then have L0: "live_blocks h bs - {(p, n)} = live (heap_listp h + 8) zs \<union> live (p + n) ys"
    by (auto simp: live_blocks_def z)
  have "coalesced (joined ?xs n ys)"
    by (rule coalesced_joined)
      (use inv(2) bs coalesced_append [of ?xs "(n, True) # ys"] coalesced_append [of "[(n, True)]" ys] in auto)
  then show ?thesis
    using h' L1 L0 bp by (intro exI [of _ h'] exI [of _ "joined ?xs n ys"]) (simp add: add.assoc)
qed

section \<open>mm_realloc\<close>

lemma copy_words_ok:
  assumes "\<And>i. 0 \<le> i \<Longrightarrow> i < int k \<Longrightarrow> in_heap h (s + 4 * i) \<and> in_heap h (d + 4 * i)"
    and "d + 4 * int k \<le> s \<or> s + 4 * int k \<le> d"
  shows "\<exists>h'. copy_words k d s h = Some h' \<and> changes h h' (d + 4) (d + 4 * int k + 4) \<and>
    (\<forall>i. 0 \<le> i \<and> i < int k \<longrightarrow> GET h' (d + 4 * i) = GET h (s + 4 * i))"
  using assms
proof (induction k arbitrary: d s h)
  case 0
  then show ?case by (auto simp: changes_refl)
next
  case (Suc k)
  have i: "in_heap h s" "in_heap h d" using Suc.prems(1) [of 0] by auto
  then obtain w where w: "GET h s = Some w" by (simp add: GET_def)
  let ?h = "put h d w"
  obtain h' where h': "copy_words k (d + 4) (s + 4) ?h = Some h'" "changes ?h h' (d + 8) (d + 4 + 4 * int k + 4)"
    "\<forall>i. 0 \<le> i \<and> i < int k \<longrightarrow> GET h' (d + 4 + 4 * i) = GET ?h (s + 4 + 4 * i)"
    using Suc.IH [of ?h "s + 4" "d + 4"] Suc.prems(1) [of "_ + 1"] Suc.prems(2) by (auto simp: algebra_simps)
  have g: "GET ?h q = (if q = d then Some w else GET h q)" for q using i by (simp add: GET_put)
  have "changes h h' (d + 4) (d + 4 * int (Suc k) + 4)"
    by (rule changes_trans [OF changes_put h'(2)]) (use i in auto)
  moreover have "GET h' (d + 4 * j) = GET h (s + 4 * j)" if "0 \<le> j" "j < int (Suc k)" for j
  proof (cases "j = 0")
    case True
    then show ?thesis using h'(2) w by (simp add: changes_def g)
  next
    case False
    then have "0 \<le> j - 1" "j - 1 < int k" using that by auto
    then have "GET h' (d + 4 + 4 * (j - 1)) = GET ?h (s + 4 + 4 * (j - 1))" using h'(3) by blast
    moreover have "s + 4 * j \<noteq> d" using Suc.prems(2) that False by auto
    ultimately show ?thesis by (simp add: g algebra_simps)
  qed
  ultimately show ?case using h'(1) i w by (auto simp: PUT_eq)
qed

lemma heap_inv_changes_payload:
  assumes inv: "heap_inv h bs" and b: "(p, n) \<in> live_blocks h bs" and c: "changes h h' (p + 4) (p + k + 4)" and k: "k \<le> n - 8"
  shows "heap_inv h' bs" and "live_blocks h' bs = live_blocks h bs" and "keeps (live_blocks h bs - {(p, n)}) h h'"
proof -
  obtain zs ys where z: "tl bs = zs @ (n, True) # ys" "p = heap_listp h + 8 + total zs"
    using live_mem b unfolding live_blocks_def by metis
  let ?xs = "(8, True) # zs"
  have bs: "bs = ?xs @ [(n, True)] @ ys" using z inv by (cases bs) (auto simp: heap_inv_def)
  have inv': "heap_inv h (?xs @ (n, True) # ys)" using inv bs by simp
  note d = heap_inv_D [OF inv']
  have n8: "8 \<le> n" using d(1) by (simp add: ok_size_def)
  have c': "changes h h' p (p + n)" using c k n8 by (auto simp: changes_def)
  have same: "GET h' (p - 4) = GET h (p - 4)" "GET h' (p + n - 8) = GET h (p + n - 8)"
    using c k by (auto simp: changes_def)
  have "heap_inv h' (?xs @ [(n, True)] @ ys)"
    by (rule heap_inv_replace [OF _ _ c', of ?xs "[(n, True)]"]) (use inv bs d z(2) same in auto)
  then show "heap_inv h' bs" by (simp only: bs)
  show "live_blocks h' bs = live_blocks h bs" using c by (simp add: live_blocks_def changes_def)
  have zs: "mm.ok_blocks zs" using d(6) by simp
  have "keeps (live (heap_listp h + 8) zs \<union> live (p + n) ys) h h'"
    by (rule keeps_changes [OF c' zs]) (use z(2) d(7) in auto)
  then show "keeps (live_blocks h bs - {(p, n)}) h h'"
    by (rule keeps_mono) (auto simp: live_blocks_def z)
qed

lemma live_in_heap:
  assumes inv: "heap_inv h bs" and p: "(p, n) \<in> live_blocks h bs" and q: "p \<le> q" "q + 4 \<le> p + n - 8" "4 dvd q"
  shows "in_heap h q"
proof -
  have ok: "mm.ok_blocks (tl bs)" "heap_listp h + 8 + total (tl bs) = heap_listp h + total bs"
    using inv by (cases bs; simp add: heap_inv_def)+
  have "heap_listp h + 8 \<le> p" "p + n \<le> heap_listp h + total bs"
    using live_bounds [OF p [unfolded live_blocks_def] ok(1)] ok(2) by auto
  then show ?thesis using q by (intro heap_inv_in_heap [OF inv]) auto
qed

lemma live_aligned:
  assumes inv: "heap_inv h bs" and p: "(p, n) \<in> live_blocks h bs"
  shows "8 dvd p" and "ok_size n" and "mem_start_brk h + 16 \<le> p" and "p + n \<le> mem_brk h"
    and "GET h (p - 4) = Some (PACK n True)"
proof -
  obtain zs ys where z: "tl bs = zs @ (n, True) # ys" "p = heap_listp h + 8 + total zs"
    using live_mem p unfolding live_blocks_def by metis
  have bs: "bs = ((8, True) # zs) @ (n, True) # ys" using z inv by (cases bs) (auto simp: heap_inv_def)
  have inv': "heap_inv h (((8, True) # zs) @ (n, True) # ys)" using inv bs by simp
  note d = heap_inv_D [OF inv']
  show "ok_size n" by (rule d(1))
  have zs: "mm.ok_blocks zs" using d(6) by simp
  show "8 dvd p" using dvd_total [OF zs] d(9) z(2) by simp
  show "GET h (p - 4) = Some (PACK n True)" using d(10) z(2) by (simp add: add.assoc)
  have "heap_listp h = mem_start_brk h + 8" "mem_brk h = heap_listp h + total bs" using inv by (auto simp: heap_inv_def)
  then show "mem_start_brk h + 16 \<le> p" "p + n \<le> mem_brk h"
    using mm.total_nonneg [OF zs] d(5) z(2) bs by auto
qed

lemma keepsD: "keeps L h h' \<Longrightarrow> (q, k) \<in> L \<Longrightarrow> q \<le> x \<Longrightarrow> x < q + k - 8 \<Longrightarrow> GET h' x = GET h x"
  by (fastforce simp: keeps_def)

lemma mm_realloc_spec:
  assumes inv: "heap_inv h bs" "coalesced bs" and p: "(p, n) \<in> live_blocks h bs"
    and sz: "0 < sz" "sz \<le> 2 ^ 32 - 16" and mx: "mem_max_addr h < 2 ^ 32" and room: "has_room sz h bs"
  shows "\<exists>p' h' bs'. mm_realloc p sz h = Some (p', h') \<and> p' \<noteq> 0 \<and> heap_inv h' bs' \<and> coalesced bs' \<and>
    live_blocks h' bs' = insert (p', adjusted sz) (live_blocks h bs - {(p, n)}) \<and> mem_max_addr h' = mem_max_addr h \<and>
    keeps (live_blocks h bs - {(p, n)}) h h' \<and>
    (\<forall>x. 0 \<le> x \<and> 4 dvd x \<and> x < min n (adjusted sz) - 8 \<longrightarrow> GET h' (p' + x) = GET h (p + x))"
proof -
  note a = adjusted_ok [OF sz]
  note al = live_aligned [OF inv(1) p]
  have p0: "p \<noteq> 0" using al(3) inv(1) by (auto simp: heap_inv_def)
  have n8: "8 dvd n" "8 \<le> n" "n < 2 ^ 32" using al(2) by (auto simp: ok_size_def)
  have a8: "8 \<le> adjusted sz" "adjusted sz < 2 ^ 32" using a(1) by (auto simp: ok_size_def)
  have old: "GET_SIZE h (HDRP p) = Some n" using al(5) n8 by (simp add: macros tag_size_PACK)
  show ?thesis
  proof (cases "adjusted sz = n")
    case True
    then have "mm_realloc p sz h = Some (p, h)" using p0 sz old by (simp add: mm_realloc_def)
    then show ?thesis using True inv p p0
      by (intro exI [of _ p] exI [of _ h] exI [of _ bs]) auto
  next
    case False
    define C where "C = (if adjusted sz < n then adjusted sz else n) - 8"
    obtain p' h1 bs1 where m: "mm_malloc sz h = Some (p', h1)" "p' \<noteq> 0" "heap_inv h1 bs1" "coalesced bs1"
      "live_blocks h1 bs1 = insert (p', adjusted sz) (live_blocks h bs)" "(p', adjusted sz) \<notin> live_blocks h bs"
      "keeps (live_blocks h bs) h h1" "mem_max_addr h1 = mem_max_addr h"
      using mm_malloc_spec [OF inv sz mx room] by blast
    have P: "(p', adjusted sz) \<in> live_blocks h1 bs1" "(p, n) \<in> live_blocks h1 bs1" "(p, n) \<noteq> (p', adjusted sz)"
      using m(5,6) p by auto
    note al' = live_aligned [OF m(3) P(1)]
    have dis: "p + n \<le> p' \<or> p' + adjusted sz \<le> p"
      using live_disjoint [OF P(2,1) [unfolded live_blocks_def]] P(3) m(3) by (cases bs1) (auto simp: heap_inv_def)
    have c: "0 \<le> C" "C \<le> n - 8" "C \<le> adjusted sz - 8" "4 dvd C" "C = min n (adjusted sz) - 8" "C < 2 ^ 32"
      using a(4) n8 a8 by (auto simp: C_def)
    have mo: "C mod 2 ^ 32 = C" using c(1,6) by simp
    let ?k = "nat (C div 4)"
    have k: "int ?k = C div 4" "4 * (C div 4) = C" using c(1,4) by auto
    have i: "in_heap h1 (p + 4 * j) \<and> in_heap h1 (p' + 4 * j)" if "0 \<le> j" "j < int ?k" for j
    proof -
      have "4 * j + 4 \<le> C" using that k c(4) by linarith
      then show ?thesis using that c al(1) al'(1)
        by (intro conjI live_in_heap [OF m(3) P(2)] live_in_heap [OF m(3) P(1)]) auto
    qed
    have dd: "p' + 4 * int ?k \<le> p \<or> p + 4 * int ?k \<le> p'" using dis c(2,3) k by linarith
    obtain h2 where h2: "copy_words ?k p' p h1 = Some h2" "changes h1 h2 (p' + 4) (p' + C + 4)"
      "\<forall>j. 0 \<le> j \<and> j < int ?k \<longrightarrow> GET h2 (p' + 4 * j) = GET h1 (p + 4 * j)"
      using copy_words_ok [OF i dd] unfolding k by auto
    note pay = heap_inv_changes_payload [OF m(3) P(1) h2(2) c(3)]
    have P2: "(p, n) \<in> live_blocks h2 bs1" using pay(2) P(2) by simp
    obtain h3 bs3 where f: "mm_free p h2 = Some h3" "heap_inv h3 bs3" "coalesced bs3"
      "live_blocks h3 bs3 = live_blocks h2 bs1 - {(p, n)}" "keeps (live_blocks h2 bs1 - {(p, n)}) h2 h3" "mem_max_addr h3 = mem_max_addr h2"
      using mm_free_spec [OF pay(1) m(4) P2] by blast
    have d3: "\<not> (p' < p + C \<and> p < p' + C)" using dis c(2,3) by linarith
    have "memcpy p' p C h1 = Some h2" unfolding memcpy_def if_not_P [OF d3] by (rule h2(1))
    then have r: "mm_realloc p sz h = Some (p', h3)"
      using p0 sz old False m(1,2) f(1) mo by (simp add: mm_realloc_def DSIZE_def C_def)
    have L: "live_blocks h3 bs3 = insert (p', adjusted sz) (live_blocks h bs - {(p, n)})"
      using f(4) pay(2) m(5) P(3) by auto
    have "keeps (live_blocks h bs - {(p, n)}) h h3"
    proof (rule keeps_trans, rule keeps_trans)
      show "keeps (live_blocks h bs - {(p, n)}) h h1" by (rule keeps_mono [OF m(7)]) auto
      show "keeps (live_blocks h bs - {(p, n)}) h1 h2" by (rule keeps_mono [OF pay(3)]) (use m(5,6) in auto)
      show "keeps (live_blocks h bs - {(p, n)}) h2 h3" by (rule keeps_mono [OF f(5)]) (use m(5) pay(2) in auto)
    qed
    moreover have "GET h3 (p' + x) = GET h (p + x)" if x: "0 \<le> x" "4 dvd x" "x < min n (adjusted sz) - 8" for x
    proof -
      have "(p', adjusted sz) \<in> live_blocks h2 bs1 - {(p, n)}" using P pay(2) by auto
      then have "GET h3 (p' + x) = GET h2 (p' + x)" by (rule keepsD [OF f(5)]) (use x in auto)
      also have "\<dots> = GET h1 (p + x)"
      proof -
        obtain j where j: "x = 4 * j" using x(2) by blast
        then have "0 \<le> j \<and> j < int ?k" using x c(5) k by auto
        then show ?thesis using h2(3) j by blast
      qed
      also have "\<dots> = GET h (p + x)" by (rule keepsD [OF m(7) p]) (use x in auto)
      finally show ?thesis .
    qed
    moreover have "mem_max_addr h3 = mem_max_addr h" using f(6) m(8) h2(2) by (simp add: changes_def)
    ultimately show ?thesis using r m(2) f(2,3) L by blast
  qed
qed

section \<open>Reallocation in place\<close>

text \<open>\<open>coalesce\<close> of a free block behind an allocated one changes words from that block on only.\<close>

lemma coalesce_after:
  assumes inv: "heap_inv h (zs @ (r, False) # ys)" and z: "zs \<noteq> []" "snd (last zs)"
  defines "bp \<equiv> heap_listp h + total zs"
  shows "\<exists>h' e ys'. coalesce bp h = Some (bp, h') \<and> heap_inv h' (joined zs r ys) \<and> changes h h' bp (bp + r + e) \<and>
     0 \<le> e \<and> mm.ok_blocks ys' \<and> (\<forall>b. live b ys = live (b + e) ys')"
proof -
  note a = heap_inv_around [OF inv z(1), folded bp_def]
  obtain p where p: "last zs = (p, True)" using z(2) by (cases "last zs") auto
  obtain bp' h' where j: "coalesce bp h = Some (bp', h')" "heap_inv h' (joined zs r ys)"
    using coalesce_joined [OF inv z(1)] unfolding bp_def by blast
  have ok: "mm.ok_blocks ys" using heap_inv_D(7) [OF inv] .
  show ?thesis
  proof (cases "ys = [] \<or> snd (hd ys)")
    case True
    then obtain q where "(if ys = [] then (0, True) else hd ys) = (q, True)" by (cases ys) auto
    then have "coalesce bp h = Some (bp, h)" using a p coalesce_keep by simp
    then show ?thesis using j ok
      by (intro exI [of _ h] exI [of _ 0] exI [of _ ys]) (simp add: changes_refl)
  next
    case False
    then obtain m ys' where y: "ys = (m, False) # ys'" by (cases ys) auto
    have a': "around h bp (p, True) r (m, False)" using a by (simp add: p y)
    note da = aroundD [OF a']
    have m: "0 \<le> total ys'" using ok y mm.total_nonneg by simp
    have s: "r + m < 2 ^ 32" using heap_inv_D(3,4) [OF inv] m y by simp
    note n = coalesce_next [OF a' s]
    have i: "in_heap h (bp - 4)" "in_heap h (bp + (r + m) - 8)"
      using da(18,23) by (auto dest: GET_in_heap simp: algebra_simps)
    have h': "h' = put (put h (bp - 4) (PACK (r + m) False)) (bp + (r + m) - 8) (PACK (r + m) False)"
      using j(1) unfolding n by auto
    have "changes h h' bp (bp + (r + m))"
      unfolding h' by (rule changes_trans [OF changes_put changes_put]) (use i da in auto)
    moreover have "coalesce bp h = Some (bp, h')" using n h' by simp
    ultimately show ?thesis using j(2) ok da(10) y
      by (intro exI [of _ h'] exI [of _ m] exI [of _ ys']) (simp add: add.assoc)
  qed
qed

lemma mm_realloc_shrinks:
  assumes inv: "heap_inv h bs" "coalesced bs" and p: "(p, n) \<in> live_blocks h bs"
    and sz: "0 < sz" "sz \<le> 2 ^ 32 - 16" and null: "mm_malloc sz h = Some (0, h)" and less: "adjusted sz < n"
  shows "\<exists>h' bs'. mm_realloc p sz h = Some (p, h') \<and> heap_inv h' bs' \<and> coalesced bs' \<and>
    live_blocks h' bs' = insert (p, adjusted sz) (live_blocks h bs - {(p, n)}) \<and> mem_max_addr h' = mem_max_addr h \<and>
    keeps (live_blocks h bs - {(p, n)}) h h' \<and> (\<forall>x. 0 \<le> x \<and> x < adjusted sz - 8 \<longrightarrow> GET h' (p + x) = GET h (p + x))"
proof -
  let ?a = "adjusted sz" and ?r = "n - adjusted sz"
  obtain zs ys where z: "tl bs = zs @ (n, True) # ys" "p = heap_listp h + 8 + total zs"
    using live_mem p unfolding live_blocks_def by metis
  let ?xs = "(8, True) # zs"
  have bs: "bs = ?xs @ (n, True) # ys" using z inv(1) by (cases bs) (auto simp: heap_inv_def)
  have inv1: "heap_inv h (?xs @ (n, True) # ys)" using inv(1) bs by simp
  note d = heap_inv_D [OF inv1]
  have pe: "p = heap_listp h + total ?xs" using z(2) by simp
  have ok: "ok_size ?a" "ok_size ?r" "8 \<le> ?a" "8 \<le> ?r" "8 dvd ?a" "8 dvd ?r"
    using adjusted_ok [OF sz] d(1) less by (auto simp: ok_size_def intro!: zdvd_imp_le)
  have t: "tag_size (PACK n True) = n" "tag_size (PACK ?a True) = ?a" "tag_size (PACK ?r False) = ?r"
    using ok d(1) by (auto simp: ok_size_def tag_size_PACK)
  have p8: "8 dvd p" "0 < p" using d(4,8,9) dvd_total [OF d(6)] by (auto simp: pe)
  have i: "in_heap h q" if "p - 4 \<le> q" "q < p + n" "4 dvd q" for q
    by (rule heap_inv_in_heap [OF inv1]) (use that d(4,5) pe in auto)
  let ?h2 = "tags (tags h p ?a True) (p + ?a) ?r False"
  have i1: "in_heap h (p - 4)" "in_heap h (p + ?a - 8)" "in_heap h (p + ?a - 4)" "in_heap h (p + ?a + ?r - 8)"
    by (rule i; use ok p8 less in \<open>simp; presburger\<close>)+
  have c1: "changes h (tags h p ?a True) p (p + ?a)" "changes (tags h p ?a True) ?h2 (p + ?a) (p + n)"
    by (rule changes_tags; use i1 ok in simp)+
  have c: "changes h ?h2 p (p + n)" by (rule changes_trans [OF c1]) (use ok in auto)
  have "heap_inv ?h2 (?xs @ [(?a, True), (?r, False)] @ ys)"
    by (rule heap_inv_replace [OF _ _ c, of _ "[(n, True)]"]) (use inv1 i1 ok pe in \<open>auto simp: GET_tags\<close>)
  then have inv2: "heap_inv ?h2 ((?xs @ [(?a, True)]) @ (?r, False) # ys)" by simp
  have lp: "heap_listp ?h2 = heap_listp h" by (simp add: tags_def)
  obtain h' e ys' where h': "coalesce (p + ?a) ?h2 = Some (p + ?a, h')" "heap_inv h' (joined (?xs @ [(?a, True)]) ?r ys)"
    "changes ?h2 h' (p + ?a) (p + ?a + ?r + e)" "0 \<le> e" "mm.ok_blocks ys'" "\<forall>b. live b ys = live (b + e) ys'"
    using coalesce_after [OF inv2] lp pe by (auto simp: add.assoc)
  have "mm_realloc_in_place p ?a n cs h = Some (p, h')" for cs
    unfolding mm_realloc_in_place_def
    using t i1 ok h'(1) less by (simp add: macros PUT_eq GET_put tags_def Let_def)
  moreover have "GET h (p - 4) = Some (PACK n True)" using d(10) pe by simp
  ultimately have r: "mm_realloc p sz h = Some (p, h')"
    unfolding mm_realloc_def Let_def using p8(2) sz less null t(1) by (simp add: macros)
  have c3: "changes h h' p (p + n + e)" by (rule changes_trans [OF c h'(3)]) (use ok h'(4) in auto)
  have lp': "heap_listp h' = heap_listp h" using c3 by (simp add: changes_def)
  have zs: "mm.ok_blocks zs" using d(6) by simp
  have "(p, n) \<notin> live (heap_listp h + 8) zs \<union> live (p + n) ys"
    using live_bounds [OF _ zs, of p n "heap_listp h + 8"] live_bounds [OF _ d(7), of p n "p + n"] d(1) z(2)
    by (auto simp: ok_size_def)
  then have L0: "live_blocks h bs - {(p, n)} = live (heap_listp h + 8) zs \<union> live (p + n) ys"
    by (auto simp: live_blocks_def z)
  have "tl (joined (?xs @ [(?a, True)]) ?r ys) = joined (zs @ [(?a, True)]) ?r ys"
    by (cases ys) (simp_all add: joined_def Let_def)
  then have "live_blocks h' (joined (?xs @ [(?a, True)]) ?r ys) = insert (p, ?a) (live (heap_listp h + 8) zs \<union> live (p + n) ys)"
    using live_joined [of "heap_listp h + 8" "zs @ [(?a, True)]" ?r ys]
    by (simp add: live_blocks_def lp' z(2) add.assoc)
  moreover have "keeps (live (heap_listp h + 8) zs \<union> live (p + n + e) ys') h h'"
    by (rule keeps_changes [OF c3 zs]) (use z(2) h'(5) in auto)
  moreover have "coalesced (joined (?xs @ [(?a, True)]) ?r ys)"
    by (rule coalesced_joined)
      (use inv(2) bs coalesced_append [of ?xs "(n, True) # ys"] coalesced_append [of "[(n, True)]" ys]
        coalesced_append [of ?xs "[(?a, True)]"] in auto)
  moreover have "GET h' (p + x) = GET h (p + x)" if "0 \<le> x" "x < ?a - 8" for x
    using that h'(3) i1 less by (simp add: changes_def GET_tags)
  moreover have "mem_max_addr h' = mem_max_addr h" using c3 by (simp add: changes_def)
  ultimately show ?thesis using r h'(2,6) L0 by (intro exI [of _ h'] exI [of _ "joined (?xs @ [(?a, True)]) ?r ys"]) simp
qed

text \<open>Requests that \<open>mm_realloc\<close> serves as it should: memory is left, or the block need not grow.\<close>

definition served :: "heap \<Rightarrow> int \<Rightarrow> int \<Rightarrow> bool" where
  "served h n sz \<longleftrightarrow> adjusted sz \<le> n \<or> map_option fst (mm_malloc sz h) \<noteq> Some 0"

lemma no_room_null:
  "heap_inv h bs \<Longrightarrow> 0 < sz \<Longrightarrow> safe_size h sz \<Longrightarrow> \<not> has_room sz h bs \<Longrightarrow> mm_malloc sz h = Some (0, h)"
  unfolding has_room_def de_Morgan_disj not_not not_le by (elim conjE) (rule malloc_null)

lemma mm_malloc_any:
  assumes inv: "heap_inv h bs" "coalesced bs" and sz: "safe_size h sz"
  shows "\<exists>p h' bs'. mm_malloc sz h = Some (p, h') \<and> heap_inv h' bs' \<and> coalesced bs' \<and> mem_max_addr h' = mem_max_addr h \<and>
    live_blocks h' bs' = (if p = 0 then live_blocks h bs else insert (p, adjusted sz) (live_blocks h bs))"
proof -
  consider "sz = 0" | "0 < sz" "has_room sz h bs" | "0 < sz" "\<not> has_room sz h bs"
    using sz by (fastforce simp: safe_size_def)
  then show ?thesis
  proof cases
    case 1
    then show ?thesis using inv by (auto simp: mm_malloc_def)
  next
    case 2
    show ?thesis using mm_malloc_spec [OF inv 2(1) safe_has_room [OF inv(1) 2(1) sz 2(2)] 2(2)] by auto
  next
    case 3
    then show ?thesis using no_room_null [OF inv(1) 3(1) sz 3(2)] inv by auto
  qed
qed

lemma mm_realloc_any:
  assumes inv: "heap_inv h bs" "coalesced bs" and p: "(p, n) \<in> live_blocks h bs"
    and sz: "0 < sz" "safe_size h sz" and ok: "served h n sz"
  shows "\<exists>p' h' bs'. mm_realloc p sz h = Some (p', h') \<and> heap_inv h' bs' \<and> coalesced bs' \<and> mem_max_addr h' = mem_max_addr h \<and>
    live_blocks h' bs' = insert (p', adjusted sz) (live_blocks h bs - {(p, n)})"
proof (cases "has_room sz h bs")
  case True
  show ?thesis using mm_realloc_spec [OF inv p sz(1) safe_has_room [OF inv(1) sz True] True] by blast
next
  case False
  have s: "sz \<le> 2 ^ 32 - 16" using sz(2) by (simp add: safe_size_def)
  have null: "mm_malloc sz h = Some (0, h)" by (rule no_room_null [OF inv(1) sz False])
  note al = live_aligned [OF inv(1) p]
  show ?thesis
  proof (cases "adjusted sz = n")
    case True
    have "mm_realloc p sz h = Some (p, h)"
      using True al inv(1) sz(1) by (auto simp: mm_realloc_def macros tag_size_PACK ok_size_def heap_inv_def)
    then show ?thesis using inv p True by (intro exI [of _ p] exI [of _ h] exI [of _ bs]) auto
  next
    case F: False
    then have "adjusted sz < n" using ok null by (simp add: served_def)
    from mm_realloc_shrinks [OF inv p sz(1) s null this] show ?thesis by blast
  qed
qed

section \<open>Sessions of a client\<close>

text \<open>
  A client initialises the allocator and then allocates, frees, reallocates and writes to its own
  blocks, in any order; it may pass 0 and the null pointer as C allows. \<open>L\<close> collects the addresses
  and block sizes it was given and has not freed. Two kinds of calls are left out, because they
  break the heap: a request outside \<open>safe_size\<close> (see \<open>mm_malloc_small\<close> and \<open>mm_malloc_break_wraps\<close>)
  and a reallocation that lets a block grow when no memory is left (see \<open>mm_realloc_steals\<close>).
\<close>

inductive session :: "heap \<Rightarrow> heap \<Rightarrow> (int \<times> int) set \<Rightarrow> bool" for h0 where
  init: "mm_init h0 = Some (0, h) \<Longrightarrow> session h0 h {}"
| malloc: "session h0 h L \<Longrightarrow> safe_size h sz \<Longrightarrow> mm_malloc sz h = Some (p, h') \<Longrightarrow>
    session h0 h' (if p = 0 then L else insert (p, adjusted sz) L)"
| free: "session h0 h L \<Longrightarrow> (p, n) \<in> L \<Longrightarrow> mm_free p h = Some h' \<Longrightarrow> session h0 h' (L - {(p, n)})"
| free_null: "session h0 h L \<Longrightarrow> mm_free 0 h = Some h' \<Longrightarrow> session h0 h' L"
| realloc: "session h0 h L \<Longrightarrow> (p, n) \<in> L \<Longrightarrow> 0 < sz \<Longrightarrow> safe_size h sz \<Longrightarrow> served h n sz \<Longrightarrow>
    mm_realloc p sz h = Some (p', h') \<Longrightarrow> session h0 h' (insert (p', adjusted sz) (L - {(p, n)}))"
| realloc_null: "session h0 h L \<Longrightarrow> safe_size h sz \<Longrightarrow> mm_realloc 0 sz h = Some (p, h') \<Longrightarrow>
    session h0 h' (if p = 0 then L else insert (p, adjusted sz) L)"
| realloc_zero: "session h0 h L \<Longrightarrow> (p, n) \<in> L \<Longrightarrow> mm_realloc p 0 h = Some (p', h') \<Longrightarrow> session h0 h' (L - {(p, n)})"
| store: "session h0 h L \<Longrightarrow> (p, n) \<in> L \<Longrightarrow> p \<le> q \<Longrightarrow> q + 4 \<le> p + (n - 8) \<Longrightarrow> PUT h q w = Some h' \<Longrightarrow>
    session h0 h' L"

definition fresh :: "heap \<Rightarrow> bool" where
  "fresh h \<longleftrightarrow> 8 dvd mem_start_brk h \<and> 0 < mem_start_brk h \<and> mem_brk h = mem_start_brk h \<and>
     mem_max_addr h - mem_start_brk h \<le> 2 ^ 30 \<and> 4112 \<le> mem_max_addr h - mem_start_brk h"

lemma live_nonzero: "heap_inv h bs \<Longrightarrow> (p, n) \<in> live_blocks h bs \<Longrightarrow> p \<noteq> 0"
  using live_aligned(3) [of h bs p n] by (auto simp: heap_inv_def)

lemma session_inv:
  assumes "session h0 h L" and "fresh h0" "mem_max_addr h0 < 2 ^ 32"
  shows "\<exists>bs. heap_inv h bs \<and> coalesced bs \<and> live_blocks h bs = L"
  using assms(1)
proof induction
  case (init h)
  then show ?case
    using mm_init_ok [of h0] assms(2,3) by (force simp: fresh_def live_blocks_def)
next
  case (malloc h L sz p h')
  then show ?case using mm_malloc_any [of h _ sz] by fastforce
next
  case (free h L p n h')
  then show ?case using mm_free_spec [of h _ p n] by (metis option.inject)
next
  case (free_null h L h')
  then show ?case by (auto simp: mm_free_def)
next
  case (realloc h L p n sz p' h')
  then show ?case using mm_realloc_any [of h _ p n sz] by fastforce
next
  case (realloc_null h L sz p h')
  then show ?case using mm_malloc_any [of h _ sz] by (fastforce simp: mm_realloc_def)
next
  case (realloc_zero h L p n p' h')
  then obtain bs where bs: "heap_inv h bs" "coalesced bs" "live_blocks h bs = L" by blast
  have "mm_free p h = Some h'"
    using realloc_zero.hyps(3) live_nonzero [OF bs(1), of p n] realloc_zero.hyps(2) bs(3)
    by (auto simp: mm_realloc_def bind_eq_Some_conv)
  then show ?case using mm_free_spec [OF bs(1,2), of p n] realloc_zero.hyps(2) bs(3) by auto
next
  case (store h L p n q w h')
  then obtain bs where bs: "heap_inv h bs" "coalesced bs" "live_blocks h bs = L" by blast
  have "in_heap h q" and h': "h' = put h q w" using store.hyps(5) by (auto simp: PUT_def put_def split: if_splits)
  then have "changes h h' (p + 4) (p + (n - 8) + 4)"
    unfolding h' by (intro changes_put) (use store.hyps in auto)
  then show ?case
    using heap_inv_changes_payload [OF bs(1), of p n h' "n - 8"] store.hyps(2) bs by auto
qed

text \<open>C1: A client allocates, frees, reallocates and stores in any order, with any sizes that do not
  reach the end of the 32-bit types, and never lets a block grow when memory is out. The blocks it
  holds are then aligned to eight bytes, lie inside the heap behind the prologue and do not
  overlap, and each is as long as its header says.\<close>

theorem session_safe:
  assumes "fresh h0" and "mem_max_addr h0 < 2 ^ 32" and "session h0 h L"
  shows "(\<forall>(p, n) \<in> L. 8 dvd p \<and> mem_start_brk h + 16 \<le> p \<and> p + n \<le> mem_brk h \<and> GET_SIZE h (HDRP p) = Some n) \<and>
    (\<forall>(p, n) \<in> L. \<forall>(q, m) \<in> L. (p, n) = (q, m) \<or> p + n \<le> q \<or> q + m \<le> p)"
proof (intro conjI)
  obtain bs where bs: "heap_inv h bs" "live_blocks h bs = L" using session_inv [OF assms(3,1,2)] by blast
  show "\<forall>(p, n) \<in> L. 8 dvd p \<and> mem_start_brk h + 16 \<le> p \<and> p + n \<le> mem_brk h \<and> GET_SIZE h (HDRP p) = Some n"
    using live_aligned [OF bs(1)] unfolding bs(2) by (fastforce simp: macros tag_size_PACK ok_size_def)
  have "mm.ok_blocks (tl bs)" using bs(1) by (cases bs) (auto simp: heap_inv_def)
  then show "\<forall>(p, n) \<in> L. \<forall>(q, m) \<in> L. (p, n) = (q, m) \<or> p + n \<le> q \<or> q + m \<le> p"
    using live_disjoint [of _ _ "heap_listp h + 8" "tl bs"] unfolding bs(2) [symmetric] live_blocks_def by blast
qed

text \<open>A heap of one megabyte at address 4096, before initialisation.\<close>

definition demo_fresh :: heap where
  "demo_fresh = \<lparr>words = \<lambda>_. 0, mem_start_brk = 4096, mem_brk = 4096, mem_max_addr = 4096 + 2 ^ 20,
     heap_listp = 0, start_brk = 0, final_brk = 0\<rparr>"

lemma demo_fresh_ok: "fresh demo_fresh" "mem_max_addr demo_fresh < 2 ^ 32"
  by (simp_all add: fresh_def demo_fresh_def)

lemma demo_session: "\<exists>h p. session demo_fresh h {(p, 16)} \<and> mem_max_addr h = 4096 + 2 ^ 20"
proof -
  obtain h1 where i: "mm_init demo_fresh = Some (0, h1)" "heap_inv h1 [(8, True), (4096, False)]"
    "mem_max_addr h1 = 4096 + 2 ^ 20"
    using mm_init_ok [of demo_fresh] demo_fresh_ok by (auto simp: fresh_def demo_fresh_def)
  have a: "adjusted 1 = 16" by (simp add: adjusted_def DSIZE_def)
  have "has_room 1 h1 [(8, True), (4096, False)]" by (simp add: has_room_def a)
  then obtain p h2 where "mm_malloc 1 h1 = Some (p, h2)" "p \<noteq> 0" and m: "mem_max_addr h2 = mem_max_addr h1"
    using mm_malloc_spec [OF i(2), of 1] i(3) by auto
  then have "session demo_fresh h2 (if p = 0 then {} else insert (p, adjusted 1) {})"
    by (intro session.malloc [OF session.init [OF i(1)]]) (auto simp: safe_size_def i(3))
  then show ?thesis using \<open>p \<noteq> 0\<close> a m i(3) by auto
qed

lemma session_safe_witness:
  "\<exists>h p. session demo_fresh h {(p, 16)} \<and> 8 dvd p \<and> p + 16 \<le> mem_brk h"
proof -
  obtain h p where s: "session demo_fresh h {(p, 16)}" using demo_session by blast
  from session_safe [OF demo_fresh_ok s, THEN conjunct1] s show ?thesis by auto
qed

text \<open>C5: In every state of a session the next call returns, without touching a word outside the
  heap: allocation of any size that does not reach the end of the 32-bit types, release of any block
  the client holds, and its reallocation unless it must grow when memory is out.\<close>

theorem session_progress:
  assumes "fresh h0" and "mem_max_addr h0 < 2 ^ 32" and "session h0 h L"
  shows "(\<forall>sz. safe_size h sz \<longrightarrow> (\<exists>p h'. mm_malloc sz h = Some (p, h'))) \<and>
    (\<forall>(p, n) \<in> L. (\<exists>h'. mm_free p h = Some h') \<and>
       (\<forall>sz. safe_size h sz \<and> (sz = 0 \<or> served h n sz) \<longrightarrow> (\<exists>q h'. mm_realloc p sz h = Some (q, h'))))"
proof (intro conjI)
  obtain bs where bs: "heap_inv h bs" "coalesced bs" "live_blocks h bs = L" using session_inv [OF assms(3,1,2)] by blast
  show "\<forall>sz. safe_size h sz \<longrightarrow> (\<exists>p h'. mm_malloc sz h = Some (p, h'))"
    using mm_malloc_any [OF bs(1,2)] by blast
  have "\<exists>h'. mm_free p h = Some h'" if "(p, n) \<in> L" for p n
    using mm_free_spec [OF bs(1,2)] that bs(3) by blast
  moreover have "\<exists>q h'. mm_realloc p sz h = Some (q, h')"
    if p: "(p, n) \<in> L" and sz: "safe_size h sz" "sz = 0 \<or> served h n sz" for p n sz
  proof (cases "sz = 0")
    case True
    then show ?thesis using mm_free_spec [OF bs(1,2), of p n] p bs(3) live_nonzero [OF bs(1), of p n]
      by (auto simp: mm_realloc_def)
  next
    case False
    then have "0 < sz" using sz(1) by (simp add: safe_size_def)
    then show ?thesis using mm_realloc_any [OF bs(1,2), of p n sz] p sz False bs(3) by auto
  qed
  ultimately show "\<forall>(p, n) \<in> L. (\<exists>h'. mm_free p h = Some h') \<and>
      (\<forall>sz. safe_size h sz \<and> (sz = 0 \<or> served h n sz) \<longrightarrow> (\<exists>q h'. mm_realloc p sz h = Some (q, h')))"
    by blast
qed

lemma session_progress_witness:
  "\<exists>h p h' q h''. session demo_fresh h {(p, 16)} \<and> mm_free p h = Some h' \<and> mm_realloc p 5 h = Some (q, h'')"
proof -
  obtain h p where s: "session demo_fresh h {(p, 16)}" "mem_max_addr h = 4096 + 2 ^ 20" using demo_session by blast
  have "safe_size h 5" "served h 16 5"
    by (simp_all add: safe_size_def s(2) served_def adjusted_def DSIZE_def)
  with session_progress [OF demo_fresh_ok s(1), THEN conjunct2] show ?thesis using s(1) by blast
qed

section \<open>Properties of the operations\<close>

text \<open>A full heap of 64 bytes: the prologue and two blocks; the flag says whether the last is allocated.\<close>

definition demo_heap :: "bool \<Rightarrow> heap" where
  "demo_heap f = \<lparr>words = (\<lambda>_. 0)(12 := PACK 8 True, 16 := PACK 8 True, 20 := PACK 16 True, 32 := PACK 16 True,
       36 := PACK 24 f, 56 := PACK 24 f, 60 := PACK 0 True),
     mem_start_brk = 8, mem_brk = 64, mem_max_addr = 64, heap_listp = 16, start_brk = 8, final_brk = 64\<rparr>"

lemma demo_heap_inv: "heap_inv (demo_heap f) [(8, True), (16, True), (24, f)]"
  by (simp add: heap_inv_def demo_heap_def ok_size_def GET_def in_heap_def)

lemma demo_heap_fields [simp]:
  "heap_listp (demo_heap f) = 16" "mem_brk (demo_heap f) = 64" "mem_max_addr (demo_heap f) = 64"
  by (simp_all add: demo_heap_def)

text \<open>C2: Allocation implements first fit on the list of blocks: the block it returns is the first free
  one that is large enough, split when bytes remain, or else the end of the heap extended by the
  larger of the request and 4096 bytes and joined with a free last block; it returns null and
  leaves the heap alone exactly when that is impossible. This holds for every size that does not
  reach the end of the 32-bit types.\<close>

theorem mm_malloc_refines:
  assumes "heap_inv h bs" and "0 < sz" "safe_size h sz"
  shows "case blocks_malloc (adjusted sz) (mem_max_addr h - mem_brk h) bs of
      None \<Rightarrow> mm_malloc sz h = Some (0, h)
    | Some (off, bs') \<Rightarrow> \<exists>h'. mm_malloc sz h = Some (heap_listp h + off, h') \<and> heap_inv h' bs'"
proof (cases "first_fit (adjusted sz) bs")
  case None
  let ?e = "max (adjusted sz) 4096"
  show ?thesis
  proof (cases "mem_max_addr h - mem_brk h < ?e")
    case True
    then show ?thesis using malloc_null [OF assms None] None by (simp add: blocks_malloc_def Let_def)
  next
    case False
    then have "has_room sz h bs" by (simp add: has_room_def)
    note m = safe_has_room [OF assms this]
    obtain h' xs m where "mm_malloc sz h = Some (heap_listp h + total xs, h')" "joined bs ?e [] = xs @ [(m, False)]"
      "heap_inv h' (xs @ placed (adjusted sz) m)"
      using malloc_extend [OF assms(1,2) m None] False by auto
    then show ?thesis using None False by (auto simp: blocks_malloc_def Let_def)
  qed
next
  case (Some r)
  have "sz \<le> 2 ^ 32 - 16" using assms(3) by (simp add: safe_size_def)
  then show ?thesis
    using Some malloc_fit [OF assms(1) adjusted_ok(1) [OF assms(2)], of "fst r" "fst (snd r)" "snd (snd r)"] assms(2)
    by (cases r) (auto simp: blocks_malloc_def)
qed

lemma mm_malloc_refines_witness:
  "\<exists>h'. mm_malloc 5 (demo_heap False) = Some (40, h') \<and> heap_inv h' [(8, True), (16, True), (16, True), (8, False)]"
  using mm_malloc_refines [OF demo_heap_inv, of 5 False]
  by (simp add: blocks_malloc_def adjusted_def DSIZE_def placed_def safe_size_def)

text \<open>C3: Freeing a block makes it free and joins it with its free neighbours on both sides; all other
  blocks keep their place, their tags and their words.\<close>

theorem mm_free_refines:
  assumes "heap_inv h (xs @ (n, True) # ys)" and "xs \<noteq> []"
  shows "\<exists>h'. mm_free (heap_listp h + total xs) h = Some h' \<and> heap_inv h' (joined xs n ys) \<and>
    keeps (live (heap_listp h + 8) (tl xs) \<union> live (heap_listp h + total xs + n) ys) h h'"
  using free_joined [OF assms] by blast

lemma mm_free_refines_witness:
  "\<exists>h'. mm_free 24 (demo_heap False) = Some h' \<and> heap_inv h' [(8, True), (40, False)]"
proof -
  have "heap_inv (demo_heap False) ([(8, True)] @ (16, True) # [(24, False)])" by (simp add: demo_heap_inv)
  note r = mm_free_refines [OF this]
  have j: "joined [(8, True)] 16 [(24, False)] = [(8, True), (40, False)]" by (simp add: joined_def)
  have "heap_listp (demo_heap False) + total [(8, True)] = 24" by simp
  with r j show ?thesis by (metis list.distinct(1))
qed

text \<open>No two neighbouring blocks are free after any allocation, release or reallocation that finds
  memory, if none were before; so the released memory is always available as one block.\<close>

theorem coalesced_kept:
  assumes "heap_inv h bs" "coalesced bs" "0 < sz" "safe_size h sz" "served h n sz" "(p, n) \<in> live_blocks h bs"
  shows "(\<exists>q h' bs'. mm_malloc sz h = Some (q, h') \<and> heap_inv h' bs' \<and> coalesced bs') \<and>
    (\<exists>h' bs'. mm_free p h = Some h' \<and> heap_inv h' bs' \<and> coalesced bs') \<and>
    (\<exists>q h' bs'. mm_realloc p sz h = Some (q, h') \<and> heap_inv h' bs' \<and> coalesced bs')"
  apply (intro conjI)
  subgoal using mm_malloc_any [OF assms(1,2,4)] by blast
  subgoal using mm_free_spec [OF assms(1,2,6)] by blast
  subgoal using mm_realloc_any [OF assms(1,2,6,3-5)] by blast
  done

lemma coalesced_kept_witness:
  "\<exists>h' bs'. mm_free 24 (demo_heap False) = Some h' \<and> heap_inv h' bs' \<and> coalesced bs'"
  by (rule coalesced_kept [of _ _ 1 16 24, OF demo_heap_inv, THEN conjunct2, THEN conjunct1])
    (simp_all add: served_def safe_size_def adjusted_def DSIZE_def live_blocks_def)

text \<open>C4: Reallocation that finds memory keeps the words of the block up to the smaller of the old and
  the new size, keeps every other block of the client, and gives back the old block.\<close>

theorem mm_realloc_keeps:
  assumes "heap_inv h bs" "coalesced bs" "(p, n) \<in> live_blocks h bs" "0 < sz" "sz \<le> 2 ^ 32 - 16"
    and "mem_max_addr h < 2 ^ 32" "has_room sz h bs"
  shows "\<exists>q h' bs'. mm_realloc p sz h = Some (q, h') \<and> heap_inv h' bs' \<and>
    live_blocks h' bs' = insert (q, adjusted sz) (live_blocks h bs - {(p, n)}) \<and>
    keeps (live_blocks h bs - {(p, n)}) h h' \<and>
    (\<forall>x. 0 \<le> x \<and> 4 dvd x \<and> x < min n (adjusted sz) - 8 \<longrightarrow> GET h' (q + x) = GET h (p + x))"
  using mm_realloc_spec [OF assms] by blast

lemma mm_realloc_keeps_witness:
  "\<exists>q h' bs'. mm_realloc 24 12 (demo_heap False) = Some (q, h') \<and>
     live_blocks h' bs' = {(q, 24)} \<and> GET h' (q + 4) = GET (demo_heap False) 28"
proof -
  have l: "live_blocks (demo_heap False) [(8, True), (16, True), (24, False)] = {(24, 16)}"
    by (simp add: live_blocks_def)
  have a: "adjusted 12 = 24" by (simp add: adjusted_def DSIZE_def AGNSIZE_def)
  have "has_room 12 (demo_heap False) [(8, True), (16, True), (24, False)]" by (simp add: has_room_def a)
  from mm_realloc_keeps [OF demo_heap_inv _ _ _ _ _ this, of 24 16]
  obtain q h' bs' where r: "mm_realloc 24 12 (demo_heap False) = Some (q, h')" "live_blocks h' bs' = {(q, 24)}"
    "\<forall>x. 0 \<le> x \<and> 4 dvd x \<and> x < 8 \<longrightarrow> GET h' (q + x) = GET (demo_heap False) (24 + x)"
    by (auto simp: l a)
  have "GET h' (q + 4) = GET (demo_heap False) (24 + 4)" using r(3) by (metis dvd_refl numeral_less_iff semiring_norm(76,78) zero_le_numeral)
  with r(1,2) show ?thesis by auto
qed

text \<open>The walk over the blocks ends at the epilogue: on every well-formed heap the loop of
  \<open>find_fit\<close> returns, with the first free block of at least the wanted size or null.\<close>

lemma find_fit_returns:
  assumes "heap_inv h bs"
  shows "find_fit asize h = Some (case first_fit asize bs of None \<Rightarrow> 0 | Some (xs, _) \<Rightarrow> heap_listp h + total xs)"
  by (rule find_fit_first_fit [OF assms])

lemma find_fit_returns_witness: "find_fit 24 (demo_heap False) = Some 40"
  using find_fit_returns [OF demo_heap_inv, of 24 False] by simp

section \<open>Requests beyond the range of the types\<close>

lemma adjusted_wraps:
  assumes "2 ^ 32 - 15 \<le> sz" "sz < 2 ^ 32"
  shows "adjusted sz = (if sz \<le> 2 ^ 32 - 8 then 0 else 8)"
proof -
  define k where "k = sz + 15 - 2 ^ 32"
  have k: "0 \<le> k" "k < 15" using assms by (simp_all add: k_def)
  have "sz + DSIZE + DSIZE - 1 = k + 2 ^ 32" by (simp add: DSIZE_def k_def)
  then have "(sz + DSIZE + DSIZE - 1) mod 2 ^ 32 = k" using k by simp
  moreover have "\<not> sz \<le> DSIZE" using assms(1) by (simp add: DSIZE_def)
  ultimately have a: "adjusted sz = 8 * (k div 8)" unfolding adjusted_def AGNSIZE_def by (simp only: if_False DSIZE_def)
  show ?thesis
  proof (cases "sz \<le> 2 ^ 32 - 8")
    case True
    then have "k div 8 = 0" using k by (simp add: k_def)
    then show ?thesis using a True by simp
  next
    case False
    then have "k div 8 = 1" using k by (simp add: k_def)
    then show ?thesis using a False by simp
  qed
qed

text \<open>The rounding of a request wraps around: for the seven largest values of \<open>size_t\<close> allocation
  succeeds with a block of eight bytes, which has no payload at all.\<close>

theorem mm_malloc_wraps:
  assumes "heap_inv h bs" "first_fit 8 bs = Some (xs, m, ys)" "2 ^ 32 - 7 \<le> sz" "sz < 2 ^ 32"
  shows "\<exists>h'. mm_malloc sz h = Some (heap_listp h + total xs, h') \<and> heap_inv h' (xs @ placed 8 m @ ys)"
  using malloc_fit [of h bs sz xs m ys] adjusted_wraps [of sz] assms by (auto simp: ok_size_def)

lemma mm_malloc_wraps_witness:
  "\<exists>h'. mm_malloc (2 ^ 32 - 1) (demo_heap False) = Some (40, h') \<and>
     heap_inv h' [(8, True), (16, True), (8, True), (16, False)]"
  using mm_malloc_wraps [OF demo_heap_inv [of False], of "[(8, True), (16, True)]" 24 "[]" "2 ^ 32 - 1"]
  by (simp add: placed_def)

text \<open>The walk of \<open>find_fit\<close> over allocated blocks reads their headers only.\<close>

lemma find_fit_loop_allocated:
  assumes "\<And>us n f vs. zs = us @ (n, f) # vs \<Longrightarrow> GET h (a + total us - 4) = Some (PACK n f) \<and> ok_size n \<and> f"
    and "GET h (a + total zs - 4) = Some (PACK m False)" "ok_size m"
  shows "find_fit_loop h 0 a = Some (a + total zs)"
  using assms
proof (induction zs arbitrary: a)
  case Nil
  then show ?case by (subst find_fit_loop.simps) (simp add: macros tag_size_PACK tag_alloc_PACK ok_size_def)
next
  case (Cons b zs)
  obtain n f where b: "b = (n, f)" by fastforce
  have h: "GET h (a - 4) = Some (PACK n True)" "ok_size n" "f" using Cons.prems(1) [of "[]" n f zs] b by auto
  then have t: "tag_size (PACK n True) = n" "tag_alloc (PACK n True)" "n \<noteq> 0"
    by (auto simp: ok_size_def tag_size_PACK tag_alloc_PACK)
  have IH: "find_fit_loop h 0 (a + n) = Some (a + n + total zs)"
  proof (rule Cons.IH)
    fix us k g vs assume "zs = us @ (k, g) # vs"
    then show "GET h (a + n + total us - 4) = Some (PACK k g) \<and> ok_size k \<and> g"
      using Cons.prems(1) [of "b # us" k g vs] b by (simp add: add.assoc)
  next
    show "GET h (a + n + total zs - 4) = Some (PACK m False)" using Cons.prems(2) b by (simp add: add.assoc)
  qed (rule Cons.prems(3))
  show ?case using h t IH b by (subst find_fit_loop.simps) (simp add: macros add.assoc)
qed

lemma first_fit_0: "first_fit 0 bs = Some (xs, m, ys) \<Longrightarrow> mm.ok_blocks bs \<Longrightarrow> b \<in> set xs \<Longrightarrow> snd b"
proof (induction bs arbitrary: xs)
  case (Cons c bs)
  then have "ok_size (fst c)" "mm.ok_blocks bs" by simp_all
  then have "0 \<le> fst c" "mm.ok_blocks bs" by (simp_all add: ok_size_def)
  with Cons show ?case by (auto split: if_splits)
qed simp

text \<open>What placing no bytes in a free block of size \<open>m\<close> changes: the footer of the block before it, and
  the footer of the block behind it, of size \<open>q\<close>.\<close>

definition clobbered :: "heap \<Rightarrow> int \<Rightarrow> int \<Rightarrow> int \<Rightarrow> heap" where
  "clobbered h p m q = put (put h (p - 8) (PACK 0 True)) (p + m + q - 8) (PACK m False)"

lemma place_0:
  assumes inv: "heap_inv h (xs @ (m, False) # ys)" and ne: "xs \<noteq> []"
  defines "p \<equiv> heap_listp h + total xs" and "q \<equiv> (case ys of [] \<Rightarrow> 0 | b # _ \<Rightarrow> fst b)"
  assumes w: "w = h \<or> w = clobbered h p m q"
  shows "place p 0 w = Some (clobbered h p m q)" "p \<noteq> 0" "8 \<le> m" "0 \<le> q"
    "in_heap h (p - 8)" "in_heap h (p + m + q - 8)" "GET w (p - 4) = Some (PACK m False)"
proof -
  note d = heap_inv_D [OF inv, folded p_def]
  note a = heap_inv_around [OF inv ne, folded p_def]
  have m: "ok_size m" "tag_size (PACK m False) = m" "8 dvd m" "m mod 2 ^ 32 = m"
    using d(1) by (auto simp: ok_size_def tag_size_PACK)
  show m8: "8 \<le> m" using d(1) by (simp add: ok_size_def)
  show "p \<noteq> 0" using d(4,8) by (simp add: p_def)
  have y: "mm.ok_blocks ys" using d(7) .
  then have q: "q = 0 \<or> 8 \<le> q" by (cases ys) (auto simp: q_def ok_size_def)
  then show q0: "0 \<le> q" by auto
  obtain f where nx: "GET h (p + m - 4) = Some (PACK q f)" "tag_size (PACK q f) = q" "q = 0 \<or> GET h (p + m + q - 8) = Some (PACK q f)"
  proof (cases ys)
    case Nil
    then have "q = 0" "GET h (p + m - 4) = Some (PACK 0 True)" using a by (simp_all add: q_def around_def)
    then show ?thesis using that tag_size_PACK [of 0 True] by auto
  next
    case (Cons b zs)
    have "heap_inv h ((xs @ [(m, False)]) @ (fst b, snd b) # zs)" using inv Cons by simp
    note e = heap_inv_D [OF this]
    have "GET h (p + m - 4) = Some (PACK q (snd b))" "GET h (p + m + q - 8) = Some (PACK q (snd b))" "ok_size q"
      using e(1,10,11) Cons by (simp_all add: q_def p_def add.assoc)
    then show ?thesis using that by (auto simp: ok_size_def tag_size_PACK)
  qed
  have i: "in_heap h (p - 4)" "in_heap h (p + m - 4)" using d(10) nx(1) by (auto dest: GET_in_heap)
  show i8: "in_heap h (p - 8)" using a by (auto simp: around_def dest: GET_in_heap)
  show iq: "in_heap h (p + m + q - 8)" using nx(3) d(11) by (auto dest: GET_in_heap)
  have iw: "in_heap w x = in_heap h x" for x using w by (auto simp: clobbered_def)
  have t: "tag_size (PACK 0 True) = 0" by (simp add: tag_size_PACK)
  have gw: "GET w x = GET h x" if "x = p - 4 \<or> x = p + m - 4" for x
    using w that q m8 i8 iq by (auto simp: clobbered_def GET_put)
  show g: "GET w (p - 4) = Some (PACK m False)" using d(10) gw by simp
  have words: "words h (p - 4) = PACK m False" using d(10) i by (simp add: GET_def)
  let ?h = "put (put (put (put w (p - 4) (PACK 0 True)) (p - 8) (PACK 0 True)) (p - 4) (PACK m False)) (p + m + q - 8) (PACK m False)"
  have r: "?h = clobbered h p m q"
    using words w q m8 by (auto simp: clobbered_def put_def fun_eq_iff intro!: heap.equality)
  have even: "\<not> odd (m div 4)" using m(3) by (auto elim!: dvdE)
  have ge: "16 \<le> m \<or> m = 8" using m8 m(3) by presburger
  have ne': "p + m - 4 \<noteq> p - 4" "p + m - 4 \<noteq> p - 8" using m8 by simp_all
  have "place p 0 w = Some ?h"
    using ge
  proof
    assume "16 \<le> m"
    then show ?thesis
      using g m i i8 iq t nx(1,2) gw ne' by (simp add: place_def macros PUT_eq GET_put iw)
  next
    assume "m = 8"
    then show ?thesis
      using g m i i8 iq t nx(1,2) gw ne' by (simp add: place_def macros PUT_eq GET_put iw)
  qed
  then show "place p 0 w = Some (clobbered h p m q)" by (simp only: r)
qed

text \<open>C7: Requests from \<open>2^32-15\<close> to \<open>2^32-8\<close> bytes are rounded to zero. Such a request succeeds with
  the first free block, which stays free, so that the next such request is given the same address;
  the footers of both neighbouring blocks are overwritten, with the tag of an allocated block of size
  0 and with the tag of the free block.\<close>

theorem mm_malloc_small:
  assumes "heap_inv h bs" "first_fit 0 bs = Some (xs, m, ys)" "2 ^ 32 - 15 \<le> sz" "sz \<le> 2 ^ 32 - 8"
  shows "let p = heap_listp h + total xs; h' = clobbered h p m (case ys of [] \<Rightarrow> 0 | b # _ \<Rightarrow> fst b)
    in mm_malloc sz h = Some (p, h') \<and> mm_malloc sz h' = Some (p, h') \<and> IS_ALLOC h' (HDRP p) = Some False"
proof -
  define p q where "p = heap_listp h + total xs" and "q = (case ys of [] \<Rightarrow> 0 | b # _ \<Rightarrow> fst b)"
  let ?h = "clobbered h p m q"
  have bs: "bs = xs @ (m, False) # ys" using first_fit_Some [OF assms(2)] by blast
  obtain xs' where xs: "xs = (8, True) # xs'" using assms(1) bs by (cases xs) (auto simp: heap_inv_def)
  have inv: "heap_inv h (xs @ (m, False) # ys)" and ne: "xs \<noteq> []" using assms(1) bs xs by simp_all
  note d = heap_inv_D [OF inv]
  note pl = place_0 [OF inv ne, folded p_def q_def]
  note k = pl(2,3,4) [of h, simplified] pl(5,6,7) [of h, simplified]
  have a: "adjusted sz = 0" using adjusted_wraps [of sz] assms(3,4) by simp
  have f1: "find_fit 0 h = Some p" using find_fit_first_fit [OF assms(1)] assms(2) by (simp add: p_def)
  have g: "GET ?h (p - x - 4) = GET h (p - x - 4)" if "x = 0 \<or> 8 \<le> x" for x
    using that k by (auto simp: clobbered_def GET_put)
  have lp: "heap_listp ?h = heap_listp h" by (simp add: clobbered_def)
  have hd: "GET ?h (heap_listp h + total us - 4) = Some (PACK n f) \<and> ok_size n \<and> f" if "xs = us @ (n, f) # vs" for us n f vs
  proof -
    have "heap_inv h (us @ (n, f) # (vs @ (m, False) # ys))" using inv that by simp
    note e = heap_inv_D [OF this]
    have "0 \<le> total vs" using e(7) mm.total_nonneg by auto
    then have "GET ?h (heap_listp h + total us - 4) = GET h (heap_listp h + total us - 4)"
      using g [of "n + total vs"] e(1) that by (simp add: p_def ok_size_def algebra_simps)
    then show ?thesis using e(1,10) first_fit_0 [OF assms(2), of "(n, f)"] assms(1) that by (auto simp: heap_inv_def)
  qed
  have "find_fit_loop ?h 0 (heap_listp h + 8) = Some (heap_listp h + 8 + total xs')"
  proof (rule find_fit_loop_allocated)
    show "GET ?h (heap_listp h + 8 + total us - 4) = Some (PACK n f) \<and> ok_size n \<and> f" if "xs' = us @ (n, f) # vs" for us n f vs
      using hd [of "(8, True) # us" n f vs] that xs by (simp add: add.assoc)
    show "GET ?h (heap_listp h + 8 + total xs' - 4) = Some (PACK m False)"
      using g [of 0] k(6) xs by (simp add: p_def add.assoc)
    show "ok_size m" by (rule d(1))
  qed
  moreover have "NEXT_BLKP ?h (heap_listp ?h) = Some (heap_listp h + 8)"
    using hd [of "[]" 8 True xs'] xs lp by (simp add: macros tag_size_PACK)
  ultimately have f2: "find_fit 0 ?h = Some p" by (simp add: find_fit_def p_def xs add.assoc)
  have "mm_malloc sz w = Some (p, ?h)" if "find_fit 0 w = Some p" "place p 0 w = Some ?h" for w
    using that a k(1) assms(3) by (simp add: mm_malloc_def)
  moreover have "IS_ALLOC ?h (HDRP p) = Some False"
    using g [of 0] k(6) d(1) by (simp add: macros tag_alloc_PACK ok_size_def)
  ultimately show ?thesis
    using f1 f2 pl(1) [of h] pl(1) [of ?h] by (simp add: Let_def flip: p_def q_def)
qed

lemma mm_malloc_small_witness:
  "\<exists>h' h''. mm_malloc (2 ^ 32 - 8) (demo_heap False) = Some (40, h') \<and> mm_malloc (2 ^ 32 - 8) h' = Some (40, h'')"
  using mm_malloc_small [OF demo_heap_inv [of False], of "[(8, True), (16, True)]" 24 "[]" "2 ^ 32 - 8"]
  by (simp add: Let_def)

text \<open>When no block fits and the new break would pass the end of the 32-bit address space, the
  comparison of \<open>mem_sbrk\<close> does not see that memory is out: the break moves below the heap, and
  \<open>mm_malloc\<close> writes outside it instead of returning null.\<close>

theorem mm_malloc_break_wraps:
  assumes "heap_inv h bs" "mem_max_addr h < 2 ^ 32" "0 < sz" "sz \<le> 2 ^ 32 - 16" "first_fit (adjusted sz) bs = None"
    and "max (adjusted sz) 4096 < 2 ^ 31" "2 ^ 32 \<le> mem_brk h + max (adjusted sz) 4096"
  shows "mm_malloc sz h = None"
proof -
  let ?e = "max (adjusted sz) 4096" and ?b = "mem_brk h"
  note a = adjusted_ok [OF assms(3,4)]
  have e: "ok_size ?e" "(if CHUNKSIZE < adjusted sz then adjusted sz else CHUNKSIZE) = ?e"
    using a by (auto simp: ok_size_def CHUNKSIZE_def max_def)
  have w: "?e div 4 mod 2 = 0" "?e div 4 * 4 = ?e" "?e mod 2 ^ 32 = ?e" "0 < ?e" "to_int ?e = ?e"
    using e(1) assms(6) by (auto simp: ok_size_def to_int_small elim!: dvdE)
  have b: "?b \<le> mem_max_addr h" "0 < ?b" using assms(1) mm.total_nonneg [of bs] by (auto simp: heap_inv_def)
  have "(?b + ?e) mod 2 ^ 32 = (?b + ?e - 2 ^ 32) mod 2 ^ 32" by (simp add: mod_diff_right_eq)
  also have "\<dots> = ?b + ?e - 2 ^ 32" using b assms(2,6,7) by (intro mod_pos_pos_trivial) auto
  finally have n: "(?b + ?e) mod 2 ^ 32 = ?b + ?e - 2 ^ 32" .
  then have "mem_sbrk ?e h = (?b, h\<lparr>mem_brk := ?b + ?e - 2 ^ 32\<rparr>)"
    using b w(4) assms(6) unfolding mem_sbrk_def n by auto
  moreover have "PUT (h\<lparr>mem_brk := ?b + ?e - 2 ^ 32, final_brk := ?b + ?e\<rparr>) (?b - 4) v = None" for v
  proof -
    have "?e < 2 ^ 32" by (rule less_trans [OF assms(6)]) simp
    then have "\<not> ?b - 4 + 4 \<le> ?b + ?e - 2 ^ 32" by (simp add: not_le)
    then show ?thesis unfolding PUT_def in_heap_def heap.simps by (simp del: diff_add_cancel max_less_iff_conj)
  qed
  ultimately have "extend_heap (?e div 4) h = None"
    using w b by (simp add: extend_heap_def Let_def macros)
  then show ?thesis
    using find_fit_first_fit [OF assms(1), of "adjusted sz"] assms(3,5) e(2) by (simp add: mm_malloc_def Let_def WSIZE_def)
qed

text \<open>A heap with no blocks in the middle of the address space.\<close>

definition demo_middle :: heap where
  "demo_middle = \<lparr>words = (\<lambda>_. 0)(2 ^ 31 + 4 := PACK 8 True, 2 ^ 31 + 8 := PACK 8 True, 2 ^ 31 + 12 := PACK 0 True),
     mem_start_brk = 2 ^ 31, mem_brk = 2 ^ 31 + 16, mem_max_addr = 2 ^ 31 + 16, heap_listp = 2 ^ 31 + 8,
     start_brk = 2 ^ 31, final_brk = 2 ^ 31 + 16\<rparr>"

lemma mm_malloc_break_wraps_witness: "mm_malloc (2 ^ 31 - 16) demo_middle = None"
proof (rule mm_malloc_break_wraps)
  show "heap_inv demo_middle [(8, True)]"
    by (simp add: heap_inv_def demo_middle_def ok_size_def GET_def in_heap_def)
qed (simp_all add: demo_middle_def adjusted_def AGNSIZE_def DSIZE_def)

section \<open>Reallocation without memory\<close>

lemma realloc_steals_exec:
  assumes inv: "heap_inv h (xs @ (n, True) # (m, True) # ys)" and ne: "xs \<noteq> []"
    and sz: "0 < sz" "safe_size h sz" and full: "\<not> has_room sz h (xs @ (n, True) # (m, True) # ys)"
    and grow: "n < adjusted sz" "adjusted sz + 8 \<le> n + m"
    and even: "GET h (heap_listp h + total xs + n) = Some w" "\<not> tag_alloc w"
  shows "\<exists>h'. mm_realloc (heap_listp h + total xs) sz h = Some (heap_listp h + total xs, h') \<and>
    heap_inv h' (joined (xs @ [(adjusted sz, True)]) (n + m - adjusted sz) ys) \<and> heap_listp h' = heap_listp h"
proof -
  let ?p = "heap_listp h + total xs" and ?a = "adjusted sz"
  define r where "r = n + m - adjusted sz"
  have "sz \<le> 2 ^ 32 - 16" using sz(2) by (simp add: safe_size_def)
  note a = adjusted_ok [OF sz(1) this]
  note d = heap_inv_D [OF inv]
  have "heap_inv h ((xs @ [(n, True)]) @ (m, True) # ys)" using inv by simp
  note d2 = heap_inv_D [OF this]
  have z: "8 \<le> n" "8 dvd n" "8 \<le> m" "8 dvd m" "8 \<le> ?a" "8 dvd ?a" "8 \<le> r" "8 dvd r" "?a + r = n + m" "n + m < 2 ^ 32" "r < 2 ^ 32"
    using d(1,3,4) d2(1,5) a(1) grow by (auto simp: ok_size_def r_def)
  have t: "tag_size (PACK n True) = n" "tag_size (PACK m True) = m" "tag_size (PACK ?a True) = ?a" "tag_size (PACK r False) = r"
    using d(1) d2(1) a(1) z d(3,4) d2(5) by (auto simp: ok_size_def tag_size_PACK)
  have p8: "8 dvd ?p" "0 < ?p" using d(4,8,9) dvd_total [OF d(6)] by auto
  have i: "in_heap h q" if "?p - 4 \<le> q" "q < ?p + (n + m)" "4 dvd q" for q
    by (rule heap_inv_in_heap [OF inv]) (use that d(4,5) d2(5) in auto)
  let ?h1 = "tags h ?p ?a True" and ?h2 = "tags (tags h ?p ?a True) (?p + ?a) r False"
  have i1: "in_heap h (?p - 4)" "in_heap h (?p + ?a - 8)" "in_heap h (?p + ?a - 4)" "in_heap h (?p + ?a + r - 8)"
    by (rule i; use z p8 grow in \<open>simp; presburger\<close>)+
  have c: "changes h ?h2 ?p (?p + (n + m))"
    by (rule changes_trans [OF changes_tags changes_tags]) (use i1 z grow in auto)
  have inv2: "heap_inv ?h2 (xs @ [(?a, True), (r, False)] @ ys)"
    by (rule heap_inv_replace [OF _ ne c, of "[(n, True), (m, True)]"])
      (use inv i1 z a(1) grow d(3,4) d2(5) in \<open>auto simp: GET_tags ok_size_def\<close>)
  have lp: "heap_listp ?h2 = heap_listp h" by (simp add: tags_def)
  obtain bp' h' where co: "coalesce (?p + ?a) ?h2 = Some (bp', h')" "heap_inv h' (joined (xs @ [(?a, True)]) r ys)"
    and cl: "heap_listp h' = heap_listp h"
    using coalesce_joined [of ?h2 "xs @ [(?a, True)]" r ys] inv2 lp by (auto simp: changes_def add.assoc)
  have prev: "\<exists>k f. GET h (?p - 8) = Some (PACK k f) \<and> tag_size (PACK k f) = k \<and> GET h (?p - k) \<noteq> None"
  proof -
    obtain zs k f where x: "xs = zs @ [(k, f)]" using ne by (cases xs rule: rev_cases) auto
    have "heap_inv h (zs @ (k, f) # ((n, True) # (m, True) # ys))" using inv by (simp add: x)
    note dk = heap_inv_D [OF this]
    have zs: "0 \<le> total zs" "8 dvd total zs" "0 \<le> total ys" using dk(4) dvd_total [OF dk(6)] d2(5) by auto
    have "4 dvd heap_listp h + total zs" using zs(2) dk(9) by presburger
    then have "in_heap h (heap_listp h + total zs)"
      by - (rule heap_inv_in_heap [OF inv], use zs z dk(1,9) x in \<open>auto simp: ok_size_def\<close>)
    then have "GET h (heap_listp h + total zs) \<noteq> None" by (simp add: GET_def)
    then show ?thesis using dk(1,11) by (intro exI [of _ k] exI [of _ f]) (auto simp: x ok_size_def tag_size_PACK algebra_simps)
  qed
  then obtain k f v where pr: "GET h (?p - 8) = Some (PACK k f)" "tag_size (PACK k f) = k" "GET h (?p - k) = Some v" by blast
  have null: "mm_malloc sz h = Some (0, h)" by (rule no_room_null [OF inv sz full])
  have hdr: "GET h (?p - 4) = Some (PACK n True)" "GET h (?p + n - 4) = Some (PACK m True)"
    using d(10) d2(10) by (simp_all add: add.assoc)
  have step: "mm_realloc_in_place ?p ?a n cs h = Some (?p, h')" for cs
    using pr hdr even t i1 z grow co(1)
    unfolding mm_realloc_in_place_def
    by (simp add: macros PUT_eq GET_put tags_def r_def [symmetric] Let_def add.commute [of m n])
  have "mm_realloc ?p sz h = Some (?p, h')"
    unfolding mm_realloc_def Let_def using p8(2) sz hdr t(1) grow null step
    by (simp add: GET_SIZE_def HDRP_def WSIZE_def)
  then show ?thesis using co(2) cl by (auto simp: r_def)
qed

text \<open>C6: When no memory is left, \<open>mm_realloc\<close> looks for the allocated bit of the neighbours in their
  payloads instead of their headers. If the first word the client has stored in the next block is
  even, a larger size is granted by taking that block away although it is allocated: it is no
  longer among the allocated blocks, and the two clients' data overlap.\<close>

theorem mm_realloc_steals:
  assumes "heap_inv h (xs @ (n, True) # (m, True) # ys)" "xs \<noteq> []" "0 < sz" "safe_size h sz"
    and "\<not> has_room sz h (xs @ (n, True) # (m, True) # ys)"
    and "n < adjusted sz" "adjusted sz + 8 \<le> n + m"
    and "GET h (heap_listp h + total xs + n) = Some w" "\<not> tag_alloc w"
  shows "\<exists>h' bs'. mm_realloc (heap_listp h + total xs) sz h = Some (heap_listp h + total xs, h') \<and> heap_inv h' bs' \<and>
    (heap_listp h + total xs + n, m) \<in> live_blocks h (xs @ (n, True) # (m, True) # ys) \<and>
    (heap_listp h + total xs + n, m) \<notin> live_blocks h' bs' \<and>
    (heap_listp h + total xs, adjusted sz) \<in> live_blocks h' bs'"
proof -
  let ?p = "heap_listp h + total xs" and ?bs = "joined (xs @ [(adjusted sz, True)]) (n + m - adjusted sz) ys"
  obtain h' where h': "mm_realloc ?p sz h = Some (?p, h')" "heap_inv h' ?bs" "heap_listp h' = heap_listp h"
    using realloc_steals_exec [OF assms] by blast
  note l0 = live_blocks_append [OF assms(1,2)]
  have j: "?bs = xs @ joined [(adjusted sz, True)] (n + m - adjusted sz) ys"
    by (cases ys) (auto simp: joined_def Let_def)
  note l1 = live_blocks_append [OF h'(2) [unfolded j] assms(2)]
  have ok: "8 \<le> n" "8 \<le> m" "mm.ok_blocks ys"
    using heap_inv_D(1,7) [OF assms(1)] by (auto simp: ok_size_def)
  have "(?p + n, m) \<in> live_blocks h (xs @ (n, True) # (m, True) # ys)" unfolding l0(1) by simp
  moreover have "(?p + n, m) \<notin> live_blocks h' ?bs"
    unfolding j l1(1) live_joined h'(3)
    using live_bounds [OF _ l1(2), of "?p + n" m "heap_listp h + 8"] live_bounds [OF _ ok(3), of "?p + n" m "?p + n + m"]
      l1(3) h'(3) ok assms(6) by (auto simp: algebra_simps)
  moreover have "(?p, adjusted sz) \<in> live_blocks h' ?bs"
    unfolding j l1(1) live_joined h'(3) by simp
  ultimately show ?thesis using h'(1,2) by blast
qed

lemma mm_realloc_steals_witness:
  "\<exists>h' bs'. mm_realloc 24 17 (demo_heap True) = Some (24, h') \<and> heap_inv h' bs' \<and> (40, 24) \<notin> live_blocks h' bs'"
proof -
  have inv: "heap_inv (demo_heap True) ([(8, True)] @ (16, True) # (24, True) # [])" using demo_heap_inv by simp
  have a: "adjusted 17 = 32" by (simp add: adjusted_def DSIZE_def AGNSIZE_def)
  have "\<not> has_room 17 (demo_heap True) ([(8, True)] @ (16, True) # (24, True) # [])" by (simp add: has_room_def a)
  moreover have "GET (demo_heap True) (heap_listp (demo_heap True) + total [(8, True)] + 16) = Some 0"
    by (simp add: GET_def in_heap_def demo_heap_def)
  moreover have "\<not> tag_alloc 0" by (simp add: tag_alloc_def)
  ultimately have "\<exists>h' bs'. mm_realloc (heap_listp (demo_heap True) + total [(8, True)]) 17 (demo_heap True) =
      Some (heap_listp (demo_heap True) + total [(8, True)], h') \<and> heap_inv h' bs' \<and>
    (heap_listp (demo_heap True) + total [(8, True)] + 16, 24) \<in> live_blocks (demo_heap True) ([(8, True)] @ (16, True) # (24, True) # []) \<and>
    (heap_listp (demo_heap True) + total [(8, True)] + 16, 24) \<notin> live_blocks h' bs' \<and>
    (heap_listp (demo_heap True) + total [(8, True)], adjusted 17) \<in> live_blocks h' bs'"
    by (intro mm_realloc_steals [OF inv]) (simp_all add: a safe_size_def)
  then show ?thesis by auto
qed

end
