(* ===== verification/Textbook_Malloc.thy ===== *)
theory Textbook_Malloc
  imports Malloc_Lab
begin

text \<open>
  The implicit-list allocator of the textbook, \<open>code_example_textbook/vm/malloc/mm.c\<close>, with the
  first-fit search that it compiles (\<open>NEXT_FIT\<close> is not defined). Its \<open>Makefile\<close> leaves \<open>-m32\<close> out:
  \<open>size_t\<close> and pointers have 64 bits. The heap and its macros are those of \<open>malloclab\<close> and come from
  \<open>Malloc_Lab\<close>; the rounding of requests wraps modulo \<open>2^64\<close>, and the break of \<open>mem_sbrk\<close>, moved by
  less than \<open>2^31\<close>, does not wrap, user addresses being below \<open>2^47\<close>. The heap's fields \<open>start_brk\<close>
  and \<open>final_brk\<close> are not used.
  The functions differ from those of \<open>malloclab\<close> in the order of the writes of \<open>coalesce\<close>, in when
  \<open>place\<close> splits, in \<open>realloc\<close>, and in that the first call initialises the allocator.
\<close>

section \<open>memlib.c\<close>

definition tb_mem_sbrk :: "int \<Rightarrow> heap \<Rightarrow> int \<times> heap" where
  "tb_mem_sbrk incr h =
     (if incr < 0 \<or> mem_max_addr h < mem_brk h + incr then (- 1, h)
      else (mem_brk h, h\<lparr>mem_brk := mem_brk h + incr\<rparr>))"

section \<open>mm.c\<close>

definition tb_coalesce :: "int \<Rightarrow> heap \<Rightarrow> (int \<times> heap) option" where
  "tb_coalesce bp h = do {
     prv \<leftarrow> PREV_BLKP h bp;
     ftr \<leftarrow> FTRP h prv;
     prev_alloc \<leftarrow> IS_ALLOC h ftr;
     nxt \<leftarrow> NEXT_BLKP h bp;
     next_alloc \<leftarrow> IS_ALLOC h (HDRP nxt);
     size \<leftarrow> GET_SIZE h (HDRP bp);
     if prev_alloc \<and> next_alloc then Some (bp, h)
     else if prev_alloc \<and> \<not> next_alloc then do {
       nxt \<leftarrow> NEXT_BLKP h bp;
       n \<leftarrow> GET_SIZE h (HDRP nxt);
       let size = (size + n) mod 2 ^ 64;
       h \<leftarrow> PUT h (HDRP bp) (PACK size False);
       ftr \<leftarrow> FTRP h bp;
       h \<leftarrow> PUT h ftr (PACK size False);
       Some (bp, h)
     } else if \<not> prev_alloc \<and> next_alloc then do {
       prv \<leftarrow> PREV_BLKP h bp;
       n \<leftarrow> GET_SIZE h (HDRP prv);
       let size = (size + n) mod 2 ^ 64;
       ftr \<leftarrow> FTRP h bp;
       h \<leftarrow> PUT h ftr (PACK size False);
       prv \<leftarrow> PREV_BLKP h bp;
       h \<leftarrow> PUT h (HDRP prv) (PACK size False);
       bp \<leftarrow> PREV_BLKP h bp;
       Some (bp, h)
     } else do {
       prv \<leftarrow> PREV_BLKP h bp;
       prev_size \<leftarrow> GET_SIZE h (HDRP prv);
       nxt \<leftarrow> NEXT_BLKP h bp;
       ftr \<leftarrow> FTRP h nxt;
       next_size \<leftarrow> GET_SIZE h ftr;
       let size = (size + (prev_size + next_size)) mod 2 ^ 64;
       prv \<leftarrow> PREV_BLKP h bp;
       h \<leftarrow> PUT h (HDRP prv) (PACK size False);
       nxt \<leftarrow> NEXT_BLKP h bp;
       ftr \<leftarrow> FTRP h nxt;
       h \<leftarrow> PUT h ftr (PACK size False);
       bp \<leftarrow> PREV_BLKP h bp;
       Some (bp, h)
     }
   }"

definition tb_extend_heap :: "int \<Rightarrow> heap \<Rightarrow> (int \<times> heap) option" where
  "tb_extend_heap ws h =
     (let size = (if ws mod 2 \<noteq> 0 then (ws + 1) * WSIZE else ws * WSIZE) mod 2 ^ 64;
          (bp, h) = tb_mem_sbrk (to_int size) h
      in if bp = - 1 then Some (0, h)
         else do {
           h \<leftarrow> PUT h (HDRP bp) (PACK size False);
           ftr \<leftarrow> FTRP h bp;
           h \<leftarrow> PUT h ftr (PACK size False);
           nxt \<leftarrow> NEXT_BLKP h bp;
           h \<leftarrow> PUT h (HDRP nxt) (PACK 0 True);
           tb_coalesce bp h
         })"

definition tb_place :: "int \<Rightarrow> int \<Rightarrow> heap \<Rightarrow> heap option" where
  "tb_place bp asize h = do {
     csize \<leftarrow> GET_SIZE h (HDRP bp);
     if 2 * DSIZE \<le> (csize - asize) mod 2 ^ 64 then do {
       h \<leftarrow> PUT h (HDRP bp) (PACK asize True);
       ftr \<leftarrow> FTRP h bp;
       h \<leftarrow> PUT h ftr (PACK asize True);
       bp \<leftarrow> NEXT_BLKP h bp;
       h \<leftarrow> PUT h (HDRP bp) (PACK ((csize - asize) mod 2 ^ 64) False);
       ftr \<leftarrow> FTRP h bp;
       PUT h ftr (PACK ((csize - asize) mod 2 ^ 64) False)
     } else do {
       h \<leftarrow> PUT h (HDRP bp) (PACK csize True);
       ftr \<leftarrow> FTRP h bp;
       PUT h ftr (PACK csize True)
     }
   }"

text \<open>The first-fit loop is the one of \<open>malloclab\<close>, from the prologue on.\<close>

definition tb_find_fit :: "int \<Rightarrow> heap \<Rightarrow> int option" where
  "tb_find_fit asize h = find_fit_loop h asize (heap_listp h)"

definition tb_mm_init :: "heap \<Rightarrow> (int \<times> heap) option" where
  "tb_mm_init h =
     (let (p, h) = tb_mem_sbrk (to_int (4 * WSIZE)) h; h = h\<lparr>heap_listp := p\<rparr>
      in if p = - 1 then Some (- 1, h)
         else do {
           h \<leftarrow> PUT h (heap_listp h) 0;
           h \<leftarrow> PUT h (heap_listp h + 1 * WSIZE) (PACK DSIZE True);
           h \<leftarrow> PUT h (heap_listp h + 2 * WSIZE) (PACK DSIZE True);
           h \<leftarrow> PUT h (heap_listp h + 3 * WSIZE) (PACK 0 True);
           let h = h\<lparr>heap_listp := heap_listp h + 2 * WSIZE\<rparr>;
           (bp, h) \<leftarrow> tb_extend_heap (CHUNKSIZE div WSIZE) h;
           Some (if bp = 0 then - 1 else 0, h)
         })"

text \<open>The initialisation by the first call, whose result is ignored.\<close>

definition tb_start :: "heap \<Rightarrow> heap option" where
  "tb_start h = (if heap_listp h = 0 then map_option snd (tb_mm_init h) else Some h)"

definition tb_adjusted :: "int \<Rightarrow> int" where
  "tb_adjusted sz = (if sz \<le> DSIZE then 2 * DSIZE else DSIZE * ((sz + DSIZE + (DSIZE - 1)) mod 2 ^ 64 div DSIZE))"

definition tb_mm_malloc :: "int \<Rightarrow> heap \<Rightarrow> (int \<times> heap) option" where
  "tb_mm_malloc sz h = do {
     h \<leftarrow> tb_start h;
     if sz = 0 then Some (0, h)
     else do {
       let asize = tb_adjusted sz;
       bp \<leftarrow> tb_find_fit asize h;
       if bp \<noteq> 0 then do { h \<leftarrow> tb_place bp asize h; Some (bp, h) }
       else do {
         let extendsize = (if CHUNKSIZE < asize then asize else CHUNKSIZE);
         (bp, h) \<leftarrow> tb_extend_heap (extendsize div WSIZE) h;
         if bp = 0 then Some (0, h)
         else do { h \<leftarrow> tb_place bp asize h; Some (bp, h) }
       }
     }
   }"

definition tb_mm_free :: "int \<Rightarrow> heap \<Rightarrow> heap option" where
  "tb_mm_free bp h =
     (if bp = 0 then Some h
      else do {
        size \<leftarrow> GET_SIZE h (HDRP bp);
        h \<leftarrow> tb_start h;
        h \<leftarrow> PUT h (HDRP bp) (PACK size False);
        ftr \<leftarrow> FTRP h bp;
        h \<leftarrow> PUT h ftr (PACK size False);
        (_, h) \<leftarrow> tb_coalesce bp h;
        Some h
      })"

text \<open>
  \<open>memcpy\<close> of any number of bytes between aligned pointers: whole words, then the low bytes of the
  last word, words being little-endian.
\<close>

definition low_bytes :: "int \<Rightarrow> c_uint \<Rightarrow> c_uint \<Rightarrow> c_uint" where
  "low_bytes b w v = (w AND mask (nat (8 * b))) OR (v AND NOT (mask (nat (8 * b))))"

definition memcpy_bytes :: "int \<Rightarrow> int \<Rightarrow> int \<Rightarrow> heap \<Rightarrow> heap option" where
  "memcpy_bytes d s n h =
     (if d < s + n \<and> s < d + n then None
      else do {
        let k = n div 4;
        h \<leftarrow> copy_words (nat k) d s h;
        if n mod 4 = 0 then Some h
        else do {
          w \<leftarrow> GET h (s + 4 * k);
          v \<leftarrow> GET h (d + 4 * k);
          PUT h (d + 4 * k) (low_bytes (n mod 4) w v)
        }
      })"

definition tb_mm_realloc :: "int \<Rightarrow> int \<Rightarrow> heap \<Rightarrow> (int \<times> heap) option" where
  "tb_mm_realloc ptr sz h =
     (if sz = 0 then do { h \<leftarrow> tb_mm_free ptr h; Some (0, h) }
      else if ptr = 0 then tb_mm_malloc sz h
      else do {
        (newptr, h) \<leftarrow> tb_mm_malloc sz h;
        if newptr = 0 then Some (0, h)
        else do {
          oldsize \<leftarrow> GET_SIZE h (HDRP ptr);
          let oldsize = (if sz < oldsize then sz else oldsize);
          h \<leftarrow> memcpy_bytes newptr ptr oldsize h;
          h \<leftarrow> tb_mm_free ptr h;
          Some (newptr, h)
        }
      })"

section \<open>The heap checker\<close>

text \<open>What the checker prints.\<close>

datatype tb_message =
    Heap_at int
  | Block int int bool int bool
  | EOL int
  | Not_aligned int
  | Tags_differ
  | Bad_prologue
  | Bad_epilogue

definition tb_checkblock :: "heap \<Rightarrow> int \<Rightarrow> tb_message list option" where
  "tb_checkblock h bp = do {
     w \<leftarrow> GET h (HDRP bp);
     ftr \<leftarrow> FTRP h bp;
     v \<leftarrow> GET h ftr;
     Some ((if bp mod 8 \<noteq> 0 then [Not_aligned bp] else []) @ (if w \<noteq> v then [Tags_differ] else []))
   }"

text \<open>
  The loop of \<open>checkheap\<close>, which leaves \<open>bp\<close> at the epilogue. \<open>print\<close> is \<open>printblock\<close> or, when the
  checker is silent, nothing: \<open>printblock\<close> calls the silent checker itself.
\<close>

partial_function (option) tb_check_loop ::
  "(int \<Rightarrow> tb_message list option) \<Rightarrow> heap \<Rightarrow> int \<Rightarrow> (int \<times> tb_message list) option" where
  "tb_check_loop print h bp = do {
     size \<leftarrow> GET_SIZE h (HDRP bp);
     if 0 < size then do {
       ps \<leftarrow> print bp;
       cs \<leftarrow> tb_checkblock h bp;
       nxt \<leftarrow> NEXT_BLKP h bp;
       (e, ms) \<leftarrow> tb_check_loop print h nxt;
       Some (e, ps @ cs @ ms)
     } else Some (bp, [])
   }"

definition tb_check_with :: "tb_message list \<Rightarrow> (int \<Rightarrow> tb_message list option) \<Rightarrow> heap \<Rightarrow> tb_message list option" where
  "tb_check_with heading print h = do {
     let bp = heap_listp h;
     size \<leftarrow> GET_SIZE h (HDRP bp);
     alloc \<leftarrow> IS_ALLOC h (HDRP bp);
     cs \<leftarrow> tb_checkblock h bp;
     (bp, ms) \<leftarrow> tb_check_loop print h bp;
     ps \<leftarrow> print bp;
     size' \<leftarrow> GET_SIZE h (HDRP bp);
     alloc' \<leftarrow> IS_ALLOC h (HDRP bp);
     Some (heading @ (if size \<noteq> DSIZE \<or> \<not> alloc then [Bad_prologue] else []) @ cs @ ms @ ps @
       (if size' \<noteq> 0 \<or> \<not> alloc' then [Bad_epilogue] else []))
   }"

definition tb_checkheap_silent :: "heap \<Rightarrow> tb_message list option" where
  "tb_checkheap_silent h = tb_check_with [] (\<lambda>_. Some []) h"

definition tb_printblock :: "heap \<Rightarrow> int \<Rightarrow> tb_message list option" where
  "tb_printblock h bp = do {
     ms \<leftarrow> tb_checkheap_silent h;
     hsize \<leftarrow> GET_SIZE h (HDRP bp);
     halloc \<leftarrow> IS_ALLOC h (HDRP bp);
     ftr \<leftarrow> FTRP h bp;
     fsize \<leftarrow> GET_SIZE h ftr;
     falloc \<leftarrow> IS_ALLOC h ftr;
     Some (ms @ (if hsize = 0 then [EOL bp] else [Block bp hsize halloc fsize falloc]))
   }"

definition tb_mm_checkheap :: "bool \<Rightarrow> heap \<Rightarrow> tb_message list option" where
  "tb_mm_checkheap verbose h =
     (if verbose then tb_check_with [Heap_at (heap_listp h)] (tb_printblock h) h else tb_checkheap_silent h)"

section \<open>The functions against those of malloclab\<close>

lemma put_commute: "p \<noteq> q \<Longrightarrow> put (put h p v) q w = put (put h q w) p v"
  by (simp add: put_def fun_upd_twist)

text \<open>Both versions of \<open>coalesce\<close> do the same on a block with well-formed surroundings.\<close>

lemma tb_coalesce_eq:
  assumes a: "around h bp (p, pf) n (q, qf)" and s: "p + n + q < 2 ^ 32"
  shows "tb_coalesce bp h = coalesce bp h"
proof -
  note d = aroundD [OF a]
  have i: "in_heap h (bp - p - 4)" "in_heap h (bp + n - 8)" "in_heap h (bp - 4)"
    using d(18,19,21) by (auto dest: GET_in_heap)
  show ?thesis
  proof (cases qf)
    case True
    note a' = a [unfolded True]
    show ?thesis
    proof (cases pf)
      case True
      then show ?thesis using d a' coalesce_keep [of h bp p n q] \<open>qf\<close>
        by (simp add: tb_coalesce_def macros algebra_simps)
    next
      case False
      have "bp - p - 4 \<noteq> bp + n - 8" using d(8,9) by linarith
      from put_commute [OF this] show ?thesis
        using d i coalesce_prev [of h bp p n q] a' s False \<open>qf\<close>
        by (simp add: tb_coalesce_def macros PUT_eq GET_put Let_def algebra_simps)
    qed
  next
    case False
    note a' = a [unfolded eq_False [THEN iffD2, OF False]]
    have q: "8 \<le> q" "GET h (bp + n + q - 8) = Some (PACK q qf)" using d(11,23) False by auto
    have iq: "in_heap h (bp + n + q - 8)" using q(2) by (rule GET_in_heap)
    show ?thesis
    proof (cases pf)
      case True
      have t: "tag_size (PACK (n + q) False) = n + q"
        by (rule tag_size_PACK) (use d s in auto)
      show ?thesis using d q i iq t coalesce_next [of h bp p n q] a' s True False
        by (simp add: tb_coalesce_def macros PUT_eq GET_put Let_def algebra_simps)
    next
      case F: False
      show ?thesis using d q i iq coalesce_both [of h bp p n q] a' s F False
        by (simp add: tb_coalesce_def macros PUT_eq GET_put Let_def algebra_simps)
    qed
  qed
qed

lemma tb_coalesce_inv:
  assumes inv: "heap_inv h (xs @ (n, False) # ys)" and ne: "xs \<noteq> []"
  shows "tb_coalesce (heap_listp h + total xs) h = coalesce (heap_listp h + total xs) h"
proof -
  obtain p pf where p: "last xs = (p, pf)" by fastforce
  obtain q qf where q: "(if ys = [] then (0, True) else hd ys) = (q, qf)" by (metis surj_pair)
  note d = heap_inv_D [OF inv]
  have "p \<le> total xs"
    using ne d(6) p mm.total_nonneg by (cases xs rule: rev_cases) auto
  moreover have "q \<le> total ys"
    using q d(7) mm.total_nonneg by (cases ys) (auto split: if_splits)
  ultimately have "p + n + q < 2 ^ 32" using d(3) by simp
  then show ?thesis using heap_inv_around [OF inv ne] by (intro tb_coalesce_eq) (simp_all add: p q)
qed

text \<open>\<open>place\<close> keeps a remainder of eight bytes in the block.\<close>

definition taken :: "int \<Rightarrow> int \<Rightarrow> int" where
  "taken a m = (if 16 \<le> m - a then a else m)"

lemma taken_bounds: "a \<le> m \<Longrightarrow> a \<le> taken a m" "a \<le> m \<Longrightarrow> taken a m \<le> m"
  by (simp_all add: taken_def)

lemma taken_small: "8 dvd a \<Longrightarrow> 8 dvd m \<Longrightarrow> a \<le> m \<Longrightarrow> taken a m \<le> a + 8"
  unfolding taken_def by presburger

lemma ok_taken: "ok_size a \<Longrightarrow> ok_size m \<Longrightarrow> ok_size (taken a m)"
  by (simp add: taken_def)

lemma tb_place_eq:
  assumes inv: "heap_inv h (xs @ (m, False) # ys)" and a: "ok_size a" "a \<le> m"
  defines "bp \<equiv> heap_listp h + total xs"
  shows "tb_place bp a h = place bp (taken a m) h"
proof -
  note d = heap_inv_D [OF inv, folded bp_def]
  have 8: "8 dvd a" "8 \<le> a" "8 dvd m" "8 dvd bp" "8 dvd m - a"
    using a d(1,9) dvd_total [OF d(6)] by (auto simp: ok_size_def bp_def)
  have m: "GET_SIZE h (HDRP bp) = Some m" using d(1,10) by (simp add: macros tag_size_PACK ok_size_def)
  have i: "in_heap h q" if "bp - 4 \<le> q" "q < bp + m" "4 dvd q" for q
    by (rule heap_inv_in_heap [OF inv]) (use that d(4,5) in \<open>auto simp: bp_def\<close>)
  have i1: "in_heap h (bp - 4)" "in_heap h (bp + a - 8)"
    by (rule i; use a(2) 8 in \<open>simp; presburger\<close>)+
  have r: "(m - a) mod 2 ^ 64 = m - a" using a d(2) 8(2) by simp
  have t: "tag_size (PACK a True) = a" using a by (simp add: tag_size_PACK ok_size_def)
  show ?thesis
  proof (cases "16 \<le> m - a")
    case True
    define k where "k = m - a"
    have k: "16 \<le> k" "m = a + k" "8 dvd k" "k mod 2 ^ 64 = k" "taken a m = a" "tag_size (PACK k False) = k"
      and k32: "k mod 2 ^ 32 = k"
      using True 8 r d(2) a by (auto simp: k_def taken_def tag_size_PACK)
    have "in_heap h (bp + a - 4)" "in_heap h (bp + a + k - 8)"
      by (rule i; use k(1-3) 8 in \<open>simp; presburger\<close>)+
    moreover have "tag_size (PACK m False) = m" using d(1) by (simp add: tag_size_PACK ok_size_def)
    ultimately show ?thesis using k(1,4,6) k32 i1 t d(10) 8(2) unfolding k(5)
      by (simp add: tb_place_def place_def macros PUT_eq GET_put k(2))
  next
    case False
    then have "\<not> 2 * DSIZE \<le> (m - a) mod 2 ^ 64" "taken a m = m" using r by (simp_all add: DSIZE_def taken_def)
    then show ?thesis
      by (simp add: tb_place_def place_def m DSIZE_def WSIZE_def)
  qed
qed

lemma tb_place_taken:
  assumes inv: "heap_inv h (xs @ (m, False) # ys)" and ne: "xs \<noteq> []" and a: "ok_size a" "a \<le> m"
  defines "bp \<equiv> heap_listp h + total xs"
  shows "\<exists>h'. tb_place bp a h = Some h' \<and> heap_inv h' (xs @ placed (taken a m) m @ ys) \<and> changes h h' bp (bp + m)"
proof -
  have "ok_size (taken a m)" by (rule ok_taken [OF a(1) heap_inv_D(1) [OF inv]])
  from place_placed [OF inv ne this taken_bounds(2) [OF a(2)]] show ?thesis
    using tb_place_eq [OF inv a] by (simp add: bp_def)
qed

lemma tb_find_fit_first_fit:
  assumes "heap_inv h bs"
  shows "tb_find_fit asize h = Some (case first_fit asize bs of None \<Rightarrow> 0 | Some (xs, _) \<Rightarrow> heap_listp h + total xs)"
proof -
  obtain ys where bs: "bs = [(8, True)] @ ys" using assms by (cases bs) (auto simp: heap_inv_def)
  have g: "GET h (heap_listp h - 4) = Some (PACK 8 True)"
    using heap_inv_D(10) [of h "[]" 8 True ys] assms bs by simp
  have "tb_find_fit asize h = find_fit asize h"
    unfolding tb_find_fit_def by (subst find_fit_loop.simps) (simp add: find_fit_def macros g tag_size_PACK tag_alloc_PACK)
  then show ?thesis by (simp add: find_fit_first_fit [OF assms])
qed

text \<open>\<open>extend_heap\<close> leaves the heap that \<open>malloclab\<close>'s leaves, but for \<open>final_brk\<close>.\<close>

lemma tb_extend_heap_eq:
  assumes inv: "heap_inv h bs" and n: "ok_size n" and room: "mem_brk h + n \<le> mem_max_addr h"
  shows "tb_extend_heap (n div 4) h = coalesce (mem_brk h) (extended (final_brk h) n h)"
proof -
  let ?b = "mem_brk h" and ?h0 = "h\<lparr>mem_brk := mem_brk h + n\<rparr>" and ?e = "extended (final_brk h) n h"
  have f: "h\<lparr>mem_brk := ?b + n, final_brk := final_brk h\<rparr> = ?h0" by simp
  note e = extended_inv [where fb = "final_brk h", OF inv n room]
  have ne: "bs \<noteq> []" using inv by (simp add: heap_inv_def)
  have ok: "mm.ok_blocks bs" "0 < mem_start_brk h" "heap_listp h = mem_start_brk h + 8" "8 dvd heap_listp h"
    "?b = heap_listp h + total bs" "mem_max_addr h - mem_start_brk h \<le> 2 ^ 30"
    using inv by (auto simp: heap_inv_def)
  have t: "8 dvd total bs" "0 \<le> total bs" "8 dvd n" "8 \<le> n" "n < 2 ^ 31"
    using mm.total_nonneg [OF ok(1)] dvd_total [OF ok(1)] ok n room by (auto simp: ok_size_def)
  have i: "in_heap ?h0 q" if "?b - 4 \<le> q" "q + 4 \<le> ?b + n" "4 dvd q" for q
    using that ok t by (simp add: in_heap_def)
  have i0: "in_heap ?h0 (?b - 4)" "in_heap ?h0 (?b + n - 8)" "in_heap ?h0 (?b + n - 4)"
    by (rule i; use ok t in \<open>simp; presburger\<close>)+
  have sz: "to_int n = n" using t by (intro to_int_small) auto
  have w: "n div 4 mod 2 = 0" "n div 4 * 4 = n" "n mod 2 ^ 64 = n" using t by (presburger, presburger, simp)
  have b: "?b \<noteq> - 1" using ok t by simp
  have tz: "tag_size (PACK n False) = n" using n by (auto simp: ok_size_def tag_size_PACK)
  have "tb_extend_heap (n div 4) h = tb_coalesce ?b ?e"
    using room t i0 tz w b
    by (simp add: tb_extend_heap_def Let_def sz tb_mem_sbrk_def macros PUT_eq GET_put extended_def tags_def)
  also have "\<dots> = coalesce ?b ?e"
    using tb_coalesce_inv [OF e(1) ne] e(4) ok(5) by simp
  finally show ?thesis .
qed

lemma tb_extend_heap_joined:
  assumes inv: "heap_inv h bs" and n: "ok_size n" and room: "mem_brk h + n \<le> mem_max_addr h"
  shows "\<exists>bp h' xs m. tb_extend_heap (n div 4) h = Some (bp, h') \<and> joined bs n [] = xs @ [(m, False)] \<and> xs \<noteq> [] \<and> n \<le> m \<and>
     bp = heap_listp h + total xs \<and> heap_inv h' (joined bs n []) \<and> grows h h' bp \<and> mem_brk h' = mem_brk h + n"
  unfolding tb_extend_heap_eq [OF assms] by (rule extended_joined [OF assms])

lemma tb_extend_heap_fails:
  assumes "ok_size n" and "mem_max_addr h < mem_brk h + n"
  shows "tb_extend_heap (n div 4) h = Some (0, h)"
proof -
  have w: "n div 4 mod 2 = 0" "n div 4 * 4 = n" "n mod 2 ^ 64 = n" "n < 2 ^ 32" "8 \<le> n"
    using assms(1) by (auto simp: ok_size_def elim!: dvdE)
  then have "to_int n = n \<or> to_int n < 0" using to_int_big [of n] to_int_small [of n] by linarith
  then have "tb_mem_sbrk (to_int n) h = (- 1, h)" using assms(2) by (auto simp: tb_mem_sbrk_def)
  then show ?thesis using w by (simp add: tb_extend_heap_def Let_def WSIZE_def)
qed

text \<open>Requests that fit in 32 bits are rounded as by \<open>malloclab\<close>.\<close>

lemma tb_adjusted_eq:
  assumes "0 < sz" "sz \<le> 2 ^ 32 - 16" shows "tb_adjusted sz = adjusted sz"
proof -
  have "(sz + 15) mod 2 ^ 64 = sz + 15" using assms by (intro mod_pos_pos_trivial) simp_all
  then show ?thesis using AGNSIZE_small [of sz] assms by (simp add: tb_adjusted_def adjusted_def DSIZE_def add.commute)
qed

section \<open>mm_init\<close>

lemma tb_mm_init_ok:
  assumes "fresh h"
  shows "\<exists>h'. tb_mm_init h = Some (0, h') \<and> heap_inv h' [(8, True), (4096, False)] \<and>
    mem_start_brk h' = mem_start_brk h \<and> mem_max_addr h' = mem_max_addr h"
proof -
  let ?p = "mem_start_brk h" and ?h2 = "prologue (start_brk h) h"
  have f: "8 dvd ?p" "0 < ?p" "mem_brk h = ?p" "mem_max_addr h - ?p \<le> 2 ^ 30" "4112 \<le> mem_max_addr h - ?p"
    using assms by (auto simp: fresh_def)
  have z: "to_int 16 = 16" by (rule to_int_small) auto
  have s: "tb_mem_sbrk 16 h = (?p, h\<lparr>mem_brk := ?p + 16\<rparr>)" using f by (simp add: tb_mem_sbrk_def)
  note i = room_of_in_heap [OF f(1), unfolded room_of_def]
  have p: "heap_inv ?h2 [(8, True)]" "mem_start_brk ?h2 = ?p" "mem_brk ?h2 = ?p + 16" "heap_listp ?h2 = ?p + 8"
    "mem_max_addr ?h2 = mem_max_addr h"
    by (rule prologue_inv; use f in simp)+
  have e2: "?h2 = (put (put (put (put (room_of h) ?p 0) (?p + 4) (PACK 8 True)) (?p + 8) (PACK 8 True)) (?p + 12) (PACK 0 True))
      \<lparr>heap_listp := ?p + 8\<rparr>"
    by (simp add: prologue_def Let_def put_def room_of_def)
  obtain bp h' xs m where e: "tb_extend_heap (4096 div 4) ?h2 = Some (bp, h')" "joined [(8, True)] 4096 [] = xs @ [(m, False)]" "xs \<noteq> []"
    "bp = heap_listp ?h2 + total xs" "heap_inv h' (joined [(8, True)] 4096 [])" "grows ?h2 h' bp" "mem_brk h' = mem_brk ?h2 + 4096"
    using tb_extend_heap_joined [OF p(1) first_extension(2)] f p by auto
  have "bp \<noteq> 0" using e(2,4) f(2) by (auto simp: p first_extension(1) Cons_eq_append_conv)
  moreover have "tb_mm_init h = do { (bp, h) \<leftarrow> tb_extend_heap (4096 div 4) ?h2; Some (if bp = 0 then - 1 else 0, h) }"
    using i f(2) unfolding e2
    by (simp add: tb_mm_init_def Let_def WSIZE_def DSIZE_def CHUNKSIZE_def z s PUT_eq room_of_def)
  ultimately have "tb_mm_init h = Some (0, h')" using e(1) by simp
  then show ?thesis using e first_extension(1) p by (intro exI [of _ h']) (auto simp: grows_def)
qed

text \<open>When not even the prologue fits, the list pointer is left invalid and the next call fails.\<close>

lemma tb_init_fails:
  assumes "mem_max_addr h < mem_brk h + 16"
  shows "tb_mm_init h = Some (- 1, h\<lparr>heap_listp := - 1\<rparr>)"
proof -
  have "to_int 16 = 16" by (rule to_int_small) auto
  then show ?thesis using assms by (simp add: tb_mm_init_def WSIZE_def tb_mem_sbrk_def)
qed

theorem tb_malloc_after_failure:
  assumes "heap_listp h = 0" and "mem_max_addr h < mem_brk h + 16" and "0 < mem_start_brk h" and "0 < sz"
  shows "tb_mm_malloc sz h = None"
proof -
  have "GET (h\<lparr>heap_listp := - 1\<rparr>) (HDRP (- 1)) = None"
    using assms(3) by (simp add: GET_def in_heap_def HDRP_def WSIZE_def)
  then have "tb_find_fit a (h\<lparr>heap_listp := - 1\<rparr>) = None" for a
    unfolding tb_find_fit_def by (subst find_fit_loop.simps) (simp add: GET_SIZE_def)
  then show ?thesis using assms(1,4) by (simp add: tb_mm_malloc_def tb_start_def tb_init_fails [OF assms(2)])
qed

section \<open>mm_malloc and mm_free\<close>

lemma tb_start_inv: "heap_inv h bs \<Longrightarrow> tb_start h = Some h"
  by (auto simp: tb_start_def heap_inv_def)

lemma tb_malloc_spec:
  assumes inv: "heap_inv h bs" "coalesced bs" and sz: "0 < sz" "sz \<le> 2 ^ 32 - 16" and room: "has_room sz h bs"
  shows "\<exists>p n h' bs'. tb_mm_malloc sz h = Some (p, h') \<and> p \<noteq> 0 \<and> adjusted sz \<le> n \<and> n \<le> adjusted sz + 8 \<and>
    heap_inv h' bs' \<and> coalesced bs' \<and> live_blocks h' bs' = insert (p, n) (live_blocks h bs) \<and>
    (p, n) \<notin> live_blocks h bs \<and> keeps (live_blocks h bs) h h'"
proof (cases "first_fit (adjusted sz) bs")
  case (Some r)
  obtain xs m ys where r: "r = (xs, m, ys)" by (metis prod_cases3)
  note a = adjusted_ok [OF sz]
  have f: "bs = xs @ (m, False) # ys" "adjusted sz \<le> m" using first_fit_Some [OF Some [unfolded r]] by auto
  let ?p = "heap_listp h + total xs" and ?n = "taken (adjusted sz) m"
  have ne: "xs \<noteq> []" using inv(1) f by (cases xs) (auto simp: heap_inv_def)
  note inv' = inv [unfolded f(1)]
  note d = heap_inv_D [OF inv'(1)]
  obtain h' where h': "tb_place ?p (adjusted sz) h = Some h'" "heap_inv h' (xs @ placed ?n m @ ys)" "changes h h' ?p (?p + m)"
    using tb_place_taken [OF inv'(1) ne a(1) f(2)] by blast
  have "tb_mm_malloc sz h = Some (?p, h')"
    using tb_find_fit_first_fit [OF inv(1), of "adjusted sz"] tb_start_inv [OF inv(1)] h'(1) sz(1) d(4,8)
    by (simp add: tb_mm_malloc_def tb_adjusted_eq [OF sz] Some r)
  moreover have "?p \<noteq> 0" using d(4,8) by linarith
  moreover have "?n \<le> adjusted sz + 8" using a(4) d(1) f(2) by (intro taken_small) (auto simp: ok_size_def)
  ultimately show ?thesis
    using h'(2) taken_bounds [OF f(2)] placed_live [OF inv' ne h'(2) ok_taken [OF a(1) d(1)] _ h'(3)]
    unfolding f(1) by blast
next
  case None
  note a = adjusted_ok [OF sz]
  let ?e = "max (adjusted sz) 4096"
  have rm: "mem_brk h + ?e \<le> mem_max_addr h" using room None by (simp add: has_room_def)
  have e: "ok_size ?e" "adjusted sz \<le> ?e" "(if CHUNKSIZE < adjusted sz then adjusted sz else CHUNKSIZE) = ?e"
    using a by (auto simp: ok_size_def CHUNKSIZE_def max_def)
  obtain p h1 xs m where x: "tb_extend_heap (?e div 4) h = Some (p, h1)" "joined bs ?e [] = xs @ [(m, False)]" "xs \<noteq> []" "?e \<le> m"
    "p = heap_listp h + total xs" "heap_inv h1 (joined bs ?e [])" "grows h h1 p"
    using tb_extend_heap_joined [OF inv(1) e(1) rm] by blast
  let ?n = "taken (adjusted sz) m"
  have l: "heap_listp h1 = heap_listp h" using x(7) by (simp add: grows_def)
  have inv1: "heap_inv h1 (xs @ (m, False) # [])" using x(2,6) by simp
  note d = heap_inv_D [OF inv1]
  have am: "adjusted sz \<le> m" using e(2) x(4) by simp
  obtain h' where h': "tb_place p (adjusted sz) h1 = Some h'" "heap_inv h' (xs @ placed ?n m)" "changes h1 h' p (p + m)"
    using tb_place_taken [OF inv1 x(3) a(1) am] x(5) l by auto
  have p: "p \<noteq> 0" using d(4,8) x(5) l by linarith
  have "tb_mm_malloc sz h = Some (p, h')"
    using tb_find_fit_first_fit [OF inv(1), of "adjusted sz"] None tb_start_inv [OF inv(1)] sz(1) x(1) p h'(1)
    by (simp add: tb_mm_malloc_def tb_adjusted_eq [OF sz] e(3) Let_def WSIZE_def)
  moreover have "grows h h' (heap_listp h + total xs)" by (rule grows_changes [OF x(7) h'(3)]) (use x(5) in auto)
  note L = extended_live [OF inv x(2,3) h'(2) ok_taken [OF a(1) d(1)] taken_bounds(2) [OF am] this, folded x(5)]
  moreover have "?n \<le> adjusted sz + 8" using a(4) d(1) am by (intro taken_small) (auto simp: ok_size_def)
  ultimately show ?thesis using h'(2) p taken_bounds(1) [OF am] by blast
qed

lemma tb_malloc_null:
  assumes inv: "heap_inv h bs" and sz: "0 < sz" "sz \<le> 2 ^ 32 - 16" and room: "\<not> has_room sz h bs"
  shows "tb_mm_malloc sz h = Some (0, h)"
proof -
  note a = adjusted_ok [OF sz]
  let ?e = "max (adjusted sz) 4096"
  have e: "ok_size ?e" "(if CHUNKSIZE < adjusted sz then adjusted sz else CHUNKSIZE) = ?e"
    using a sz by (auto simp: ok_size_def CHUNKSIZE_def max_def)
  have f: "first_fit (adjusted sz) bs = None" "mem_max_addr h < mem_brk h + ?e"
    using room unfolding has_room_def de_Morgan_disj not_not not_le by blast+
  show ?thesis
    using tb_find_fit_first_fit [OF inv, of "adjusted sz"] tb_start_inv [OF inv] f(1) sz e(2) tb_extend_heap_fails [OF e(1) f(2)]
    by (simp add: tb_mm_malloc_def tb_adjusted_eq [OF sz] WSIZE_def Let_def)
qed

text \<open>\<open>mm_free\<close> does what the one of \<open>malloclab\<close> does.\<close>

lemma tb_free_eq:
  assumes inv: "heap_inv h bs" and p: "(p, n) \<in> live_blocks h bs"
  shows "tb_mm_free p h = mm_free p h"
proof -
  obtain zs ys where z: "tl bs = zs @ (n, True) # ys" "p = heap_listp h + 8 + total zs"
    using live_mem p unfolding live_blocks_def by metis
  let ?xs = "(8, True) # zs"
  have bs: "bs = ?xs @ (n, True) # ys" using z inv by (cases bs) (auto simp: heap_inv_def)
  have inv': "heap_inv h (?xs @ (n, True) # ys)" using inv bs by simp
  have bp: "p = heap_listp h + total ?xs" using z by simp
  note ft = freed_tags [OF inv', folded bp, simplified]
  have "tb_coalesce p (tags h p n False) = coalesce p (tags h p n False)"
    using tb_coalesce_inv [of "tags h p n False" ?xs n ys] ft(1,3) bp by simp
  then show ?thesis
    using ft(4,5) tb_start_inv [OF inv] by (simp add: tb_mm_free_def mm_free_def ft(6))
qed

section \<open>mm_realloc\<close>

text \<open>The byte at an address.\<close>

definition heap_byte :: "heap \<Rightarrow> int \<Rightarrow> c_uint option" where
  "heap_byte h a = map_option (\<lambda>w. take_bit 8 (drop_bit (nat (8 * (a mod 4))) w)) (GET h (a - a mod 4))"

lemma low_bytes_byte:
  assumes "0 \<le> j" "j < b"
  shows "take_bit 8 (drop_bit (nat (8 * j)) (low_bytes b w v)) = take_bit 8 (drop_bit (nat (8 * j)) w)"
proof -
  have "nat (8 * j) + 8 \<le> nat (8 * b)" using assms by linarith
  then show ?thesis
    by (intro bit_eqI) (auto simp: low_bytes_def bit_take_bit_iff bit_drop_bit_eq bit_or_iff bit_and_iff bit_not_iff bit_mask_iff
        dest: bit_imp_le_length)
qed

text \<open>The number of words that hold \<open>n\<close> bytes.\<close>

definition word_count :: "int \<Rightarrow> int" where
  "word_count n = (n + 3) div 4"

lemma memcpy_bytes_ok:
  assumes i: "\<And>i. 0 \<le> i \<Longrightarrow> i < word_count n \<Longrightarrow> in_heap h (s + 4 * i) \<and> in_heap h (d + 4 * i)"
    and dis: "d + 4 * word_count n \<le> s \<or> s + 4 * word_count n \<le> d" and n: "0 \<le> n" and al: "4 dvd s" "4 dvd d"
  shows "\<exists>h'. memcpy_bytes d s n h = Some h' \<and> changes h h' (d + 4) (d + 4 * word_count n + 4) \<and>
    (\<forall>x. 0 \<le> x \<and> x < n \<longrightarrow> heap_byte h' (d + x) = heap_byte h (s + x))"
proof -
  let ?k = "n div 4"
  have k: "int (nat ?k) = ?k" "0 \<le> ?k" "n = 4 * ?k + n mod 4" "0 \<le> n mod 4" "n mod 4 < 4" using n by auto
  have wc: "word_count n = (if n mod 4 = 0 then ?k else ?k + 1)" unfolding word_count_def by presburger
  obtain h1 where h1: "copy_words (nat ?k) d s h = Some h1" "changes h h1 (d + 4) (d + 4 * ?k + 4)"
    "\<And>i. 0 \<le> i \<Longrightarrow> i < ?k \<Longrightarrow> GET h1 (d + 4 * i) = GET h (s + 4 * i)"
    using copy_words_ok [of "nat ?k" h s d] i dis unfolding k(1) wc by (fastforce split: if_splits)
  have no: "\<not> (d < s + n \<and> s < d + n)" using dis k unfolding wc by (auto split: if_splits)
  have word: "heap_byte h' (d + x) = heap_byte h (s + x)"
    if "GET h' (d + 4 * (x div 4)) = GET h (s + 4 * (x div 4))" for h' x
  proof -
    have "(d + x) mod 4 = x mod 4" "(s + x) mod 4 = x mod 4" using al by (auto elim!: dvdE simp: mod_mult_self4 add.commute)
    moreover have "d + x - x mod 4 = d + 4 * (x div 4)" "s + x - x mod 4 = s + 4 * (x div 4)" by presburger+
    ultimately show ?thesis using that by (simp only: heap_byte_def)
  qed
  show ?thesis
  proof (cases "n mod 4 = 0")
    case True
    have "heap_byte h1 (d + x) = heap_byte h (s + x)" if "0 \<le> x" "x < n" for x
      by (rule word, rule h1(3)) (use that k True in linarith)+
    then show ?thesis using h1(1,2) True by (auto simp: memcpy_bytes_def no wc)
  next
    case False
    have in_k: "in_heap h (s + 4 * ?k)" "in_heap h (d + 4 * ?k)" using i [of ?k] k(2) False by (auto simp: wc)
    have e: "in_heap h1 = in_heap h" using h1(2) by (auto simp: changes_def in_heap_def fun_eq_iff)
    obtain w where w: "GET h (s + 4 * ?k) = Some w" using in_k by (simp add: GET_def)
    obtain v where v: "GET h1 (d + 4 * ?k) = Some v" using in_k e by (simp add: GET_def)
    have w1: "GET h1 (s + 4 * ?k) = Some w"
      using h1(2) w dis k False by (auto simp: changes_def wc)
    let ?h' = "put h1 (d + 4 * ?k) (low_bytes (n mod 4) w v)"
    have g: "GET ?h' q = (if q = d + 4 * ?k then Some (low_bytes (n mod 4) w v) else GET h1 q)" for q
      using in_k e by (simp add: GET_put)
    have "memcpy_bytes d s n h = Some ?h'"
      using h1(1) w1 v in_k e False by (simp add: memcpy_bytes_def no PUT_eq Let_def)
    moreover have "changes h ?h' (d + 4) (d + 4 * word_count n + 4)"
      by (rule changes_trans [OF h1(2) changes_put]) (use in_k e k False in \<open>auto simp: wc\<close>)
    moreover have "heap_byte ?h' (d + x) = heap_byte h (s + x)" if x: "0 \<le> x" "x < n" for x
    proof (cases "x div 4 < ?k")
      case True
      then show ?thesis using h1(3) [of "x div 4"] x by (intro word) (simp add: g)
    next
      case F: False
      then have "x div 4 = ?k" using x(2) zdiv_mono1 [of x n 4] by simp
      then have "x = 4 * ?k + x mod 4" "x mod 4 < n mod 4" using x(2) mult_div_mod_eq [of 4 x] mult_div_mod_eq [of 4 n] by linarith+
      then have q: "(d + x) mod 4 = x mod 4" "d + x - x mod 4 = d + 4 * ?k" "(s + x) mod 4 = x mod 4" "s + x - x mod 4 = s + 4 * ?k"
        "x mod 4 < n mod 4"
        using al by presburger+
      show ?thesis unfolding heap_byte_def q(1-4) using low_bytes_byte [of "x mod 4" "n mod 4" w v] w q(5) by (simp add: g)
    qed
    ultimately show ?thesis by blast
  qed
qed

text \<open>
  Reallocation moves the block: the new one has the bytes of the old one that fit. It copies up to the
  old block's size, which is eight more than its payload: the last bytes are the tag of the block and
  the one after it, which are words of the heap.
\<close>

lemma live_words:
  assumes inv: "heap_inv h bs" and p: "(p, n) \<in> live_blocks h bs" and q: "p \<le> q" "q < p + n" "4 dvd q"
  shows "in_heap h q"
proof -
  note al = live_aligned [OF inv p]
  have "4 dvd p" "4 dvd n" using al(1,2) by (auto simp: ok_size_def)
  then have "q + 4 \<le> p + n" using q by presburger
  then show ?thesis using al(3,4) q by (simp add: in_heap_def)
qed

lemma tb_realloc_spec:
  assumes inv: "heap_inv h bs" "coalesced bs" and p: "(p, n) \<in> live_blocks h bs"
    and sz: "0 < sz" "sz \<le> 2 ^ 32 - 16" and room: "has_room sz h bs"
  shows "\<exists>p' n' h' bs'. tb_mm_realloc p sz h = Some (p', h') \<and> p' \<noteq> 0 \<and> adjusted sz \<le> n' \<and> n' \<le> adjusted sz + 8 \<and>
    heap_inv h' bs' \<and> coalesced bs' \<and> live_blocks h' bs' = insert (p', n') (live_blocks h bs - {(p, n)}) \<and>
    keeps (live_blocks h bs - {(p, n)}) h h' \<and>
    (\<forall>x. 0 \<le> x \<and> x < min (n - 8) sz \<longrightarrow> heap_byte h' (p' + x) = heap_byte h (p + x))"
proof -
  note a = adjusted_ok [OF sz]
  note al = live_aligned [OF inv(1) p]
  have p0: "p \<noteq> 0" using al(3) inv(1) by (auto simp: heap_inv_def)
  obtain p' n' h1 bs1 where m: "tb_mm_malloc sz h = Some (p', h1)" "p' \<noteq> 0" "adjusted sz \<le> n'" "n' \<le> adjusted sz + 8"
    "heap_inv h1 bs1" "coalesced bs1" "live_blocks h1 bs1 = insert (p', n') (live_blocks h bs)" "(p', n') \<notin> live_blocks h bs"
    "keeps (live_blocks h bs) h h1"
    using tb_malloc_spec [OF inv sz room] by blast
  have P: "(p', n') \<in> live_blocks h1 bs1" "(p, n) \<in> live_blocks h1 bs1" "(p, n) \<noteq> (p', n')"
    using m(7,8) p by auto
  note al' = live_aligned [OF m(5) P(1)] and al1 = live_aligned [OF m(5) P(2)]
  have dis: "p + n \<le> p' \<or> p' + n' \<le> p"
    using live_disjoint [OF P(2,1) [unfolded live_blocks_def]] P(3) m(5) by (cases bs1) (auto simp: heap_inv_def)
  define C where "C = (if sz < n then sz else n)"
  have n8: "8 dvd n" "8 \<le> n" "8 dvd n'" using al(2) al'(2) by (auto simp: ok_size_def)
  have C: "0 \<le> C" "C \<le> n" "C \<le> sz" "min (n - 8) sz \<le> C" using sz n8 by (auto simp: C_def)
  have wc: "4 * word_count C \<le> n" "4 * word_count C \<le> n' - 8"
  proof -
    have "4 * word_count C \<le> C + 3" "4 dvd 4 * word_count C" unfolding word_count_def by presburger+
    moreover have "C \<le> n' - 8" using C(3) a(2) m(3) by linarith
    ultimately show "4 * word_count C \<le> n" "4 * word_count C \<le> n' - 8"
      using C(2) n8(1,3) by presburger+
  qed
  have old: "GET_SIZE h1 (HDRP p) = Some n" using al1(2,5) by (simp add: macros tag_size_PACK ok_size_def)
  have i: "in_heap h1 (p + 4 * j) \<and> in_heap h1 (p' + 4 * j)" if "0 \<le> j" "j < word_count C" for j
    using that wc al1(1) al'(1) by (intro conjI live_words [OF m(5) P(2)] live_words [OF m(5) P(1)]) auto
  obtain h2 where h2: "memcpy_bytes p' p C h1 = Some h2" "changes h1 h2 (p' + 4) (p' + 4 * word_count C + 4)"
    "\<And>x. 0 \<le> x \<Longrightarrow> x < C \<Longrightarrow> heap_byte h2 (p' + x) = heap_byte h1 (p + x)"
    using memcpy_bytes_ok [OF i, of C] dis wc C(1) al1(1) al'(1) by fastforce
  note pay = heap_inv_changes_payload [OF m(5) P(1) h2(2) wc(2)]
  have P2: "(p, n) \<in> live_blocks h2 bs1" "(p', n') \<in> live_blocks h2 bs1 - {(p, n)}" using pay(2) P by auto
  obtain h3 bs3 where f: "mm_free p h2 = Some h3" "heap_inv h3 bs3" "coalesced bs3"
    "live_blocks h3 bs3 = live_blocks h2 bs1 - {(p, n)}" "keeps (live_blocks h2 bs1 - {(p, n)}) h2 h3"
    using mm_free_spec [OF pay(1) m(6) P2(1)] by blast
  have "tb_mm_realloc p sz h = Some (p', h3)"
    using p0 sz m(1,2) old h2(1) f(1) tb_free_eq [OF pay(1) P2(1)] by (simp add: tb_mm_realloc_def C_def)
  moreover have "live_blocks h3 bs3 = insert (p', n') (live_blocks h bs - {(p, n)})"
    using f(4) pay(2) m(7) P(3) by auto
  moreover have "keeps (live_blocks h bs - {(p, n)}) h h3"
  proof (rule keeps_trans, rule keeps_trans)
    show "keeps (live_blocks h bs - {(p, n)}) h h1" by (rule keeps_mono [OF m(9)]) auto
    show "keeps (live_blocks h bs - {(p, n)}) h1 h2" by (rule keeps_mono [OF pay(3)]) (use m(7,8) in auto)
    show "keeps (live_blocks h bs - {(p, n)}) h2 h3" by (rule keeps_mono [OF f(5)]) (use m(7) pay(2) in auto)
  qed
  moreover have "heap_byte h3 (p' + x) = heap_byte h (p + x)" if x: "0 \<le> x" "x < min (n - 8) sz" for x
  proof -
    have b: "GET h' (q + x - (q + x) mod 4) = GET h'' (q + x - (q + x) mod 4)"
      if k: "keeps L h'' h'" "(q, l) \<in> L" and q: "8 dvd q" "x < l - 8" for q l L h' h''
    proof (rule keepsD [OF k])
      show "q \<le> q + x - (q + x) mod 4" using q x(1) by presburger
      show "q + x - (q + x) mod 4 < q + l - 8" using q pos_mod_sign [of 4 "q + x"] by linarith
    qed
    have "heap_byte h3 (p' + x) = heap_byte h2 (p' + x)"
      using b [OF f(5) P2(2) al'(1)] x(2) a(2) m(3) by (simp add: heap_byte_def)
    also have "\<dots> = heap_byte h1 (p + x)" by (rule h2(3)) (use x C(4) in linarith)+
    also have "\<dots> = heap_byte h (p + x)"
      using b [OF m(9) p al(1)] x(2) by (simp add: heap_byte_def)
    finally show ?thesis .
  qed
  ultimately show ?thesis using m(2-4) f(2,3) by blast
qed

section \<open>What the checker reports\<close>

text \<open>The messages of a loop over blocks from payload address \<open>a\<close> on.\<close>

fun listing :: "(int \<Rightarrow> int \<Rightarrow> bool \<Rightarrow> tb_message list) \<Rightarrow> int \<Rightarrow> block list \<Rightarrow> tb_message list" where
  "listing f a [] = []"
| "listing f a (b # bs) = f a (fst b) (snd b) @ listing f (a + fst b) bs"

lemma listing_nil: "listing (\<lambda>_ _ _. []) a bs = []"
  by (induction bs arbitrary: a) auto

lemma epilogue_tag:
  assumes "heap_inv h bs"
  shows "GET_SIZE h (HDRP (heap_listp h + total bs)) = Some 0" "IS_ALLOC h (HDRP (heap_listp h + total bs)) = Some True"
  using assms by (auto simp: heap_inv_def macros tag_size_PACK tag_alloc_PACK)

lemma block_tags:
  assumes "heap_inv h (xs @ (n, f) # ys)"
  defines "bp \<equiv> heap_listp h + total xs"
  shows "GET_SIZE h (HDRP bp) = Some n" "IS_ALLOC h (HDRP bp) = Some f" "NEXT_BLKP h bp = Some (bp + n)"
    "FTRP h bp = Some (bp + n - 8)" "GET_SIZE h (bp + n - 8) = Some n" "IS_ALLOC h (bp + n - 8) = Some f" "0 < n"
    "tb_checkblock h bp = Some []"
proof -
  note d = heap_inv_D [OF assms(1), folded bp_def]
  show "GET_SIZE h (HDRP bp) = Some n" "IS_ALLOC h (HDRP bp) = Some f" "NEXT_BLKP h bp = Some (bp + n)"
    "FTRP h bp = Some (bp + n - 8)" "GET_SIZE h (bp + n - 8) = Some n" "IS_ALLOC h (bp + n - 8) = Some f" "0 < n"
    using d(1,10,11) by (auto simp: macros tag_size_PACK tag_alloc_PACK ok_size_def)
  have "8 dvd bp" using d(9) dvd_total [OF d(6)] by (simp add: bp_def)
  then show "tb_checkblock h bp = Some []"
    using d(1,10,11) by (simp add: tb_checkblock_def macros tag_size_PACK ok_size_def mod_0_imp_dvd dvd_imp_mod_0)
qed

lemma tb_check_loop_ok:
  assumes "heap_inv h (xs @ ys)"
    and "\<And>zs n f us. xs @ ys = zs @ (n, f) # us \<Longrightarrow> print (heap_listp h + total zs) = Some (pr (heap_listp h + total zs) n f)"
  shows "tb_check_loop print h (heap_listp h + total xs) = Some (heap_listp h + total (xs @ ys), listing pr (heap_listp h + total xs) ys)"
  using assms
proof (induction ys arbitrary: xs)
  case Nil
  then show ?case using epilogue_tag(1) [of h xs] by (subst tb_check_loop.simps) simp
next
  case (Cons b ys)
  obtain n f where b: "b = (n, f)" by fastforce
  have inv: "heap_inv h (xs @ (n, f) # ys)" using Cons.prems(1) b by simp
  have "tb_check_loop print h (heap_listp h + total (xs @ [(n, f)])) =
     Some (heap_listp h + total ((xs @ [(n, f)]) @ ys), listing pr (heap_listp h + total (xs @ [(n, f)])) ys)"
    by (rule Cons.IH) (use inv Cons.prems(2) b in auto)
  then show ?case
    using block_tags [OF inv] Cons.prems(2) [of xs n f ys] by (subst tb_check_loop.simps) (simp add: b add.assoc)
qed

lemma tb_check_with_ok:
  assumes inv: "heap_inv h bs"
    and "\<And>zs n f us. bs = zs @ (n, f) # us \<Longrightarrow> print (heap_listp h + total zs) = Some (pr (heap_listp h + total zs) n f)"
    and "print (heap_listp h + total bs) = Some ps"
  shows "tb_check_with hs print h = Some (hs @ listing pr (heap_listp h) bs @ ps)"
proof -
  obtain ys where bs: "bs = [] @ (8, True) # ys" using inv by (cases bs) (auto simp: heap_inv_def)
  note b = block_tags [OF inv [unfolded bs], simplified]
  have "tb_check_loop print h (heap_listp h) = Some (heap_listp h + total bs, listing pr (heap_listp h) bs)"
    using tb_check_loop_ok [of h "[]" bs print pr] assms(1,2) by simp
  then show ?thesis
    using b epilogue_tag [OF inv] assms(3) by (simp add: tb_check_with_def DSIZE_def Let_def)
qed

lemma tb_silent_ok: "heap_inv h bs \<Longrightarrow> tb_mm_checkheap False h = Some []"
  using tb_check_with_ok [of h bs "\<lambda>_. Some []" "\<lambda>_ _ _. []" "[]" "[]"]
  by (simp add: tb_mm_checkheap_def tb_checkheap_silent_def listing_nil)

lemma tb_printblock_ok:
  assumes "heap_inv h bs"
  shows "bs = zs @ (n, f) # us \<Longrightarrow>
      tb_printblock h (heap_listp h + total zs) = Some [Block (heap_listp h + total zs) n f n f]"
    and "tb_printblock h (heap_listp h + total bs) = Some [EOL (heap_listp h + total bs)]"
proof -
  have s: "tb_checkheap_silent h = Some []" using tb_silent_ok [OF assms] by (simp add: tb_mm_checkheap_def)
  show "bs = zs @ (n, f) # us \<Longrightarrow> tb_printblock h (heap_listp h + total zs) = Some [Block (heap_listp h + total zs) n f n f]"
    using block_tags [of h zs n f us] assms by (auto simp: tb_printblock_def s)
  obtain xs n f where bs: "bs = xs @ (n, f) # []" using assms by (cases bs rule: rev_cases) (auto simp: heap_inv_def)
  note e = epilogue_tag [OF assms]
  have "FTRP h (heap_listp h + total bs) = Some (heap_listp h + total bs - 8)" using e(1) by (simp add: FTRP_def DSIZE_def)
  then show "tb_printblock h (heap_listp h + total bs) = Some [EOL (heap_listp h + total bs)]"
    using e block_tags(5,6) [OF assms [unfolded bs]] by (simp add: tb_printblock_def s bs add.assoc)
qed

text \<open>On a well-formed heap the verbose checker lists the blocks, and nothing else.\<close>

lemma tb_verbose_ok:
  assumes "heap_inv h bs"
  shows "tb_mm_checkheap True h =
    Some (Heap_at (heap_listp h) # listing (\<lambda>a n f. [Block a n f n f]) (heap_listp h) bs @ [EOL (heap_listp h + total bs)])"
  using tb_check_with_ok [of h bs "tb_printblock h" "\<lambda>a n f. [Block a n f n f]", OF assms tb_printblock_ok(1) [OF assms] tb_printblock_ok(2) [OF assms]]
  by (simp add: tb_mm_checkheap_def)

lemma listed_live: "Block a n True k True \<in> set (listing (\<lambda>a n f. [Block a n f n f]) b bs) \<longleftrightarrow> (a, n) \<in> live b bs \<and> k = n"
  by (induction bs arbitrary: b) auto

lemma listed_block: "x \<in> set (listing (\<lambda>a n f. [Block a n f n f]) b bs) \<Longrightarrow> \<exists>a n f. x = Block a n f n f"
  by (induction bs arbitrary: b) auto

section \<open>Sessions\<close>

text \<open>
  A client of the allocator, which starts with the first call or with \<open>mm_init\<close>. It may ask for any size
  that is still a 32-bit number when it is rounded up; larger sizes break the heap, see
  \<open>tb_malloc_2_32\<close>. \<open>L\<close> collects the blocks it holds: their addresses and the sizes in their headers.
\<close>

inductive tb_session :: "heap \<Rightarrow> heap \<Rightarrow> (int \<times> int) set \<Rightarrow> bool" for h0 where
  start: "tb_session h0 h0 {}"
| init: "tb_mm_init h0 = Some (0, h) \<Longrightarrow> tb_session h0 h {}"
| malloc: "tb_session h0 h L \<Longrightarrow> 0 \<le> sz \<Longrightarrow> sz \<le> 2 ^ 32 - 16 \<Longrightarrow> tb_mm_malloc sz h = Some (p, h') \<Longrightarrow> p \<noteq> 0 \<Longrightarrow>
    GET_SIZE h' (HDRP p) = Some n \<Longrightarrow> tb_session h0 h' (insert (p, n) L)"
| malloc_null: "tb_session h0 h L \<Longrightarrow> 0 \<le> sz \<Longrightarrow> sz \<le> 2 ^ 32 - 16 \<Longrightarrow> tb_mm_malloc sz h = Some (0, h') \<Longrightarrow> tb_session h0 h' L"
| free: "tb_session h0 h L \<Longrightarrow> (p, n) \<in> L \<Longrightarrow> tb_mm_free p h = Some h' \<Longrightarrow> tb_session h0 h' (L - {(p, n)})"
| realloc: "tb_session h0 h L \<Longrightarrow> (p, n) \<in> L \<Longrightarrow> 0 < sz \<Longrightarrow> sz \<le> 2 ^ 32 - 16 \<Longrightarrow> tb_mm_realloc p sz h = Some (p', h') \<Longrightarrow> p' \<noteq> 0 \<Longrightarrow>
    GET_SIZE h' (HDRP p') = Some n' \<Longrightarrow> tb_session h0 h' (insert (p', n') (L - {(p, n)}))"
| realloc_null: "tb_session h0 h L \<Longrightarrow> (p, n) \<in> L \<Longrightarrow> 0 < sz \<Longrightarrow> sz \<le> 2 ^ 32 - 16 \<Longrightarrow> tb_mm_realloc p sz h = Some (0, h') \<Longrightarrow>
    tb_session h0 h' L"
| free_null: "tb_session h0 h L \<Longrightarrow> tb_mm_free 0 h = Some h' \<Longrightarrow> tb_session h0 h' L"
| realloc_new: "tb_session h0 h L \<Longrightarrow> 0 \<le> sz \<Longrightarrow> sz \<le> 2 ^ 32 - 16 \<Longrightarrow> tb_mm_realloc 0 sz h = Some (p, h') \<Longrightarrow> p \<noteq> 0 \<Longrightarrow>
    GET_SIZE h' (HDRP p) = Some n \<Longrightarrow> tb_session h0 h' (insert (p, n) L)"
| realloc_new_null: "tb_session h0 h L \<Longrightarrow> 0 \<le> sz \<Longrightarrow> sz \<le> 2 ^ 32 - 16 \<Longrightarrow> tb_mm_realloc 0 sz h = Some (0, h') \<Longrightarrow>
    tb_session h0 h' L"
| realloc_free: "tb_session h0 h L \<Longrightarrow> (p, n) \<in> L \<Longrightarrow> tb_mm_realloc p 0 h = Some (p', h') \<Longrightarrow> tb_session h0 h' (L - {(p, n)})"
| store: "tb_session h0 h L \<Longrightarrow> (p, n) \<in> L \<Longrightarrow> p \<le> q \<Longrightarrow> q + 4 \<le> p + (n - 8) \<Longrightarrow> PUT h q w = Some h' \<Longrightarrow>
    tb_session h0 h' L"

text \<open>The heap holds the blocks \<open>L\<close>; it may be about to be initialised.\<close>

definition tb_holds :: "heap \<Rightarrow> (int \<times> int) set \<Rightarrow> bool" where
  "tb_holds h L \<longleftrightarrow> (\<exists>bs. heap_inv h bs \<and> coalesced bs \<and> live_blocks h bs = L \<and> (\<forall>(p, n) \<in> L. 16 \<le> n))"

definition tb_unborn :: "heap \<Rightarrow> bool" where
  "tb_unborn h \<longleftrightarrow> fresh h \<and> heap_listp h = 0"

lemma tb_start_fresh: "tb_unborn h \<Longrightarrow> \<exists>h'. tb_start h = Some h' \<and> tb_mm_init h = Some (0, h') \<and> tb_holds h' {}"
  using tb_mm_init_ok [of h] by (force simp: tb_start_def tb_unborn_def tb_holds_def live_blocks_def)

lemma tb_malloc_start:
  assumes "tb_start h = Some h1" and "tb_start h1 = Some h1"
  shows "tb_mm_malloc sz h = tb_mm_malloc sz h1"
  using assms by (simp add: tb_mm_malloc_def)

text \<open>A call of \<open>mm_malloc\<close>: a new block, or null and no change.\<close>

lemma tb_holds_malloc:
  assumes h: "tb_holds h L" and sz: "0 \<le> sz" "sz \<le> 2 ^ 32 - 16"
  obtains (null) "tb_mm_malloc sz h = Some (0, h)"
    | (block) p n h' where "tb_mm_malloc sz h = Some (p, h')" "p \<noteq> 0" "GET_SIZE h' (HDRP p) = Some n" "sz + 8 \<le> n" "(p, n) \<notin> L"
        "tb_holds h' (insert (p, n) L)"
proof -
  obtain bs where bs: "heap_inv h bs" "coalesced bs" "live_blocks h bs = L" "\<forall>(p, n) \<in> L. 16 \<le> n"
    using h by (auto simp: tb_holds_def)
  consider "sz = 0" | "0 < sz" "has_room sz h bs" | "0 < sz" "\<not> has_room sz h bs" using sz by linarith
  then show thesis
  proof cases
    case 1
    then show thesis using tb_start_inv [OF bs(1)] by (intro null) (simp add: tb_mm_malloc_def)
  next
    case 2
    obtain p n h' bs' where m: "tb_mm_malloc sz h = Some (p, h')" "p \<noteq> 0" "adjusted sz \<le> n" "heap_inv h' bs'" "coalesced bs'"
      "live_blocks h' bs' = insert (p, n) L" "(p, n) \<notin> L"
      using tb_malloc_spec [OF bs(1,2) 2(1) sz(2) 2(2)] bs(3) by blast
    have a: "16 \<le> n" "sz + 8 \<le> n" using m(3) 2(1) adjusted_ok [OF 2(1) sz(2)] by presburger+
    have "GET_SIZE h' (HDRP p) = Some n"
      using live_aligned [OF m(4), of p n] m(6) by (auto simp: macros tag_size_PACK ok_size_def)
    then show thesis using m a bs(4) by (intro block) (auto simp: tb_holds_def)
  next
    case 3
    then show thesis using tb_malloc_null [OF bs(1) _ sz(2)] by (intro null) auto
  qed
qed

lemma tb_holds_free:
  assumes h: "tb_holds h L" and p: "(p, n) \<in> L"
  obtains h' where "tb_mm_free p h = Some h'" "tb_holds h' (L - {(p, n)})"
proof -
  obtain bs where bs: "heap_inv h bs" "coalesced bs" "live_blocks h bs = L" "\<forall>(p, n) \<in> L. 16 \<le> n"
    using h by (auto simp: tb_holds_def)
  note p' = p [folded bs(3)]
  obtain h' bs' where "mm_free p h = Some h'" "heap_inv h' bs'" "coalesced bs'" "live_blocks h' bs' = L - {(p, n)}"
    using mm_free_spec [OF bs(1,2) p'] bs(3) by blast
  then show thesis using tb_free_eq [OF bs(1) p'] bs(4) by (intro that) (auto simp: tb_holds_def)
qed

lemma tb_holds_realloc:
  assumes h: "tb_holds h L" and p: "(p, n) \<in> L" and sz: "0 < sz" "sz \<le> 2 ^ 32 - 16"
  obtains (null) "tb_mm_realloc p sz h = Some (0, h)"
    | (block) p' n' h' where "tb_mm_realloc p sz h = Some (p', h')" "p' \<noteq> 0" "GET_SIZE h' (HDRP p') = Some n'" "sz + 8 \<le> n'"
        "tb_holds h' (insert (p', n') (L - {(p, n)}))" "\<forall>x. 0 \<le> x \<and> x < min (n - 8) sz \<longrightarrow> heap_byte h' (p' + x) = heap_byte h (p + x)"
proof -
  obtain bs where bs: "heap_inv h bs" "coalesced bs" "live_blocks h bs = L" "\<forall>(p, n) \<in> L. 16 \<le> n"
    using h by (auto simp: tb_holds_def)
  note p' = p [folded bs(3)]
  have p0: "p \<noteq> 0" using live_aligned(3) [OF bs(1) p'] bs(1) by (auto simp: heap_inv_def)
  show thesis
  proof (cases "has_room sz h bs")
    case True
    obtain p' n' h' bs' where m: "tb_mm_realloc p sz h = Some (p', h')" "p' \<noteq> 0" "adjusted sz \<le> n'" "heap_inv h' bs'" "coalesced bs'"
      "live_blocks h' bs' = insert (p', n') (L - {(p, n)})" "\<forall>x. 0 \<le> x \<and> x < min (n - 8) sz \<longrightarrow> heap_byte h' (p' + x) = heap_byte h (p + x)"
      using tb_realloc_spec [OF bs(1,2) p' sz True] bs(3) by blast
    have a: "16 \<le> n'" "sz + 8 \<le> n'" using m(3) sz(1) adjusted_ok [OF sz] by presburger+
    have "GET_SIZE h' (HDRP p') = Some n'"
      using live_aligned [OF m(4), of p' n'] m(6) by (auto simp: macros tag_size_PACK ok_size_def)
    then show thesis using m a bs(4) by (intro block) (auto simp: tb_holds_def)
  next
    case False
    then show thesis using tb_malloc_null [OF bs(1) sz] p0 sz by (intro null) (simp add: tb_mm_realloc_def)
  qed
qed

lemma tb_holds_store:
  assumes h: "tb_holds h L" and p: "(p, n) \<in> L" "p \<le> q" "q + 4 \<le> p + (n - 8)" and w: "PUT h q w = Some h'"
  shows "tb_holds h' L"
proof -
  obtain bs where bs: "heap_inv h bs" "coalesced bs" "live_blocks h bs = L" "\<forall>(p, n) \<in> L. 16 \<le> n"
    using h by (auto simp: tb_holds_def)
  have "in_heap h q" and h': "h' = put h q w" using w by (auto simp: PUT_def put_def split: if_splits)
  then have "changes h h' (p + 4) (p + (n - 8) + 4)"
    unfolding h' by (intro changes_put) (use p in auto)
  then show ?thesis
    using heap_inv_changes_payload [OF bs(1), of p n h' "n - 8"] p bs by (auto simp: tb_holds_def)
qed

lemma tb_session_holds:
  assumes "tb_session h0 h L" and "tb_unborn h0"
  shows "h = h0 \<and> L = {} \<or> tb_holds h L"
  using assms(1)
proof induction
  case (init h)
  then show ?case using tb_start_fresh [OF assms(2)] by simp
next
  case (malloc h L sz p h' n)
  obtain h1 where h1: "tb_mm_malloc sz h = tb_mm_malloc sz h1" "tb_holds h1 L"
    using malloc.IH tb_start_fresh [OF assms(2)] tb_malloc_start [of h _ sz] tb_start_inv unfolding tb_holds_def by metis
  show ?case using malloc.hyps h1 by (cases rule: tb_holds_malloc [OF h1(2) malloc.hyps(2,3)]) auto
next
  case (malloc_null h L sz h')
  obtain h1 where h1: "tb_mm_malloc sz h = tb_mm_malloc sz h1" "tb_holds h1 L"
    using malloc_null.IH tb_start_fresh [OF assms(2)] tb_malloc_start [of h _ sz] tb_start_inv unfolding tb_holds_def by metis
  show ?case using malloc_null.hyps h1 by (cases rule: tb_holds_malloc [OF h1(2) malloc_null.hyps(2,3)]) auto
next
  case (free h L p n h')
  then have "tb_holds h L" by auto
  then show ?case using free.hyps by (cases rule: tb_holds_free [OF _ free.hyps(2)]) auto
next
  case (realloc h L p n sz p' h' n')
  then have "tb_holds h L" by auto
  then show ?case using realloc.hyps by (cases rule: tb_holds_realloc [OF _ realloc.hyps(2-4)]) auto
next
  case (realloc_null h L p n sz h')
  then have "tb_holds h L" by auto
  then show ?case using realloc_null.hyps by (cases rule: tb_holds_realloc [OF _ realloc_null.hyps(2-4)]) auto
next
  case (free_null h L h')
  then show ?case by (auto simp: tb_mm_free_def)
next
  case (realloc_new h L sz p h' n)
  then have m: "tb_mm_malloc sz h = Some (p, h')" by (auto simp: tb_mm_realloc_def tb_mm_free_def split: if_splits)
  obtain h1 where h1: "tb_mm_malloc sz h = tb_mm_malloc sz h1" "tb_holds h1 L"
    using realloc_new.IH tb_start_fresh [OF assms(2)] tb_malloc_start [of h _ sz] tb_start_inv unfolding tb_holds_def by metis
  show ?case using m realloc_new.hyps h1 by (cases rule: tb_holds_malloc [OF h1(2) realloc_new.hyps(2,3)]) auto
next
  case (realloc_new_null h L sz h')
  show ?case
  proof (cases "sz = 0")
    case True
    then show ?thesis using realloc_new_null by (auto simp: tb_mm_realloc_def tb_mm_free_def)
  next
    case False
    then have m: "tb_mm_malloc sz h = Some (0, h')" using realloc_new_null.hyps(4) by (simp add: tb_mm_realloc_def)
    obtain h1 where h1: "tb_mm_malloc sz h = tb_mm_malloc sz h1" "tb_holds h1 L"
      using realloc_new_null.IH tb_start_fresh [OF assms(2)] tb_malloc_start [of h _ sz] tb_start_inv unfolding tb_holds_def by metis
    show ?thesis using m h1 by (cases rule: tb_holds_malloc [OF h1(2) realloc_new_null.hyps(2,3)]) auto
  qed
next
  case (realloc_free h L p n p' h')
  then have "tb_holds h L" by auto
  then show ?case using realloc_free.hyps
    by (cases rule: tb_holds_free [OF _ realloc_free.hyps(2)]) (auto simp: tb_mm_realloc_def)
next
  case (store h L p n q w h')
  then show ?case using tb_holds_store [of h L p n q w h'] by auto
qed simp

text \<open>C40: Whatever calls a client makes with sizes up to \<open>2^32-16\<close>, the heap checker finds nothing wrong
  with the heap, and the allocated blocks that it lists are the prologue and the blocks that the client
  holds. These are aligned, have at least the minimal size, end inside the heap and do not overlap.\<close>

theorem tb_session_checks:
  assumes "fresh h0" and "heap_listp h0 = 0" and "tb_session h0 h L" and "heap_listp h \<noteq> 0"
  shows "tb_mm_checkheap False h = Some [] \<and>
    (\<exists>ms. tb_mm_checkheap True h = Some ms \<and>
      (\<forall>m \<in> set ms. m = Heap_at (heap_listp h) \<or> m = EOL (mem_brk h) \<or> (\<exists>a n f. m = Block a n f n f)) \<and>
      {(p, n). Block p n True n True \<in> set ms} = insert (heap_listp h, 8) L) \<and>
    (\<forall>(p, n) \<in> L. 8 dvd p \<and> 16 \<le> n \<and> mem_start_brk h + 16 \<le> p \<and> p + n \<le> mem_brk h) \<and>
    (\<forall>(p, n) \<in> L. \<forall>(q, m) \<in> L. (p, n) = (q, m) \<or> p + n \<le> q \<or> q + m \<le> p)"
proof -
  have "tb_unborn h0" using assms(1,2) by (simp add: tb_unborn_def)
  then have "tb_holds h L" using tb_session_holds [OF assms(3)] assms(2,4) by auto
  then obtain bs where bs: "heap_inv h bs" "live_blocks h bs = L" "\<forall>(p, n) \<in> L. 16 \<le> n" by (auto simp: tb_holds_def)
  let ?ms = "Heap_at (heap_listp h) # listing (\<lambda>a n f. [Block a n f n f]) (heap_listp h) bs @ [EOL (heap_listp h + total bs)]"
  have b: "heap_listp h + total bs = mem_brk h" "bs = (8, True) # tl bs" "mm.ok_blocks (tl bs)"
    using bs(1) by (cases bs; auto simp: heap_inv_def)+
  have "m = Heap_at (heap_listp h) \<or> m = EOL (mem_brk h) \<or> (\<exists>a n f. m = Block a n f n f)" if "m \<in> set ?ms" for m
    using that listed_block [of m "heap_listp h" bs] b(1) by auto
  moreover have "{(p, n). Block p n True n True \<in> set ?ms} = live (heap_listp h) bs"
    using listed_live [of _ _ _ "heap_listp h" bs] by auto
  moreover have "live (heap_listp h) bs = insert (heap_listp h, 8) L"
    by (subst b(2)) (simp add: live_blocks_def flip: bs(2))
  moreover have "\<forall>(p, n) \<in> L. 8 dvd p \<and> 16 \<le> n \<and> mem_start_brk h + 16 \<le> p \<and> p + n \<le> mem_brk h"
    using live_aligned [OF bs(1)] bs(3) unfolding bs(2) by blast
  moreover have "\<forall>(p, n) \<in> L. \<forall>(q, m) \<in> L. (p, n) = (q, m) \<or> p + n \<le> q \<or> q + m \<le> p"
    using live_disjoint [OF _ _ b(3), of _ _ "heap_listp h + 8"] unfolding bs(2) [symmetric] live_blocks_def by blast
  ultimately show ?thesis using tb_silent_ok [OF bs(1)] tb_verbose_ok [OF bs(1)] by blast
qed

lemma tb_session_checks_witness:
  "\<exists>h p n. tb_session demo_fresh h {(p, n)} \<and> heap_listp h \<noteq> 0 \<and> tb_mm_checkheap False h = Some []"
proof -
  have u: "fresh demo_fresh" "heap_listp demo_fresh = 0" using demo_fresh_ok(1) by (simp_all add: demo_fresh_def)
  obtain h1 where i: "tb_mm_init demo_fresh = Some (0, h1)" "heap_inv h1 [(8, True), (4096, False)]"
    using tb_mm_init_ok [OF u(1)] by blast
  have "has_room 1 h1 [(8, True), (4096, False)]" by (simp add: has_room_def adjusted_def DSIZE_def)
  then obtain p n h bs where m: "tb_mm_malloc 1 h1 = Some (p, h)" "p \<noteq> 0" "heap_inv h bs" "live_blocks h bs = {(p, n)}"
    using tb_malloc_spec [OF i(2), of 1] by (auto simp: live_blocks_def)
  have "GET_SIZE h (HDRP p) = Some n"
    using live_aligned [OF m(3), of p n] m(4) by (auto simp: macros tag_size_PACK ok_size_def)
  then have s: "tb_session demo_fresh h {(p, n)}"
    using tb_session.malloc [OF tb_session.init [OF i(1)] _ _ m(1,2)] by simp
  moreover have "heap_listp h \<noteq> 0" using m(3) by (auto simp: heap_inv_def)
  ultimately show ?thesis using tb_session_checks [OF u] by blast
qed

text \<open>The next call of a session returns, and reallocation keeps the bytes that fit.\<close>

theorem tb_session_progress:
  assumes "tb_unborn h0" and "tb_session h0 h L" and sz: "0 \<le> sz" "sz \<le> 2 ^ 32 - 16"
  shows "(\<exists>p h'. tb_mm_malloc sz h = Some (p, h')) \<and>
    (\<forall>(p, n) \<in> L. \<exists>h'. tb_mm_free p h = Some h') \<and>
    (\<forall>(p, n) \<in> L. \<exists>p' h'. tb_mm_realloc p sz h = Some (p', h') \<and>
      (p' \<noteq> 0 \<longrightarrow> (\<forall>x. 0 \<le> x \<and> x < min (n - 8) sz \<longrightarrow> heap_byte h' (p' + x) = heap_byte h (p + x))))"
proof -
  obtain h1 where h1: "tb_mm_malloc sz h = tb_mm_malloc sz h1" "tb_holds h1 L"
    using tb_session_holds [OF assms(2,1)] tb_start_fresh [OF assms(1)] tb_malloc_start [of h _ sz] tb_start_inv
    unfolding tb_holds_def by metis
  have "\<exists>p h'. tb_mm_malloc sz h = Some (p, h')" unfolding h1(1) by (cases rule: tb_holds_malloc [OF h1(2) sz]) auto
  moreover have held: "tb_holds h L" if "(p, n) \<in> L" for p n
    using that tb_session_holds [OF assms(2,1)] by auto
  have free: "\<exists>h'. tb_mm_free p h = Some h'" if "(p, n) \<in> L" for p n
    by (cases rule: tb_holds_free [OF held that]) (use that in auto)
  moreover have "\<exists>p' h'. tb_mm_realloc p sz h = Some (p', h') \<and>
      (p' \<noteq> 0 \<longrightarrow> (\<forall>x. 0 \<le> x \<and> x < min (n - 8) sz \<longrightarrow> heap_byte h' (p' + x) = heap_byte h (p + x)))" if pn: "(p, n) \<in> L" for p n
  proof (cases "sz = 0")
    case True
    then show ?thesis using free [OF pn] by (auto simp: tb_mm_realloc_def)
  next
    case False
    then have s: "0 < sz" using sz(1) by simp
    show ?thesis by (cases rule: tb_holds_realloc [OF held [OF pn] pn s sz(2)]) auto
  qed
  ultimately show ?thesis by blast
qed

section \<open>Requests that are not 32-bit numbers\<close>

lemma PACK_0: "PACK (2 ^ 32) False = 0" "PACK (2 ^ 32) True = 1" "PACK 0 True = 1" "PACK 0 False = 0"
  "PACK (2 ^ 64 - 2 ^ 32) False = 0"
  by (simp_all add: PACK_def)

lemma tags_0: "tag_size 0 = 0" "tag_size 1 = 0" "tag_alloc 1" "\<not> tag_alloc 0"
  using tag_size_PACK [of 0 False] tag_size_PACK [of 0 True] tag_alloc_PACK [of 0 True] tag_alloc_PACK [of 0 False]
  by (simp_all add: PACK_def)

lemma first_fit_too_big: "heap_inv h bs \<Longrightarrow> 2 ^ 32 \<le> n \<Longrightarrow> first_fit n bs = None"
proof -
  assume inv: "heap_inv h bs" and n: "2 ^ 32 \<le> n"
  have "fst b < n" if b: "b \<in> set bs" for b
  proof -
    obtain xs ys where "bs = xs @ b # ys" using split_list [OF b] by blast
    then have "heap_inv h (xs @ (fst b, snd b) # ys)" using inv by simp
    from heap_inv_D(2) [OF this] n show ?thesis by simp
  qed
  then show ?thesis unfolding first_fit_None by blast
qed

text \<open>C24: A request of \<open>2^32-8\<close> bytes succeeds although no byte is added to the heap: the size is
  passed to \<open>mem_sbrk\<close> as the \<open>int\<close> 0 and stored in the header as 0. The pointer returned is the
  end of the heap, and the epilogue tag is lost.\<close>

theorem tb_malloc_2_32:
  assumes inv: "heap_inv h bs"
  shows "\<exists>h'. tb_mm_malloc (2 ^ 32 - 8) h = Some (mem_brk h, h') \<and> mem_brk h' = mem_brk h \<and>
    GET h' (mem_brk h - 4) = Some 0"
proof -
  let ?b = "mem_brk h"
  obtain xs n f where bs: "bs = xs @ [(n, f)]" using inv by (cases bs rule: rev_cases) (auto simp: heap_inv_def)
  have inv': "heap_inv h (xs @ (n, f) # [])" using inv bs by simp
  note d = heap_inv_D [OF inv']
  have b: "?b = heap_listp h + total xs + n" "?b \<noteq> 0" "?b \<noteq> - 1" "?b \<le> mem_max_addr h"
    using inv d(1,4,8) by (auto simp: bs heap_inv_def ok_size_def)
  have i: "in_heap h (?b - 8)" "in_heap h (?b - 4)"
    using d(11) b(1) inv by (auto simp: heap_inv_def dest: GET_in_heap)
  have a: "tb_adjusted (2 ^ 32 - 8) = 2 ^ 32" by (simp add: tb_adjusted_def DSIZE_def)
  have ff: "tb_find_fit (2 ^ 32) h = Some 0"
    using tb_find_fit_first_fit [OF inv, of "2 ^ 32"] first_fit_too_big [OF inv, of "2 ^ 32"] by simp
  have t: "to_int (2 ^ 32) = 0" by (simp add: to_int_def)
  define h1 where "h1 = put (put (put h (?b - 4) 0) (?b - 8) 0) (?b - 4) 1"
  define h2 where "h2 = put (put h1 (?b - 8) 0) (?b - 4) 0"
  have g1: "GET h1 (?b - 4) = Some 1" "GET h1 (?b - 8) = Some 0" using i by (simp_all add: h1_def GET_put)
  have i1: "in_heap h1 (?b - 8)" "in_heap h1 (?b - 4)" using i by (simp_all add: h1_def)
  have c: "tb_coalesce ?b h1 = Some (?b, h2)"
    using g1 i1 by (simp add: tb_coalesce_def macros tags_0 PUT_eq GET_put PACK_0 h2_def Let_def)
  have e: "tb_extend_heap (2 ^ 32 div WSIZE) h = Some (?b, h2)"
  proof -
    have s: "(if 2 ^ 32 div WSIZE mod 2 \<noteq> 0 then (2 ^ 32 div WSIZE + 1) * WSIZE else 2 ^ 32 div WSIZE * WSIZE) mod 2 ^ 64 = 2 ^ 32"
      by (simp add: WSIZE_def)
    have m: "tb_mem_sbrk 0 h = (?b, h)" using b(4) by (simp add: tb_mem_sbrk_def)
    show ?thesis unfolding tb_extend_heap_def s Let_def t m prod.case
      using b(2,3) i c by (simp add: macros PACK_0 [simplified] PUT_eq GET_put tags_0 h1_def)
  qed
  have g2: "GET h2 (?b - 4) = Some 0" "GET h2 (?b - 8) = Some 0" using i1 by (simp_all add: h2_def GET_put)
  have i2: "in_heap h2 (?b - 8)" "in_heap h2 (?b - 4)" using i1 by (simp_all add: h2_def)
  define h3 where "h3 = put (put (put (put h2 (?b - 4) 1) (?b - 8) 1) (?b - 4) 0) (?b - 8) 0"
  have r: "(- (2 ^ 32)) mod 2 ^ 64 = (2 ^ 64 - 2 ^ 32 :: int)" by simp
  have "tb_place ?b (2 ^ 32) h2 = Some h3"
    using g2 i2 r unfolding tb_place_def macros
    by (simp add: PACK_0 [simplified] PUT_eq GET_put tags_0 h3_def)
  moreover have "GET h3 (?b - 4) = Some 0" "mem_brk h3 = ?b" using i2 by (simp_all add: h3_def GET_put h2_def h1_def)
  moreover have "tb_mm_malloc (2 ^ 32 - 8) h = (do { h \<leftarrow> tb_place ?b (2 ^ 32) h2; Some (?b, h) })"
    unfolding tb_mm_malloc_def Let_def a CHUNKSIZE_def using tb_start_inv [OF inv] ff e b by simp
  ultimately show ?thesis by simp
qed

lemma tb_malloc_2_32_witness:
  "\<exists>h'. tb_mm_malloc (2 ^ 32 - 8) (demo_heap True) = Some (64, h') \<and> mem_brk h' = 64"
  using tb_malloc_2_32 [OF demo_heap_inv, of True] by auto

end
