(* ===== verification/Rec_Malloc.thy ===== *)
theory Rec_Malloc
  imports Boundary_Tags "HOL-Library.Monad_Syntax"
begin

text \<open>
  The allocators of the recitation \<open>malloc/f19-rec-malloc\<close>: \<open>mm.c\<close> and \<open>mm-2.c\<close>, which are the same
  but for \<open>coalesce_block\<close> and \<open>split_block\<close>. These two functions have a definition for each file; the
  functions that call them take them as parameters.

  Addresses and sizes are integers, and \<open>size_t\<close> arithmetic wraps modulo \<open>2^64\<close> where it can. Memory
  is a function from addresses to 64-bit words; it extends to the end of the region that \<open>memlib.c\<close>
  maps (\<open>SPARSE_MODE\<close> is 0), so that a word behind the break can be written. An access that is not
  aligned or leaves the region is the result \<open>None\<close>. A block is the address of its header. \<open>mem_sbrk\<close>
  also asks the system for the memory; \<open>sys_sbrk h brk incr\<close> says whether that call succeeds.
\<close>

unbundle bit_operations_syntax

section \<open>memlib.c\<close>

record rheap =
  mem :: "int \<Rightarrow> c_ulong"
  lo_addr :: int
  brk_addr :: int
  max_addr :: int
  sys_sbrk :: "int \<Rightarrow> int \<Rightarrow> bool"
  heap_start :: int

definition rec_sbrk :: "int \<Rightarrow> rheap \<Rightarrow> int \<times> rheap" where
  "rec_sbrk incr h =
     (if incr < 0 \<or> max_addr h < brk_addr h + incr \<or> \<not> sys_sbrk h (brk_addr h) incr then (- 1, h)
      else (brk_addr h, h\<lparr>brk_addr := brk_addr h + incr\<rparr>))"

definition mapped :: "rheap \<Rightarrow> int \<Rightarrow> bool" where
  "mapped h p \<longleftrightarrow> 8 dvd p \<and> lo_addr h \<le> p \<and> p + 8 \<le> max_addr h"

definition peek :: "rheap \<Rightarrow> int \<Rightarrow> c_ulong option" where
  "peek h p = (if mapped h p then Some (mem h p) else None)"

definition poke :: "rheap \<Rightarrow> int \<Rightarrow> c_ulong \<Rightarrow> rheap option" where
  "poke h p w = (if mapped h p then Some (h\<lparr>mem := (mem h)(p := w)\<rparr>) else None)"

section \<open>Helper functions of mm.c\<close>

definition wsize :: int where "wsize = 8"
definition dsize :: int where "dsize = 2 * wsize"
definition min_block_size :: int where "min_block_size = 2 * dsize"
definition chunksize :: int where "chunksize = 2 ^ 12"

definition round_up :: "int \<Rightarrow> int \<Rightarrow> int" where
  "round_up sz k = k * ((sz + (k - 1)) mod 2 ^ 64 div k) mod 2 ^ 64"

definition pack :: "int \<Rightarrow> bool \<Rightarrow> c_ulong" where
  "pack sz alloc = (if alloc then word_of_int sz OR 0x1 else word_of_int sz)"

definition extract_size :: "c_ulong \<Rightarrow> int" where
  "extract_size w = uint (w AND NOT 0xF)"

definition extract_alloc :: "c_ulong \<Rightarrow> bool" where
  "extract_alloc w \<longleftrightarrow> w AND 0x1 \<noteq> 0"

definition get_size :: "rheap \<Rightarrow> int \<Rightarrow> int option" where
  "get_size h block = map_option extract_size (peek h block)"

definition get_alloc :: "rheap \<Rightarrow> int \<Rightarrow> bool option" where
  "get_alloc h block = map_option extract_alloc (peek h block)"

definition payload_to_header :: "int \<Rightarrow> int" where
  "payload_to_header bp = bp - wsize"

definition header_to_payload :: "int \<Rightarrow> int" where
  "header_to_payload block = block + wsize"

definition header_to_footer :: "rheap \<Rightarrow> int \<Rightarrow> int option" where
  "header_to_footer h block = do { n \<leftarrow> get_size h block; Some (header_to_payload block + n - dsize) }"

definition write_header :: "int \<Rightarrow> int \<Rightarrow> bool \<Rightarrow> rheap \<Rightarrow> rheap option" where
  "write_header block sz alloc h = poke h block (pack sz alloc)"

definition write_footer :: "int \<Rightarrow> int \<Rightarrow> bool \<Rightarrow> rheap \<Rightarrow> rheap option" where
  "write_footer block sz alloc h = do { p \<leftarrow> header_to_footer h block; poke h p (pack sz alloc) }"

definition find_next :: "rheap \<Rightarrow> int \<Rightarrow> int option" where
  "find_next h block = do { n \<leftarrow> get_size h block; Some (block + n) }"

definition find_prev_footer :: "int \<Rightarrow> int" where
  "find_prev_footer block = block - wsize"

definition find_prev :: "rheap \<Rightarrow> int \<Rightarrow> int option" where
  "find_prev h block = do { w \<leftarrow> peek h (find_prev_footer block); Some (block - extract_size w) }"

section \<open>The functions in which the files differ\<close>

definition coalesce_block :: "int \<Rightarrow> rheap \<Rightarrow> (int \<times> rheap) option" where
  "coalesce_block block h = do {
     size \<leftarrow> get_size h block;
     block_next \<leftarrow> find_next h block;
     block_prev \<leftarrow> find_prev h block;
     w \<leftarrow> peek h (find_prev_footer block);
     let prev_alloc = extract_alloc w;
     next_alloc \<leftarrow> get_alloc h block_next;
     if prev_alloc \<and> next_alloc then Some (block, h)
     else if prev_alloc \<and> \<not> next_alloc then do {
       n \<leftarrow> get_size h block_next;
       let size = (size + n) mod 2 ^ 64;
       h \<leftarrow> write_header block size False h;
       h \<leftarrow> write_footer block size False h;
       Some (block, h)
     }
     else if \<not> prev_alloc \<and> next_alloc then do {
       p \<leftarrow> get_size h block_prev;
       let size = (size + p) mod 2 ^ 64;
       h \<leftarrow> write_header block_prev size False h;
       h \<leftarrow> write_footer block_prev size False h;
       Some (block_prev, h)
     }
     else do {
       n \<leftarrow> get_size h block_next;
       p \<leftarrow> get_size h block_prev;
       let size = (size + (n + p)) mod 2 ^ 64;
       h \<leftarrow> write_header block_prev size False h;
       h \<leftarrow> write_footer block_prev size False h;
       Some (block_prev, h)
     }
   }"

text \<open>
  In \<open>mm-2.c\<close> the first case writes the \<open>int\<close> \<open>0x15213\<close> into the payload of the next block: the lower
  half of its first word.
\<close>

definition coalesce_block_2 :: "int \<Rightarrow> rheap \<Rightarrow> (int \<times> rheap) option" where
  "coalesce_block_2 block h = do {
     block_next \<leftarrow> find_next h block;
     w \<leftarrow> peek h (find_prev_footer block);
     next_alloc \<leftarrow> get_alloc h block_next;
     if extract_alloc w \<and> next_alloc then do {
       v \<leftarrow> peek h (header_to_payload block_next);
       h \<leftarrow> poke h (header_to_payload block_next) (v AND NOT 0xFFFFFFFF OR 0x15213);
       Some (block, h)
     }
     else coalesce_block block h
   }"

definition split_block :: "int \<Rightarrow> int \<Rightarrow> rheap \<Rightarrow> rheap option" where
  "split_block block asize h = do {
     block_size \<leftarrow> get_size h block;
     if (block_size - asize) mod 2 ^ 64 \<ge> min_block_size then do {
       h \<leftarrow> write_header block asize True h;
       h \<leftarrow> write_footer block asize True h;
       block_next \<leftarrow> find_next h block;
       h \<leftarrow> write_footer block_next ((block_size - asize) mod 2 ^ 64) False h;
       write_header block_next ((block_size - asize) mod 2 ^ 64) False h
     }
     else Some h
   }"

definition split_block_2 :: "int \<Rightarrow> int \<Rightarrow> rheap \<Rightarrow> rheap option" where
  "split_block_2 block asize h = do {
     block_size \<leftarrow> get_size h block;
     if (block_size - asize) mod 2 ^ 64 \<ge> min_block_size then do {
       h \<leftarrow> write_header block asize True h;
       h \<leftarrow> write_footer block asize True h;
       block_next \<leftarrow> find_next h block;
       h \<leftarrow> write_header block_next ((block_size - asize) mod 2 ^ 64) False h;
       write_footer block_next ((block_size - asize) mod 2 ^ 64) False h
     }
     else Some h
   }"

section \<open>The allocator\<close>

type_synonym coalescer = "int \<Rightarrow> rheap \<Rightarrow> (int \<times> rheap) option"
type_synonym splitter = "int \<Rightarrow> int \<Rightarrow> rheap \<Rightarrow> rheap option"

text \<open>A null pointer is 0.\<close>

definition rec_extend_heap :: "coalescer \<Rightarrow> int \<Rightarrow> rheap \<Rightarrow> (int \<times> rheap) option" where
  "rec_extend_heap coalesce sz h =
     (let size = round_up sz dsize;
          (bp, h) = rec_sbrk size h
      in if bp = - 1 then Some (0, h)
         else do {
           let block = payload_to_header bp;
           h \<leftarrow> write_header block size False h;
           h \<leftarrow> write_footer block size False h;
           block_next \<leftarrow> find_next h block;
           h \<leftarrow> write_header block_next 0 True h;
           coalesce block h
         })"

text \<open>A walk that never meets a size of zero does not return.\<close>

partial_function (option) rec_find_fit_loop :: "rheap \<Rightarrow> int \<Rightarrow> int \<Rightarrow> int option" where
  "rec_find_fit_loop h asize block = do {
     size \<leftarrow> get_size h block;
     if size > 0 then do {
       alloc \<leftarrow> get_alloc h block;
       if \<not> alloc \<and> asize \<le> size then Some block
       else do { block_next \<leftarrow> find_next h block; rec_find_fit_loop h asize block_next }
     } else Some 0
   }"

declare rec_find_fit_loop.simps [code]

definition rec_find_fit :: "int \<Rightarrow> rheap \<Rightarrow> int option" where
  "rec_find_fit asize h = rec_find_fit_loop h asize (heap_start h)"

definition rec_init :: "coalescer \<Rightarrow> rheap \<Rightarrow> (bool \<times> rheap) option" where
  "rec_init coalesce h =
     (let (start, h) = rec_sbrk (2 * wsize) h
      in if start = - 1 then Some (False, h)
         else do {
           h \<leftarrow> poke h start (pack 0 True);
           h \<leftarrow> poke h (start + wsize) (pack 0 True);
           let h = h\<lparr>heap_start := start + wsize\<rparr>;
           (block, h) \<leftarrow> rec_extend_heap coalesce chunksize h;
           Some (block \<noteq> 0, h)
         })"

definition rec_malloc :: "coalescer \<Rightarrow> splitter \<Rightarrow> int \<Rightarrow> rheap \<Rightarrow> (int \<times> rheap) option" where
  "rec_malloc coalesce split sz h = do {
     h \<leftarrow> (if heap_start h = 0 then map_option snd (rec_init coalesce h) else Some h);
     if sz = 0 then Some (0, h)
     else do {
       let asize = round_up ((sz + dsize) mod 2 ^ 64) dsize;
       block \<leftarrow> rec_find_fit asize h;
       (block, h) \<leftarrow> (if block = 0 then rec_extend_heap coalesce (if asize > chunksize then asize else chunksize) h
                       else Some (block, h));
       if block = 0 then Some (0, h)
       else do {
         block_size \<leftarrow> get_size h block;
         h \<leftarrow> write_header block block_size True h;
         h \<leftarrow> write_footer block block_size True h;
         h \<leftarrow> split block asize h;
         Some (header_to_payload block, h)
       }
     }
   }"

definition rec_free :: "coalescer \<Rightarrow> int \<Rightarrow> rheap \<Rightarrow> rheap option" where
  "rec_free coalesce bp h =
     (if bp = 0 then Some h
      else do {
        let block = payload_to_header bp;
        size \<leftarrow> get_size h block;
        h \<leftarrow> write_header block size False h;
        h \<leftarrow> write_footer block size False h;
        (block, h) \<leftarrow> coalesce block h;
        Some h
      })"

text \<open>
  The copies of \<open>memcpy\<close> and \<open>memset\<close> in \<open>memlib.c\<close>, from aligned addresses. The bytes of a part of a
  word are its low ones: the machine is little endian.
\<close>

definition mem_read :: "rheap \<Rightarrow> int \<Rightarrow> nat \<Rightarrow> c_ulong option" where
  "mem_read h addr len = do { rdata \<leftarrow> peek h addr; Some (if len < 8 then rdata AND mask (8 * len) else rdata) }"

definition mem_write :: "int \<Rightarrow> c_ulong \<Rightarrow> nat \<Rightarrow> rheap \<Rightarrow> rheap option" where
  "mem_write addr val len h =
     (if len = 8 then poke h addr val
      else do { w \<leftarrow> peek h addr; poke h addr (w AND NOT (mask (8 * len)) OR val AND mask (8 * len)) })"

fun mem_memcpy :: "int \<Rightarrow> int \<Rightarrow> nat \<Rightarrow> rheap \<Rightarrow> rheap option" where
  "mem_memcpy dst src n h =
     (if n \<ge> 8
      then do { data \<leftarrow> mem_read h src 8; h \<leftarrow> mem_write dst data 8 h; mem_memcpy (dst + 8) (src + 8) (n - 8) h }
      else if n \<noteq> 0 then do { data \<leftarrow> mem_read h src n; mem_write dst data n h }
      else Some h)"

definition memset_data :: "c_ulong \<Rightarrow> c_ulong" where
  "memset_data c = (let byte = c AND 0xFF in foldl (\<lambda>data i. data OR push_bit (8 * i) byte) 0 [0..<8])"

fun memset_loop :: "c_ulong \<Rightarrow> int \<Rightarrow> nat \<Rightarrow> rheap \<Rightarrow> rheap option" where
  "memset_loop data dst n h =
     (if n \<ge> 8 then do { h \<leftarrow> mem_write dst data 8 h; memset_loop data (dst + 8) (n - 8) h }
      else if n \<noteq> 0 then mem_write dst data n h
      else Some h)"

definition mem_memset :: "int \<Rightarrow> c_ulong \<Rightarrow> nat \<Rightarrow> rheap \<Rightarrow> rheap option" where
  "mem_memset dst c n h = memset_loop (memset_data c) dst n h"

declare mem_memcpy.simps [simp del] memset_loop.simps [simp del]

definition get_payload_size :: "rheap \<Rightarrow> int \<Rightarrow> int option" where
  "get_payload_size h block = do { asize \<leftarrow> get_size h block; Some ((asize - dsize) mod 2 ^ 64) }"

definition rec_realloc :: "coalescer \<Rightarrow> splitter \<Rightarrow> int \<Rightarrow> int \<Rightarrow> rheap \<Rightarrow> (int \<times> rheap) option" where
  "rec_realloc coalesce split ptr sz h =
     (let block = payload_to_header ptr
      in if sz = 0 then do { h \<leftarrow> rec_free coalesce ptr h; Some (0, h) }
         else if ptr = 0 then rec_malloc coalesce split sz h
         else do {
           (newptr, h) \<leftarrow> rec_malloc coalesce split sz h;
           if newptr = 0 then Some (0, h)
           else do {
             copysize \<leftarrow> get_payload_size h block;
             let copysize = (if sz < copysize then sz else copysize);
             h \<leftarrow> mem_memcpy newptr ptr (nat copysize) h;
             h \<leftarrow> rec_free coalesce ptr h;
             Some (newptr, h)
           }
         })"

text \<open>Division by zero is undefined.\<close>

definition rec_calloc :: "coalescer \<Rightarrow> splitter \<Rightarrow> int \<Rightarrow> int \<Rightarrow> rheap \<Rightarrow> (int \<times> rheap) option" where
  "rec_calloc coalesce split elements sz h =
     (let asize = elements * sz mod 2 ^ 64
      in if elements = 0 then None
         else if asize div elements \<noteq> sz then Some (0, h)
         else do {
           (bp, h) \<leftarrow> rec_malloc coalesce split asize h;
           if bp = 0 then Some (0, h)
           else do { h \<leftarrow> mem_memset bp 0 (nat asize) h; Some (bp, h) }
         })"

section \<open>Tags\<close>

definition ok_tag_size :: "int \<Rightarrow> bool" where
  "ok_tag_size n \<longleftrightarrow> 16 dvd n \<and> 32 \<le> n \<and> n < 2 ^ 62"

lemma bit_15: "bit (15 :: c_ulong) i \<longleftrightarrow> i < 4"
proof -
  have "(15 :: c_ulong) = mask 4" by (simp add: mask_eq_exp_minus_1)
  then show ?thesis by (simp only: bit_mask_iff) auto
qed

lemma pack_shift: "16 dvd n \<Longrightarrow> pack n f = push_bit 4 (word_of_int (n div 16)) OR (if f then 1 else 0)"
proof -
  assume "16 dvd n"
  then have "n = n div 16 * 16" by simp
  then have "(word_of_int n :: c_ulong) = word_of_int (n div 16) * 16" by (metis of_int_mult of_int_numeral)
  then show ?thesis by (simp add: pack_def push_bit_eq_mult)
qed

lemma extract_size_pack: "16 dvd n \<Longrightarrow> 0 \<le> n \<Longrightarrow> n < 2 ^ 62 \<Longrightarrow> extract_size (pack n f) = n"
proof -
  assume n: "16 dvd n" "0 \<le> n" "n < 2 ^ 62"
  have "pack n f AND NOT 15 = push_bit 4 (word_of_int (n div 16))"
    unfolding pack_shift [OF n(1)]
    by (rule bit_word_eqI, cases f)
      (auto simp only: bit_and_iff bit_or_iff bit_not_iff bit_15 bit_push_bit_iff bit_1_iff if_True if_False bit_0_eq bot_fun_def bot_bool_def)
  also have "\<dots> = word_of_int n" using n by (auto simp: push_bit_eq_mult)
  finally show ?thesis unfolding extract_size_def using n by (simp add: uint_word_of_int)
qed

lemma extract_alloc_pack: "16 dvd n \<Longrightarrow> extract_alloc (pack n f) = f"
proof -
  assume n: "16 dvd n"
  have "pack n f AND 1 = (if f then 1 else 0)"
    unfolding pack_shift [OF n]
    by (rule bit_word_eqI) (auto simp: bit_and_iff bit_or_iff bit_push_bit_iff bit_1_iff split: if_splits)
  then show ?thesis by (simp add: extract_alloc_def)
qed

interpretation rm: boundary_tags 8 pack extract_size extract_alloc ok_tag_size
  by unfold_locales (auto simp: ok_tag_size_def extract_size_pack extract_alloc_pack)

section \<open>The heap as a list of blocks\<close>

text \<open>
  The blocks follow the prologue, which is only a footer; \<open>base\<close> is the payload address of the first
  one. The region is not used up to its last word, which \<open>mm-2.c\<close> can write.
\<close>

definition base :: "rheap \<Rightarrow> int" where
  "base h = lo_addr h + 16"

definition rec_inv :: "rheap \<Rightarrow> block list \<Rightarrow> bool" where
  "rec_inv h bs \<longleftrightarrow>
     16 dvd lo_addr h \<and> 0 < lo_addr h \<and> heap_start h = lo_addr h + 8 \<and> brk_addr h = base h + total bs \<and>
     brk_addr h + 16 \<le> max_addr h \<and> max_addr h - lo_addr h \<le> 2 ^ 40 \<and> rm.ok_blocks bs \<and>
     peek h (base h - 16) = Some (pack 0 True) \<and> peek h (brk_addr h - 8) = Some (pack 0 True) \<and>
     seg 8 pack (peek h) (base h) bs"

definition upd :: "rheap \<Rightarrow> int \<Rightarrow> c_ulong \<Rightarrow> rheap" where
  "upd h p w = h\<lparr>mem := (mem h)(p := w)\<rparr>"

definition rtags :: "rheap \<Rightarrow> int \<Rightarrow> int \<Rightarrow> bool \<Rightarrow> rheap" where
  "rtags h block n f = upd (upd h block (pack n f)) (block + n - 8) (pack n f)"

lemma upd_fields [simp]:
  "lo_addr (upd h p w) = lo_addr h" "brk_addr (upd h p w) = brk_addr h" "max_addr (upd h p w) = max_addr h"
  "heap_start (upd h p w) = heap_start h" "sys_sbrk (upd h p w) = sys_sbrk h" "mapped (upd h p w) = mapped h" "base (upd h p w) = base h"
  by (simp_all add: upd_def mapped_def fun_eq_iff base_def)

lemma rtags_fields [simp]:
  "lo_addr (rtags h b n f) = lo_addr h" "brk_addr (rtags h b n f) = brk_addr h" "max_addr (rtags h b n f) = max_addr h"
  "heap_start (rtags h b n f) = heap_start h" "sys_sbrk (rtags h b n f) = sys_sbrk h" "mapped (rtags h b n f) = mapped h" "base (rtags h b n f) = base h"
  by (simp_all add: rtags_def)

lemma poke_eq: "mapped h p \<Longrightarrow> poke h p w = Some (upd h p w)"
  by (simp add: poke_def upd_def)

lemma peek_upd: "mapped h p \<Longrightarrow> peek (upd h p w) = (peek h)(p \<mapsto> w)"
  by (auto simp: peek_def fun_eq_iff) (simp_all add: upd_def)

lemma peek_rtags:
  "mapped h b \<Longrightarrow> mapped h (b + n - 8) \<Longrightarrow> peek (rtags h b n f) = retag 8 pack (peek h) (b + 8) n f"
  by (simp add: rtags_def peek_upd retag_def)

lemmas rec_macros = get_size_def get_alloc_def find_next_def find_prev_def find_prev_footer_def header_to_footer_def
  header_to_payload_def payload_to_header_def wsize_def dsize_def min_block_size_def

text \<open>Header and footer are written together.\<close>

lemma write_tags:
  assumes "mapped h b" "mapped h (b + n - 8)" "extract_size (pack n f) = n"
  shows "write_header b n f h = Some (upd h b (pack n f))" "write_footer b n f (upd h b (pack n f)) = Some (rtags h b n f)"
  using assms by (simp_all add: write_header_def write_footer_def poke_eq rec_macros peek_upd rtags_def)

lemma dvd_total_16: "rm.ok_blocks bs \<Longrightarrow> 16 dvd total bs"
  by (induction bs) (auto simp: ok_tag_size_def)

text \<open>What an invariant says around a block.\<close>

lemma rec_inv_D:
  assumes "rec_inv h (xs @ mid @ ys)" and "mid \<noteq> []"
  defines "b \<equiv> base h + total xs - 8"
  shows "mapped h b" "mapped h (b + total mid - 8)" "rm.ok_blocks xs" "rm.ok_blocks mid" "rm.ok_blocks ys"
    "ok_tag_size (total mid)" "0 < b" "0 \<le> total xs" "0 \<le> total ys" "mapped h (b + total mid + 8)" "16 dvd b + 8"
    "b + total mid + total ys + 8 = brk_addr h"
proof -
  have ok: "rm.ok_blocks xs" "rm.ok_blocks mid" "rm.ok_blocks ys" using assms by (auto simp: rec_inv_def)
  then show "rm.ok_blocks xs" "rm.ok_blocks mid" "rm.ok_blocks ys" .
  have d: "16 dvd total xs" "16 dvd total mid" "16 dvd lo_addr h" using dvd_total_16 ok assms by (auto simp: rec_inv_def)
  show t: "0 \<le> total xs" "0 \<le> total ys" using rm.total_nonneg ok by auto
  have m: "32 \<le> total mid" using \<open>mid \<noteq> []\<close> ok(2) rm.total_nonneg by (cases mid) (auto simp: ok_tag_size_def add_increasing2)
  have e: "brk_addr h = base h + total xs + total mid + total ys" "brk_addr h + 16 \<le> max_addr h" "max_addr h - lo_addr h \<le> 2 ^ 40"
    "0 < lo_addr h" "base h = lo_addr h + 16"
    using assms by (auto simp: rec_inv_def base_def)
  show "b + total mid + total ys + 8 = brk_addr h" using e by (simp add: b_def)
  show "16 dvd b + 8" "0 < b" using d e t by (auto simp: b_def)
  have "8 dvd b" "8 dvd total mid" using d e by (auto simp: b_def intro: dvd_trans [of 8 16])
  then have dv: "8 dvd b" "8 dvd b + total mid - 8" "8 dvd b + total mid + 8" by simp_all
  have le: "lo_addr h \<le> b" "b + total mid + 16 \<le> max_addr h" using e t by (simp_all add: b_def)
  with dv m show "mapped h b" "mapped h (b + total mid - 8)" "mapped h (b + total mid + 8)"
    by (simp_all add: mapped_def)
  have "total mid < 2 ^ 62" using e t by (simp add: b_def)
  then show "ok_tag_size (total mid)" using d m by (simp add: ok_tag_size_def)
qed

text \<open>Writing the tags of adjacent blocks that become one, and of a block that is split.\<close>

lemma rec_retag:
  assumes inv: "rec_inv h (xs @ mid @ ys)" and ne: "mid \<noteq> []"
  defines "b \<equiv> base h + total xs - 8"
  shows "rec_inv (rtags h b (total mid) f) (xs @ [(total mid, f)] @ ys)"
proof -
  note d = rec_inv_D [OF inv ne, folded b_def]
  have b: "b + 8 = base h + total xs" "32 \<le> total mid" using d(6) by (simp_all add: b_def ok_tag_size_def)
  have p: "peek (rtags h b (total mid) f) = retag 8 pack (peek h) (base h + total xs) (total mid) f"
    using peek_rtags [OF d(1,2)] by (simp add: b(1))
  have "peek (rtags h b (total mid) f) (base h - 16) = peek h (base h - 16)"
    "peek (rtags h b (total mid) f) (brk_addr h - 8) = peek h (brk_addr h - 8)"
    using d(8,9,12) b by (auto simp: p retag_def)
  moreover have "seg 8 pack (peek (rtags h b (total mid) f)) (base h) (xs @ [(total mid, f)] @ ys)"
    unfolding p by (rule rm.seg_retag) (use inv d in \<open>auto simp: rec_inv_def\<close>)
  ultimately show ?thesis using inv d(3-6) by (auto simp: rec_inv_def)
qed

lemma rec_retag_split:
  assumes inv: "rec_inv h (xs @ (n + r, g) # ys)" and ok: "ok_tag_size n" "ok_tag_size r"
  defines "b \<equiv> base h + total xs - 8"
  shows "rec_inv (rtags (rtags h b n f) (b + n) r f') (xs @ [(n, f), (r, f')] @ ys)"
    "mapped h (b + n - 8)" "mapped h (b + n)" "mapped h (b + n + r - 8)"
proof -
  have inv': "rec_inv h (xs @ [(n + r, g)] @ ys)" using inv by simp
  note d = rec_inv_D [OF inv' not_Cons_self2, folded b_def]
  have nr: "32 \<le> n" "32 \<le> r" "16 dvd n" "16 dvd r" "total [(n + r, g)] = n + r" using ok by (simp_all add: ok_tag_size_def)
  have dv: "8 dvd b" "8 dvd n" "8 dvd r" using nr d(1) by (auto simp: mapped_def intro: dvd_trans [of 8 16])
  have le: "lo_addr h \<le> b" "b + n + r \<le> max_addr h" using d(1,2) by (simp_all add: mapped_def)
  show m: "mapped h (b + n - 8)" "mapped h (b + n)" "mapped h (b + n + r - 8)"
    using dv le nr by (simp_all add: mapped_def)
  have b: "b + 8 = base h + total xs" by (simp add: b_def)
  have p: "peek (rtags (rtags h b n f) (b + n) r f') =
      retag 8 pack (retag 8 pack (peek h) (base h + total xs) n f) (base h + total xs + n) r f'"
  proof -
    have "peek (rtags (rtags h b n f) (b + n) r f') = retag 8 pack (peek (rtags h b n f)) (b + n + 8) r f'"
      by (rule peek_rtags) (use m in simp_all)
    moreover have "b + n + 8 = base h + total xs + n" using b by simp
    ultimately show ?thesis using peek_rtags [OF d(1) m(1), of f] by (simp only: b)
  qed
  have "peek (rtags (rtags h b n f) (b + n) r f') (base h - 16) = peek h (base h - 16)"
    "peek (rtags (rtags h b n f) (b + n) r f') (brk_addr h - 8) = peek h (brk_addr h - 8)"
    using d(8,9,12) b nr by (auto simp: p retag_def)
  moreover have "seg 8 pack (peek (rtags (rtags h b n f) (b + n) r f')) (base h) (xs @ [(n, f), (r, f')] @ ys)"
    unfolding p by (rule rm.seg_retag_split) (use inv d ok in \<open>auto simp: rec_inv_def\<close>)
  ultimately show "rec_inv (rtags (rtags h b n f) (b + n) r f') (xs @ [(n, f), (r, f')] @ ys)"
    using inv d ok by (auto simp: rec_inv_def)
qed

text \<open>What the helper functions read at a block and at its neighbours.\<close>

definition prev_of :: "block list \<Rightarrow> block" where
  "prev_of xs = (if xs = [] then (0, True) else last xs)"

definition next_of :: "block list \<Rightarrow> block" where
  "next_of ys = (if ys = [] then (0, True) else hd ys)"

lemma tag_values:
  "ok_tag_size n \<Longrightarrow> extract_size (pack n f) = n" "ok_tag_size n \<Longrightarrow> extract_alloc (pack n f) = f"
  "extract_size (pack 0 True) = 0" "extract_alloc (pack 0 True)"
  by (auto simp: ok_tag_size_def extract_size_pack extract_alloc_pack)

lemma rec_block:
  assumes "rec_inv h (xs @ (n, f) # ys)"
  defines "b \<equiv> base h + total xs - 8"
  shows "peek h b = Some (pack n f)" "peek h (b + n - 8) = Some (pack n f)" "ok_tag_size n"
  using assms by (auto simp: rec_inv_def algebra_simps)

lemma rec_next:
  assumes "rec_inv h (xs @ (n, f) # ys)"
  defines "b \<equiv> base h + total xs - 8"
  shows "peek h (b + n) = Some (pack (fst (next_of ys)) (snd (next_of ys)))" "next_of ys = (0, True) \<or> ok_tag_size (fst (next_of ys))"
  using assms by (cases ys; auto simp: rec_inv_def next_of_def algebra_simps)+

lemma rec_prev:
  assumes "rec_inv h (xs @ (n, f) # ys)"
  defines "b \<equiv> base h + total xs - 8"
  shows "peek h (b - 8) = Some (pack (fst (prev_of xs)) (snd (prev_of xs)))" "prev_of xs = (0, True) \<or> ok_tag_size (fst (prev_of xs))"
proof -
  have "peek h (b - 8) = Some (pack (fst (prev_of xs)) (snd (prev_of xs))) \<and> (prev_of xs = (0, True) \<or> ok_tag_size (fst (prev_of xs)))"
  proof (cases xs rule: rev_cases)
    case Nil
    then show ?thesis using assms by (simp add: rec_inv_def prev_of_def)
  next
    case (snoc xs' p)
    then have "rec_inv h (xs' @ (fst p, snd p) # (n, f) # ys)" using assms by simp
    from rec_block [OF this] show ?thesis using snoc by (simp add: b_def prev_of_def algebra_simps)
  qed
  then show "peek h (b - 8) = Some (pack (fst (prev_of xs)) (snd (prev_of xs)))" "prev_of xs = (0, True) \<or> ok_tag_size (fst (prev_of xs))"
    by auto
qed

section \<open>The contracts of the two functions\<close>

text \<open>
  Coalescing joins a free block with its free neighbours; splitting an allocated block keeps it and
  makes a free block of the rest, if that has at least 32 bytes.
\<close>

definition same_region :: "rheap \<Rightarrow> rheap \<Rightarrow> bool" where
  "same_region h h' \<longleftrightarrow> lo_addr h' = lo_addr h \<and> brk_addr h' = brk_addr h \<and> max_addr h' = max_addr h \<and>
     heap_start h' = heap_start h \<and> sys_sbrk h' = sys_sbrk h"

lemma same_regionD: "same_region h h' \<Longrightarrow> base h' = base h" "same_region h h' \<Longrightarrow> mapped h' = mapped h"
  by (auto simp: same_region_def base_def mapped_def fun_eq_iff)

lemma same_region_rtags [simp]: "same_region h (rtags h b n f)" "same_region h h"
  "same_region h (rtags (rtags h b n f) c m g)" "same_region h (upd h p w)"
  by (simp_all add: same_region_def)

definition kept :: "int \<Rightarrow> int \<Rightarrow> block list" where
  "kept n m = (if n + 32 \<le> m then [(n, True), (m - n, False)] else [(m, True)])"

locale coalescing =
  fixes coalesce :: coalescer
  assumes joins: "rec_inv h (xs @ (n, False) # ys) \<Longrightarrow>
    \<exists>h' xs' m ys'. coalesce (base h + total xs - 8) h = Some (base h + total xs' - 8, h') \<and>
      joined xs n ys = xs' @ (m, False) # ys' \<and> rec_inv h' (joined xs n ys) \<and> same_region h h' \<and>
      total xs' \<le> total xs \<and> total xs + n \<le> total xs' + m"

locale splitting =
  fixes split :: splitter
  assumes splits: "rec_inv h (xs @ (m, True) # ys) \<Longrightarrow> ok_tag_size n \<Longrightarrow> n \<le> m \<Longrightarrow>
    \<exists>h'. split (base h + total xs - 8) n h = Some h' \<and> rec_inv h' (xs @ kept n m @ ys) \<and> same_region h h'"

text \<open>What \<open>coalesce_block\<close> reads, and the neighbours when they are free.\<close>

lemma neighbours:
  assumes inv: "rec_inv h (xs @ (n, False) # ys)"
  defines "b \<equiv> base h + total xs - 8"
  shows "get_size h b = Some n" "find_next h b = Some (b + n)" "peek h (find_prev_footer b) = Some (pack (fst (prev_of xs)) (snd (prev_of xs)))"
    "find_prev h b = Some (b - fst (prev_of xs))" "extract_alloc (pack (fst (prev_of xs)) (snd (prev_of xs))) = snd (prev_of xs)"
    "get_alloc h (b + n) = Some (snd (next_of ys))" "get_size h (b + n) = Some (fst (next_of ys))"
  using rec_block [OF inv, folded b_def] rec_next [OF inv, folded b_def] rec_prev [OF inv, folded b_def]
    tag_values(1,2) [of "fst (prev_of xs)" "snd (prev_of xs)"] tag_values(1,2) [of "fst (next_of ys)" "snd (next_of ys)"] tag_values(3,4)
  by (auto simp: rec_macros tag_values)

lemma prev_free:
  assumes inv: "rec_inv h (xs @ (n, False) # ys)" and p: "\<not> snd (prev_of xs)"
  obtains xs' p where "xs = xs' @ [(p, False)]" "fst (prev_of xs) = p" "get_size h (base h + total xs' - 8) = Some p"
proof -
  obtain xs' p where xs: "xs = xs' @ [(p, False)]" using p by (cases xs rule: rev_cases) (auto simp: prev_of_def)
  then have "rec_inv h (xs' @ (p, False) # (n, False) # ys)" using inv by simp
  then have "get_size h (base h + total xs' - 8) = Some p" by (rule neighbours(1))
  then show thesis using that xs by (simp add: prev_of_def)
qed

lemma next_free:
  assumes "\<not> snd (next_of ys)" obtains q ys' where "ys = (q, False) # ys'" "next_of ys = (q, False)"
  using assms by (cases ys) (auto simp: next_of_def prod_eq_iff)

lemma mod_size: "ok_tag_size s \<Longrightarrow> s mod 2 ^ 64 = s"
  by (simp add: ok_tag_size_def)

text \<open>Writing the tags of the block that adjacent blocks become.\<close>

lemma join_writes:
  assumes inv: "rec_inv h (xs @ mid @ ys)" and ne: "mid \<noteq> []"
  defines "b \<equiv> base h + total xs - 8"
  shows "do { h \<leftarrow> write_header b (total mid mod 2 ^ 64) f h; h \<leftarrow> write_footer b (total mid mod 2 ^ 64) f h; k h } =
    k (rtags h b (total mid) f)"
proof -
  note d = rec_inv_D [OF inv ne, folded b_def]
  show ?thesis using write_tags [OF d(1,2) tag_values(1) [OF d(6)]] by (simp add: mod_size [OF d(6), simplified])
qed

lemma coalesce_block_cases:
  assumes inv: "rec_inv h (xs @ (n, False) # ys)"
  defines "b \<equiv> base h + total xs - 8"
  shows "snd (prev_of xs) \<Longrightarrow> snd (next_of ys) \<Longrightarrow> coalesce_block b h = Some (b, h)"
    "snd (prev_of xs) \<Longrightarrow> ys = (q, False) # ys' \<Longrightarrow> coalesce_block b h = Some (b, rtags h b (n + q) False)"
    "xs = xs' @ [(p, False)] \<Longrightarrow> snd (next_of ys) \<Longrightarrow> coalesce_block b h = Some (b - p, rtags h (b - p) (p + n) False)"
    "xs = xs' @ [(p, False)] \<Longrightarrow> ys = (q, False) # ys' \<Longrightarrow> coalesce_block b h = Some (b - p, rtags h (b - p) (p + n + q) False)"
proof -
  note nb = neighbours [OF inv, folded b_def]
  show "coalesce_block b h = Some (b, h)" if "snd (prev_of xs)" "snd (next_of ys)"
    using that nb(5) by (simp add: coalesce_block_def nb(1-4,6,7) Let_def)
  show "coalesce_block b h = Some (b, rtags h b (n + q) False)" if "snd (prev_of xs)" and ys: "ys = (q, False) # ys'"
    using that(1) join_writes [of h xs "[(n, False), (q, False)]" ys'] inv nb
    by (simp add: coalesce_block_def ys next_of_def b_def Let_def)
  have p: "b - p = base h + total xs' - 8" "get_size h (b - p) = Some p" if "xs = xs' @ [(p, False)]"
    using neighbours(1) [of h xs' p "(n, False) # ys"] inv that by (auto simp: b_def algebra_simps)
  show "coalesce_block b h = Some (b - p, rtags h (b - p) (p + n) False)" if xs: "xs = xs' @ [(p, False)]" and "snd (next_of ys)"
    using that(2) join_writes [of h xs' "[(p, False), (n, False)]" ys] inv p [OF xs] nb
    by (simp add: coalesce_block_def prev_of_def xs Let_def add.commute)
  show "coalesce_block b h = Some (b - p, rtags h (b - p) (p + n + q) False)" if xs: "xs = xs' @ [(p, False)]" and ys: "ys = (q, False) # ys'"
  proof -
    have "n + (q + p) = total [(p, False), (n, False), (q, False)]" "p + n + q = total [(p, False), (n, False), (q, False)]" by simp_all
    note s = this
    have j: "do { h \<leftarrow> write_header (b - p) ((n + (q + p)) mod 2 ^ 64) False h; h \<leftarrow> write_footer (b - p) ((n + (q + p)) mod 2 ^ 64) False h; k h } =
        k (rtags h (b - p) (p + n + q) False)" for k
      unfolding s p(1) [OF xs] by (rule join_writes) (use inv xs ys in simp_all)
    show ?thesis
      using p(2) [OF xs] nb by (simp add: coalesce_block_def prev_of_def next_of_def xs ys Let_def j [simplified])
  qed
qed

lemma coalesce_block_joins:
  assumes inv: "rec_inv h (xs @ (n, False) # ys)"
  shows "\<exists>h' xs' m ys'. coalesce_block (base h + total xs - 8) h = Some (base h + total xs' - 8, h') \<and>
      joined xs n ys = xs' @ (m, False) # ys' \<and> rec_inv h' (joined xs n ys) \<and> same_region h h' \<and>
      total xs' \<le> total xs \<and> total xs + n \<le> total xs' + m"
proof -
  note c = coalesce_block_cases [OF inv]
  have ok: "0 \<le> fst e" if "e \<in> set xs \<union> set ys" for e
  proof -
    have "ok_tag_size (fst e)" using inv that by (auto simp: rec_inv_def rm.ok_blocks_def)
    then show ?thesis by (simp add: ok_tag_size_def)
  qed
  show ?thesis
  proof (cases rule: joined_cases [of xs n ys])
    case keep
    then have "snd (prev_of xs)" "snd (next_of ys)" by (auto simp: prev_of_def next_of_def)
    then show ?thesis using c(1) keep(1) inv
      by (intro exI [of _ h] exI [of _ xs] exI [of _ n] exI [of _ ys]) simp
  next
    case (next_free m ys')
    then have "snd (prev_of xs)" by (auto simp: prev_of_def)
    moreover have "rec_inv (rtags h (base h + total xs - 8) (n + m) False) (xs @ [(n + m, False)] @ ys')"
      using rec_retag [of h xs "[(n, False), (m, False)]" ys' False] inv next_free(1) by simp
    ultimately show ?thesis using c(2) next_free ok [of "(m, False)"]
      by (intro exI [of _ "rtags h (base h + total xs - 8) (n + m) False"] exI [of _ xs] exI [of _ "n + m"] exI [of _ ys']) simp
  next
    case (prev_free m xs')
    have "snd (next_of ys)" using prev_free by (auto simp: next_of_def)
    note c3 = c(3) [OF prev_free(1) this]
    have b: "base h + total xs - 8 - m = base h + total xs' - 8" "total xs = total xs' + m" using prev_free(1) by simp_all
    have "rec_inv (rtags h (base h + total xs' - 8) (m + n) False) (xs' @ [(m + n, False)] @ ys)"
      using rec_retag [of h xs' "[(m, False), (n, False)]" ys False] inv prev_free(1) by simp
    then show ?thesis using c3 [unfolded b(1)] b(2) prev_free(2) ok [of "(m, False)"] prev_free(1)
      by (intro exI [where x = "rtags h (base h + total xs' - 8) (m + n) False"] exI [where x = xs']
          exI [where x = "m + n"] exI [where x = ys]) simp
  next
    case (both m xs' k ys')
    note c4 = c(4) [OF both(1,2)]
    have b: "base h + total xs - 8 - m = base h + total xs' - 8" "total xs = total xs' + m" using both(1) by simp_all
    have "rec_inv (rtags h (base h + total xs' - 8) (m + n + k) False) (xs' @ [(m + n + k, False)] @ ys')"
      using rec_retag [of h xs' "[(m, False), (n, False), (k, False)]" ys' False] inv both(1,2) by (simp add: add.assoc)
    then show ?thesis using c4 [unfolded b(1)] b(2) both(3) ok [of "(m, False)"] ok [of "(k, False)"] both(1,2)
      by (intro exI [where x = "rtags h (base h + total xs' - 8) (m + n + k) False"] exI [where x = xs']
          exI [where x = "m + n + k"] exI [where x = ys']) simp
  qed
qed

interpretation coalesce_1: coalescing coalesce_block
  by unfold_locales (rule coalesce_block_joins)

text \<open>The word that \<open>mm-2.c\<close> writes is no tag.\<close>

lemma rec_inv_payload:
  assumes inv: "rec_inv h (xs @ ys)" and m: "mapped h (base h + total xs)"
  shows "rec_inv (upd h (base h + total xs) w) (xs @ ys)"
proof -
  let ?p = "base h + total xs"
  have ok: "rm.ok_blocks xs" "rm.ok_blocks ys" using inv by (simp_all add: rec_inv_def)
  have t: "0 \<le> total xs" "0 \<le> total ys" "total ys = 0 \<or> 32 \<le> total ys"
  proof -
    show "0 \<le> total xs" "0 \<le> total ys" using ok rm.total_nonneg by auto
    show "total ys = 0 \<or> 32 \<le> total ys"
      using ok(2) rm.total_nonneg [of "tl ys"] by (cases ys) (auto simp: ok_tag_size_def)
  qed
  have p: "peek (upd h ?p w) = (peek h)(?p \<mapsto> w)" by (rule peek_upd [OF m])
  have b: "brk_addr h = base h + total xs + total ys" using inv by (simp add: rec_inv_def)
  have "seg 8 pack ((peek h)(?p \<mapsto> w)) (base h) xs = seg 8 pack (peek h) (base h) xs"
    by (rule rm.seg_cong [OF ok(1)]) simp
  moreover have "seg 8 pack ((peek h)(?p \<mapsto> w)) ?p ys = seg 8 pack (peek h) ?p ys"
  proof (cases ys)
    case (Cons c cs)
    then have c: "32 \<le> fst c" "rm.ok_blocks cs" using ok(2) by (simp_all add: ok_tag_size_def)
    have "seg 8 pack ((peek h)(?p \<mapsto> w)) (?p + fst c) cs = seg 8 pack (peek h) (?p + fst c) cs"
      by (rule rm.seg_cong [OF c(2)]) (use c(1) in simp)
    then show ?thesis using c(1) by (simp add: Cons)
  qed simp
  ultimately show ?thesis using inv t b by (auto simp: rec_inv_def p)
qed

lemma coalesce_block_2_writes:
  assumes inv: "rec_inv h (xs @ (n, False) # ys)" and al: "snd (prev_of xs)" "snd (next_of ys)"
  defines "p \<equiv> base h + total xs + n"
  shows "mapped h p" "coalesce_block_2 (base h + total xs - 8) h =
    Some (base h + total xs - 8, upd h p (mem h p AND NOT 0xFFFFFFFF OR 0x15213))"
proof -
  note nb = neighbours [OF inv]
  have e: "base h + total xs - 8 + n + 8 = p" by (simp add: p_def)
  have "mapped h (base h + total xs - 8 + n + 8)" using rec_inv_D(10) [of h xs "[(n, False)]" ys] inv by simp
  then show m: "mapped h p" by (simp only: e)
  then show "coalesce_block_2 (base h + total xs - 8) h =
      Some (base h + total xs - 8, upd h p (mem h p AND NOT 0xFFFFFFFF OR 0x15213))"
    using nb al by (simp add: coalesce_block_2_def header_to_payload_def wsize_def e [simplified] poke_eq peek_def)
qed

interpretation coalesce_2: coalescing coalesce_block_2
proof
  fix h xs n ys assume inv: "rec_inv h (xs @ (n, False) # ys)"
  let ?b = "base h + total xs - 8"
  note nb = neighbours [OF inv]
  show "\<exists>h' xs' m ys'. coalesce_block_2 ?b h = Some (base h + total xs' - 8, h') \<and>
      joined xs n ys = xs' @ (m, False) # ys' \<and> rec_inv h' (joined xs n ys) \<and> same_region h h' \<and>
      total xs' \<le> total xs \<and> total xs + n \<le> total xs' + m"
  proof (cases "snd (prev_of xs) \<and> snd (next_of ys)")
    case True
    have inv2: "rec_inv h ((xs @ [(n, False)]) @ ys)" using inv by simp
    note c = coalesce_block_2_writes [OF inv conjunct1 [OF True] conjunct2 [OF True]]
    let ?p = "base h + total xs + n"
    let ?h = "upd h ?p (mem h ?p AND NOT 0xFFFFFFFF OR 0x15213)"
    have "joined xs n ys = xs @ (n, False) # ys"
      using True by (auto simp: joined_def prev_of_def next_of_def)
    moreover have "rec_inv ?h (xs @ (n, False) # ys)" using rec_inv_payload [OF inv2] c(1) by (simp add: add.assoc)
    ultimately show ?thesis using c(2)
      by (intro exI [of _ ?h] exI [of _ xs] exI [of _ n] exI [of _ ys]) simp
  next
    case False
    then have "coalesce_block_2 ?b h = coalesce_block ?b h"
      using nb by (auto simp: coalesce_block_2_def)
    then show ?thesis using coalesce_block_joins [OF inv] by simp
  qed
qed

interpretation split_2: splitting split_block_2
proof
  fix h xs m ys n assume inv: "rec_inv h (xs @ (m, True) # ys)" and n: "ok_tag_size n" "n \<le> m"
  let ?b = "base h + total xs - 8"
  have b: "get_size h ?b = Some m" "ok_tag_size m"
    using rec_block [OF inv] tag_values(1) by (simp_all add: get_size_def)
  have r: "(m - n) mod 2 ^ 64 = m - n" using n b(2) by (simp add: ok_tag_size_def)
  show "\<exists>h'. split_block_2 ?b n h = Some h' \<and> rec_inv h' (xs @ kept n m @ ys) \<and> same_region h h'"
  proof (cases "n + 32 \<le> m")
    case True
    then have rok: "ok_tag_size (m - n)" using n b(2) by (simp add: ok_tag_size_def)
    have inv': "rec_inv h (xs @ (n + (m - n), True) # ys)" using inv by simp
    note s = rec_retag_split(1) [OF inv' n(1) rok, of True False] rec_retag_split(2-4) [OF inv' n(1) rok]
    have mb: "mapped h ?b" using rec_inv_D(1) [of h xs "[(m, True)]" ys] inv by simp
    let ?h = "rtags h ?b n True"
    have "peek ?h ?b = Some (pack n True)" using peek_rtags [OF mb s(2)] by (simp add: retag_def)
    then have f: "find_next ?h ?b = Some (?b + n)" by (simp add: find_next_def get_size_def tag_values n(1))
    have m2: "mapped ?h (?b + n)" "mapped ?h (?b + n + (m - n) - 8)" using s(3,4) by simp_all
    have "split_block_2 ?b n h = Some (rtags ?h (?b + n) (m - n) False)"
      using True write_tags [OF mb s(2) tag_values(1) [OF n(1)]] write_tags [OF m2 tag_values(1) [OF rok]]
      by (simp add: split_block_2_def b f r [simplified] min_block_size_def dsize_def wsize_def)
    then show ?thesis using s(1) True by (simp add: kept_def)
  next
    case False
    then have "split_block_2 ?b n h = Some h"
      by (simp add: split_block_2_def b r [simplified] min_block_size_def dsize_def wsize_def)
    then show ?thesis using inv False by (simp add: kept_def)
  qed
qed

section \<open>What the allocator owes to its two functions\<close>

text \<open>Marking a block, as \<open>malloc\<close> and \<open>free\<close> do.\<close>

lemma mark_block:
  assumes inv: "rec_inv h (xs @ (n, f) # ys)"
  defines "b \<equiv> base h + total xs - 8"
  shows "get_size h b = Some n"
    "write_header b n g h = Some (upd h b (pack n g))" "write_footer b n g (upd h b (pack n g)) = Some (rtags h b n g)"
    "rec_inv (rtags h b n g) (xs @ (n, g) # ys)"
proof -
  have inv': "rec_inv h (xs @ [(n, f)] @ ys)" using inv by simp
  note d = rec_inv_D [OF inv' not_Cons_self2, folded b_def]
  show "get_size h b = Some n"
    using rec_block [OF inv, folded b_def] tag_values(1) by (simp add: get_size_def)
  show "write_header b n g h = Some (upd h b (pack n g))" "write_footer b n g (upd h b (pack n g)) = Some (rtags h b n g)"
    using write_tags [OF d(1), of n g] d(2,6) tag_values(1) by simp_all
  show "rec_inv (rtags h b n g) (xs @ (n, g) # ys)"
    using rec_retag [OF inv' not_Cons_self2, folded b_def] by simp
qed

text \<open>The heap after the break has moved and the new block and the new epilogue have their tags.\<close>

definition can_extend :: "rheap \<Rightarrow> int \<Rightarrow> bool" where
  "can_extend h e \<longleftrightarrow> brk_addr h + e + 16 \<le> max_addr h \<and> sys_sbrk h (brk_addr h) e"

definition rec_extended :: "int \<Rightarrow> rheap \<Rightarrow> rheap" where
  "rec_extended e h = upd (rtags (h\<lparr>brk_addr := brk_addr h + e\<rparr>) (brk_addr h - 8) e False) (brk_addr h + e - 8) (pack 0 True)"

lemma round_up_16: "16 dvd e \<Longrightarrow> 0 \<le> e \<Longrightarrow> e < 2 ^ 62 \<Longrightarrow> round_up e dsize = e"
proof -
  assume e: "16 dvd e" "0 \<le> e" "e < 2 ^ 62"
  have "(e + 15) div 16 = e div 16" using e(1) by (auto elim!: dvdE)
  then show ?thesis using e by (simp add: round_up_def dsize_def wsize_def)
qed

lemma rec_extended_inv:
  assumes inv: "rec_inv h bs" and e: "ok_tag_size e" and room: "can_extend h e"
  shows "rec_inv (rec_extended e h) (bs @ [(e, False)])" "base (rec_extended e h) = base h"
    and "rec_extend_heap coalesce e h = coalesce (brk_addr h - 8) (rec_extended e h)"
proof -
  let ?h0 = "h\<lparr>brk_addr := brk_addr h + e\<rparr>" and ?b = "brk_addr h - 8"
  have ok: "rm.ok_blocks bs" and t: "0 \<le> total bs" "16 dvd total bs" and en: "32 \<le> e" "16 dvd e" "e < 2 ^ 62"
    using inv e rm.total_nonneg dvd_total_16 by (auto simp: rec_inv_def ok_tag_size_def)
  have lo: "16 dvd lo_addr h" "0 < lo_addr h" "brk_addr h = lo_addr h + 16 + total bs" "brk_addr h + 16 \<le> max_addr h"
    using inv by (auto simp: rec_inv_def base_def)
  have dv: "8 dvd brk_addr h" "8 dvd e" using lo t en by (auto intro: dvd_trans [of 8 16])
  then have "8 dvd ?b" "8 dvd ?b + e - 8" "8 dvd ?b + e" by simp_all
  moreover have "lo_addr h \<le> ?b" using lo t by simp
  ultimately have m: "mapped ?h0 ?b" "mapped ?h0 (?b + e - 8)" "mapped ?h0 (?b + e)"
    using en room by (simp_all add: mapped_def can_extend_def)
  have p0: "peek (h\<lparr>brk_addr := x\<rparr>) = peek h" for x by (simp add: peek_def mapped_def fun_eq_iff)
  have mx: "mapped (rtags ?h0 ?b e False) (?b + e)" using m(3) by simp
  have pk: "peek (rec_extended e h) = (retag 8 pack (peek h) (brk_addr h) e False)(?b + e \<mapsto> pack 0 True)"
    using peek_upd [OF mx] peek_rtags [OF m(1,2)] by (simp add: rec_extended_def p0 algebra_simps)
  show bh: "base (rec_extended e h) = base h" by (simp add: rec_extended_def base_def)
  have f: "brk_addr (rec_extended e h) = brk_addr h + e" "lo_addr (rec_extended e h) = lo_addr h"
    "max_addr (rec_extended e h) = max_addr h" "heap_start (rec_extended e h) = heap_start h"
    by (simp_all add: rec_extended_def)
  have "seg 8 pack (peek (rec_extended e h)) (base h) bs = seg 8 pack (peek h) (base h) bs"
    by (rule rm.seg_cong [OF ok]) (use lo en in \<open>auto simp: pk retag_def base_def\<close>)
  moreover have "peek (rec_extended e h) (base h - 16) = peek h (base h - 16)"
    using lo t en by (auto simp: pk retag_def base_def)
  moreover have "peek (rec_extended e h) (brk_addr h - 8) = Some (pack e False)"
    "peek (rec_extended e h) (brk_addr h + e - 16) = Some (pack e False)"
    "peek (rec_extended e h) (brk_addr h + e - 8) = Some (pack 0 True)"
    using en by (simp_all add: pk retag_def)
  moreover have "brk_addr h = base h + total bs" using lo by (simp add: base_def)
  ultimately show "rec_inv (rec_extended e h) (bs @ [(e, False)])"
    using inv room e unfolding rec_inv_def can_extend_def bh f by simp
  have ru: "round_up e dsize = e" by (rule round_up_16) (use en in auto)
  have w: "write_header ?b e False ?h0 = Some (upd ?h0 ?b (pack e False))"
    "write_footer ?b e False (upd ?h0 ?b (pack e False)) = Some (rtags ?h0 ?b e False)"
    using write_tags [OF m(1,2) tag_values(1) [OF e]] by auto
  have "peek (rtags ?h0 ?b e False) ?b = Some (pack e False)" using peek_rtags [OF m(1,2)] by (simp add: retag_def)
  then have fn: "find_next (rtags ?h0 ?b e False) ?b = Some (?b + e)"
    using tag_values(1) [OF e] by (simp add: find_next_def get_size_def)
  have "write_header (?b + e) 0 True (rtags ?h0 ?b e False) = Some (rec_extended e h)"
    using m(3) by (simp add: write_header_def poke_eq rec_extended_def algebra_simps)
  moreover have "brk_addr h \<noteq> - 1" using lo t by simp
  ultimately show "rec_extend_heap coalesce e h = coalesce ?b (rec_extended e h)"
    using room en w fn by (simp add: rec_extend_heap_def ru rec_sbrk_def can_extend_def Let_def payload_to_header_def wsize_def)
qed

lemma rec_find_fit_loop_first_fit:
  "rec_inv h (xs @ ys) \<Longrightarrow> rec_find_fit_loop h n (base h + total xs - 8) =
     Some (case first_fit n ys of None \<Rightarrow> 0 | Some (zs, _) \<Rightarrow> base h + total (xs @ zs) - 8)"
proof (induction ys arbitrary: xs)
  case Nil
  have "peek h (base h + total xs - 8) = Some (pack 0 True)" using Nil by (auto simp: rec_inv_def)
  then show ?case by (subst rec_find_fit_loop.simps) (simp add: get_size_def tag_values)
next
  case (Cons b ys)
  obtain m f where b: "b = (m, f)" by fastforce
  have inv: "rec_inv h (xs @ (m, f) # ys)" using Cons.prems b by simp
  have t: "get_size h (base h + total xs - 8) = Some m" "get_alloc h (base h + total xs - 8) = Some f"
    "find_next h (base h + total xs - 8) = Some (base h + total (xs @ [b]) - 8)" "0 < m"
    using rec_block [OF inv] tag_values(1,2) [of m f] by (simp_all add: rec_macros b ok_tag_size_def)
  have IH: "rec_find_fit_loop h n (base h + total (xs @ [b]) - 8) =
     Some (case first_fit n ys of None \<Rightarrow> 0 | Some (zs, _) \<Rightarrow> base h + total ((xs @ [b]) @ zs) - 8)"
    by (rule Cons.IH) (use Cons.prems in simp)
  have "rec_find_fit_loop h n (base h + total xs - 8) =
      (if \<not> f \<and> n \<le> m then Some (base h + total xs - 8) else rec_find_fit_loop h n (base h + total (xs @ [b]) - 8))"
    using t(4) by (subst rec_find_fit_loop.simps) (simp only: t(1-3) Option.bind.simps if_True)
  then show ?case unfolding IH by (simp add: b split: option.splits)
qed

lemma rec_find_fit_first_fit:
  "rec_inv h bs \<Longrightarrow> rec_find_fit n h = Some (case first_fit n bs of None \<Rightarrow> 0 | Some (xs, _) \<Rightarrow> base h + total xs - 8)"
proof -
  assume inv: "rec_inv h bs"
  then have "heap_start h = base h + total [] - 8" by (simp add: rec_inv_def base_def)
  then show ?thesis using rec_find_fit_loop_first_fit [of h "[]" bs n] inv by (simp only: rec_find_fit_def append_Nil)
qed

context coalescing
begin

text \<open>Releasing a block joins it with its free neighbours.\<close>

lemma free_joins:
  assumes inv: "rec_inv h (xs @ (n, True) # ys)"
  shows "\<exists>h'. rec_free coalesce (base h + total xs) h = Some h' \<and> rec_inv h' (joined xs n ys) \<and> same_region h h'"
proof -
  let ?b = "base h + total xs - 8"
  note m = mark_block [OF inv]
  obtain b' h' where c: "coalesce ?b (rtags h ?b n False) = Some (b', h')" "rec_inv h' (joined xs n ys)" "same_region h h'"
    using joins [OF m(4) [of False]] by (auto simp: same_region_def)
  have "base h + total xs \<noteq> 0" using rec_inv_D(7) [of h xs "[(n, True)]" ys] inv by simp
  then have "rec_free coalesce (base h + total xs) h = Some h'"
    using m(1) m(2,3) [of False] c(1) by (simp add: rec_free_def payload_to_header_def wsize_def Let_def)
  with c show ?thesis by blast
qed

text \<open>Extending the heap yields a free block at its end.\<close>

lemma extend_joins:
  assumes inv: "rec_inv h bs" and e: "ok_tag_size e" and room: "can_extend h e"
  shows "\<exists>h' xs m. rec_extend_heap coalesce e h = Some (base h + total xs - 8, h') \<and> joined bs e [] = xs @ [(m, False)] \<and>
    rec_inv h' (joined bs e []) \<and> e \<le> m \<and> base h' = base h"
proof -
  note x = rec_extended_inv [OF inv e room]
  have b: "brk_addr h - 8 = base (rec_extended e h) + total bs - 8" using inv x(2) by (simp add: rec_inv_def)
  obtain h' xs' m ys' where c: "coalesce (brk_addr h - 8) (rec_extended e h) = Some (base h + total xs' - 8, h')"
    "joined bs e [] = xs' @ (m, False) # ys'" "rec_inv h' (joined bs e [])" "same_region (rec_extended e h) h'"
    "total xs' \<le> total bs" "total bs + e \<le> total xs' + m"
    using joins [OF x(1), folded b] unfolding x(2) by blast
  have "ys' = []"
  proof (cases ys')
    case (Cons y ys)
    have "rm.ok_blocks (y # ys)" using c(2,3) Cons by (simp add: rec_inv_def)
    then have "32 \<le> fst y" "0 \<le> total ys" using rm.total_nonneg by (auto simp: ok_tag_size_def)
    moreover have "total bs + e = total xs' + m + total ys'" using total_joined [of bs e "[]"] c(2) by simp
    ultimately show ?thesis using c(6) Cons by simp
  qed simp
  then show ?thesis using c x(2,3) same_regionD(1) [OF c(4)]
    by (intro exI [where x = h'] exI [where x = xs'] exI [where x = m]) simp
qed

end

text \<open>The size of the block for a request.\<close>

definition request :: "int \<Rightarrow> int" where
  "request sz = round_up ((sz + dsize) mod 2 ^ 64) dsize"

lemma request_ok:
  assumes "0 < sz" "sz \<le> 2 ^ 60"
  shows "ok_tag_size (request sz)" "sz + 16 \<le> request sz" "request sz < sz + 32"
proof -
  have "(sz + 16) mod 2 ^ 64 = sz + 16" "(sz + 16 + 15) mod 2 ^ 64 = sz + 31" using assms by simp_all
  moreover have "16 * ((sz + 31) div 16) < 2 ^ 64" "0 \<le> 16 * ((sz + 31) div 16)" using assms by simp_all
  ultimately have r: "request sz = 16 * ((sz + 31) div 16)" by (simp add: request_def round_up_def dsize_def wsize_def)
  then show "sz + 16 \<le> request sz" "request sz < sz + 32" by simp_all
  then show "ok_tag_size (request sz)" using assms by (simp add: ok_tag_size_def r)
qed

text \<open>
  The abstract allocation of a block of \<open>n\<close> bytes in a heap that can be extended by \<open>e\<close> bytes if
  \<open>room e\<close>: the offset of the block and the blocks afterwards, or nothing.
\<close>

definition blocks_alloc :: "int \<Rightarrow> (int \<Rightarrow> bool) \<Rightarrow> block list \<Rightarrow> (int \<times> block list) option" where
  "blocks_alloc n room bs =
     (case first_fit n bs of
        Some (xs, m, ys) \<Rightarrow> Some (total xs, xs @ kept n m @ ys)
      | None \<Rightarrow>
          (let e = max n 4096
           in if \<not> room e then None
              else let bs = joined bs e []; xs = butlast bs; m = fst (last bs)
                   in Some (total xs, xs @ kept n m)))"

lemma extend_fails:
  assumes inv: "rec_inv h bs" and e: "ok_tag_size e" and room: "max_addr h < brk_addr h + e \<or> \<not> sys_sbrk h (brk_addr h) e"
  shows "rec_extend_heap coalesce e h = Some (0, h)"
  using room e round_up_16 [of e]
  by (simp add: rec_extend_heap_def rec_sbrk_def ok_tag_size_def Let_def)

text \<open>What \<open>malloc\<close> does with the block it has found.\<close>

definition take_block :: "splitter \<Rightarrow> int \<Rightarrow> int \<Rightarrow> rheap \<Rightarrow> (int \<times> rheap) option" where
  "take_block split block asize h = do {
     block_size \<leftarrow> get_size h block;
     h \<leftarrow> write_header block block_size True h;
     h \<leftarrow> write_footer block block_size True h;
     h \<leftarrow> split block asize h;
     Some (header_to_payload block, h)
   }"

lemma rec_malloc_eq:
  assumes "heap_start h \<noteq> 0" "sz \<noteq> 0"
  shows "rec_malloc coalesce split sz h = do {
     block \<leftarrow> rec_find_fit (request sz) h;
     (block, h) \<leftarrow> (if block = 0 then rec_extend_heap coalesce (max (request sz) 4096) h else Some (block, h));
     if block = 0 then Some (0, h) else take_block split block (request sz) h
   }"
proof -
  have "(if request sz > chunksize then request sz else chunksize) = max (request sz) 4096" by (simp add: chunksize_def max_def)
  then show ?thesis
    using assms by (simp only: rec_malloc_def take_block_def Let_def if_False Option.bind.simps option.map flip: request_def)
qed

locale allocator = coalescing coalesce + splitting split for coalesce :: coalescer and split :: splitter
begin

text \<open>Marking a free block and splitting it.\<close>

lemma takes_block:
  assumes inv: "rec_inv h (xs @ (m, False) # ys)" and n: "ok_tag_size n" "n \<le> m"
  defines "b \<equiv> base h + total xs - 8"
  shows "\<exists>h'. take_block split b n h = Some (base h + total xs, h') \<and>
    rec_inv h' (xs @ kept n m @ ys) \<and> base h' = base h \<and> b \<noteq> 0"
proof -
  note mk = mark_block [OF inv, folded b_def]
  have b: "base (rtags h b m True) = base h" by simp
  obtain h' where h': "split b n (rtags h b m True) = Some h'" "rec_inv h' (xs @ kept n m @ ys)" "same_region (rtags h b m True) h'"
    using splits [OF mk(4) [of True] n] by (simp only: b flip: b_def) blast
  moreover have "b \<noteq> 0" using rec_inv_D(7) [of h xs "[(m, False)]" ys, folded b_def] inv by simp
  moreover have "header_to_payload b = base h + total xs" by (simp add: header_to_payload_def wsize_def b_def)
  ultimately show ?thesis using mk(1) mk(2,3) [of True] same_regionD(1) [OF h'(3)] by (simp add: take_block_def)
qed

lemma malloc_takes:
  assumes inv: "rec_inv h bs" and sz: "0 < sz" "sz \<le> 2 ^ 60"
    and room: "first_fit (request sz) bs \<noteq> None \<or> can_extend h (max (request sz) 4096)"
  shows "\<exists>off bs' h'. blocks_alloc (request sz) (can_extend h) bs = Some (off, bs') \<and>
    rec_malloc coalesce split sz h = Some (base h + off, h') \<and> rec_inv h' bs' \<and> base h' = base h"
proof -
  note n = request_ok [OF sz]
  have st: "heap_start h \<noteq> 0" using inv by (auto simp: rec_inv_def)
  note ff = rec_find_fit_first_fit [OF inv, of "request sz"]
  show ?thesis
  proof (cases "first_fit (request sz) bs")
    case (Some r)
    obtain xs m ys where r: "first_fit (request sz) bs = Some (xs, m, ys)" using Some by (cases r) auto
    note bs = first_fit_Some [OF r]
    have inv': "rec_inv h (xs @ (m, False) # ys)" using inv bs by simp
    obtain h' where "take_block split (base h + total xs - 8) (request sz) h = Some (base h + total xs, h')"
      "rec_inv h' (xs @ kept (request sz) m @ ys)" "base h' = base h" "base h + total xs - 8 \<noteq> 0"
      using takes_block [OF inv' n(1)] bs by blast
    then show ?thesis using ff r sz st
      by (simp add: rec_malloc_eq blocks_alloc_def)
  next
    case None
    let ?e = "max (request sz) 4096"
    have e: "ok_tag_size ?e" using n(1) by (simp add: ok_tag_size_def max_def)
    have rm: "can_extend h ?e" using room None by simp
    obtain h1 xs m where x: "rec_extend_heap coalesce ?e h = Some (base h + total xs - 8, h1)"
      "joined bs ?e [] = xs @ [(m, False)]" "rec_inv h1 (joined bs ?e [])" "?e \<le> m" "base h1 = base h"
      using extend_joins [OF inv e rm] by blast
    have inv1: "rec_inv h1 (xs @ (m, False) # [])" using x(2,3) by simp
    obtain h' where t: "take_block split (base h + total xs - 8) (request sz) h1 = Some (base h + total xs, h')"
      "rec_inv h' (xs @ kept (request sz) m)" "base h' = base h" "base h + total xs - 8 \<noteq> 0"
      using takes_block [OF inv1 n(1)] x(4,5) by auto
    have "rec_malloc coalesce split sz h = Some (base h + total xs, h')"
      using ff None sz st x(1) t(1,4) by (simp add: rec_malloc_eq)
    moreover have "blocks_alloc (request sz) (can_extend h) bs = Some (total xs, xs @ kept (request sz) m)"
      using None x(2) rm by (simp add: blocks_alloc_def Let_def)
    ultimately show ?thesis using t(2,3) by blast
  qed
qed

end

interpretation allocator_2: allocator coalesce_block_2 split_block_2
  by unfold_locales

section \<open>Initialisation\<close>

context coalescing
begin

lemma init_starts:
  assumes h: "16 dvd lo_addr h" "0 < lo_addr h" "brk_addr h = lo_addr h" "lo_addr h + 4128 \<le> max_addr h"
    "max_addr h - lo_addr h \<le> 2 ^ 40" "sys_sbrk h (lo_addr h) 16" "sys_sbrk h (lo_addr h + 16) 4096"
  shows "\<exists>h'. rec_init coalesce h = Some (True, h') \<and> rec_inv h' [(4096, False)] \<and> base h' = base h"
proof -
  let ?h0 = "h\<lparr>brk_addr := lo_addr h + 16\<rparr>"
  let ?h1 = "(upd (upd ?h0 (lo_addr h) (pack 0 True)) (lo_addr h + 8) (pack 0 True))\<lparr>heap_start := lo_addr h + 8\<rparr>"
  have d: "8 dvd lo_addr h" "8 dvd lo_addr h + 8" using h(1) by (auto intro: dvd_trans [of 8 16])
  then have m: "mapped ?h0 (lo_addr h)" "mapped (upd ?h0 (lo_addr h) (pack 0 True)) (lo_addr h + 8)"
    using h by (simp_all add: mapped_def)
  have inv: "rec_inv ?h1 []"
    using h d by (simp add: rec_inv_def base_def peek_def mapped_def upd_def)
  have b: "base ?h1 = base h" "brk_addr ?h1 = lo_addr h + 16" "max_addr ?h1 = max_addr h" by (simp_all add: base_def)
  have e: "ok_tag_size 4096" by (simp add: ok_tag_size_def)
  have room: "can_extend ?h1 4096" using h(4,7) by (simp add: can_extend_def)
  obtain h' where x: "rec_extend_heap coalesce 4096 ?h1 = Some (base h + 0 - 8, h')" "rec_inv h' [(4096, False)]" "base h' = base h"
  proof -
    obtain h' xs m where x: "rec_extend_heap coalesce 4096 ?h1 = Some (base ?h1 + total xs - 8, h')"
      "joined [] 4096 [] = xs @ [(m, False)]" "rec_inv h' (joined [] 4096 [])" "base h' = base ?h1"
      using extend_joins [OF inv e room] by blast
    have j: "joined [] 4096 [] = [(4096, False)]" by (simp add: joined_def)
    show thesis by (rule that [of h']) (use x j b in auto)
  qed
  have "base h + 0 - 8 \<noteq> 0" "lo_addr h \<noteq> - 1" using h(2) by (simp_all add: base_def)
  moreover have "rec_sbrk 16 h = (lo_addr h, ?h0)" using h(3,4,6) by (simp add: rec_sbrk_def)
  ultimately have "rec_init coalesce h = Some (True, h')"
    using m x(1) by (simp add: rec_init_def wsize_def poke_eq chunksize_def)
  then show ?thesis using x(2,3) by blast
qed

end

section \<open>Clearing a payload\<close>

definition byte_at :: "rheap \<Rightarrow> int \<Rightarrow> c_ulong" where
  "byte_at h p = drop_bit (8 * nat (p mod 8)) (mem h (p - p mod 8)) AND mask 8"

lemma rec_inv_within:
  assumes inv: "rec_inv h (xs @ (n, f) # ys)" and m: "mapped h p"
    and p: "base h + total xs \<le> p" "p < base h + total xs + n - 16"
  shows "rec_inv (upd h p w) (xs @ (n, f) # ys)"
proof -
  have inv': "rec_inv h (xs @ [(n, f)] @ ys)" using inv by simp
  note d = rec_inv_D [OF inv' not_Cons_self2]
  have pk: "peek (upd h p w) = (peek h)(p \<mapsto> w)" by (rule peek_upd [OF m])
  have s: "seg 8 pack (peek h) (base h) (xs @ [(n, f)] @ ys)" using inv by (simp add: rec_inv_def)
  then have "seg 8 pack ((peek h)(p \<mapsto> w)) (base h) (xs @ [(n, f)] @ ys)"
    by (rule rm.seg_replace [OF _ d(3-5) refl]) (use s p in auto)
  then show ?thesis using inv d(8,9) p by (auto simp: rec_inv_def pk)
qed

lemma cleared_byte:
  "i < k \<Longrightarrow> drop_bit (8 * i) (w AND NOT (mask (8 * k)) :: c_ulong) AND mask 8 = 0"
  by (rule bit_word_eqI) (auto simp: bit_and_iff bit_drop_bit_eq bit_not_iff bit_mask_iff)

lemma memset_data_0: "memset_data 0 = 0"
proof -
  have "foldl (\<lambda>data i. data OR push_bit (8 * i) 0) (0 :: c_ulong) ns = 0" for ns :: "nat list" by (induction ns) simp_all
  then show ?thesis by (simp add: memset_data_def)
qed

lemma memset_0_ok:
  assumes "rec_inv h (xs @ (n, f) # ys)" "8 dvd d" "base h + total xs \<le> d" "d + int k \<le> base h + total xs + n - 16"
  shows "\<exists>h'. memset_loop 0 d k h = Some h' \<and> rec_inv h' (xs @ (n, f) # ys) \<and> same_region h h' \<and>
    (\<forall>p < d. mem h' p = mem h p) \<and> (\<forall>i < k. byte_at h' (d + int i) = 0)"
  using assms
proof (induction k arbitrary: d h rule: less_induct)
  case (less k)
  note inv = less(2) and d = less(3-5)
  show ?case
  proof (cases "k = 0")
    case True
    then show ?thesis using inv by (auto simp: memset_loop.simps)
  next
    case False
    have inv': "rec_inv h (xs @ [(n, f)] @ ys)" using inv by simp
    note r = rec_inv_D [OF inv' not_Cons_self2]
    have "8 dvd base h + total xs" "8 dvd n" using r(11,6) by (auto simp: ok_tag_size_def intro: dvd_trans [of 8 16])
    then have "8 dvd base h + total xs + n - 16" by (simp add: dvd_diff)
    then have le: "d + 8 \<le> base h + total xs + n - 16" using d False by presburger
    have m: "mapped h d" using d r(1,2) le by (simp add: mapped_def)
    let ?w = "if k < 8 then mem h d AND NOT (mask (8 * k)) else 0"
    let ?h = "upd h d ?w"
    have inv1: "rec_inv ?h (xs @ (n, f) # ys)" by (rule rec_inv_within [OF inv m]) (use d le in auto)
    have "\<exists>h'. memset_loop 0 (d + 8) (k - 8) ?h = Some h' \<and> rec_inv h' (xs @ (n, f) # ys) \<and> same_region ?h h' \<and>
        (\<forall>p < d + 8. mem h' p = mem ?h p) \<and> (\<forall>i < k - 8. byte_at h' (d + 8 + int i) = 0)"
      by (rule less(1)) (use False inv1 d le in auto)
    then obtain h' where h': "memset_loop 0 (d + 8) (k - 8) ?h = Some h'" "rec_inv h' (xs @ (n, f) # ys)" "same_region ?h h'"
      "\<forall>p < d + 8. mem h' p = mem ?h p" "\<forall>i < k - 8. byte_at h' (d + 8 + int i) = 0" by blast
    have "memset_loop 0 d k h = Some h'"
      using False h'(1) m by (cases "k < 8")
        (simp_all add: memset_loop.simps [of 0 d k] memset_loop.simps [of 0 "d + 8" 0] mem_write_def peek_def poke_eq)
    moreover have "byte_at h' (d + int i) = 0" if i: "i < k" for i
    proof (cases "i < 8")
      case True
      then have "(d + int i) mod 8 = int i" using d(1) by presburger
      moreover have "mem h' d = ?w" using h'(4) by (simp add: upd_def)
      ultimately show ?thesis using cleared_byte [OF i] by (simp add: byte_at_def)
    next
      case F: False
      then have "d + int i = d + 8 + int (i - 8)" by simp
      moreover have "i - 8 < k - 8" using F i by simp
      ultimately show ?thesis using h'(5) by metis
    qed
    moreover have "\<forall>p < d. mem h' p = mem h p" using h'(4) by (simp add: upd_def)
    moreover have "same_region h h'" using h'(3) by (simp add: same_region_def)
    ultimately show ?thesis using h'(2) by blast
  qed
qed

text \<open>The block of an abstract allocation.\<close>

lemma kept_block: "\<exists>k zs. kept n m = (k, True) # zs \<and> (n \<le> m \<longrightarrow> n \<le> k)"
  by (auto simp: kept_def)

lemma blocks_alloc_block:
  assumes a: "blocks_alloc n room bs = Some (off, bs')" and ok: "rm.ok_blocks bs"
  obtains xs m ys where "bs' = xs @ (m, True) # ys" "off = total xs" "n \<le> m"
proof (cases "first_fit n bs")
  case (Some r)
  then obtain xs m ys where r: "first_fit n bs = Some (xs, m, ys)" by (cases r) auto
  then show thesis using that a first_fit_Some [OF r] kept_block [of n m] by (auto simp: blocks_alloc_def)
next
  case None
  let ?e = "max n 4096"
  have "\<exists>xs m. joined bs ?e [] = xs @ [(m, False)] \<and> ?e \<le> m"
  proof (cases rule: joined_cases [of bs ?e "[]"])
    case (prev_free m xs')
    then have "0 \<le> m" using ok by (auto simp: ok_tag_size_def)
    then show ?thesis using prev_free by auto
  qed auto
  then obtain xs m where "joined bs ?e [] = xs @ [(m, False)]" "n \<le> m" by auto
  then show thesis
    using that [of xs] a None kept_block [of n m] by (auto simp: blocks_alloc_def Let_def split: if_splits)
qed

section \<open>Properties\<close>

text \<open>A heap of one free block, and memory that nothing has been allocated from.\<close>

definition one_block :: rheap where
  "one_block = \<lparr>mem = (\<lambda>_. 0)(4096 := 1, 4104 := 4096, 8192 := 4096, 8200 := 1), lo_addr = 4096, brk_addr = 8208,
     max_addr = 4096 + 100 * 2 ^ 20,
     sys_sbrk = (\<lambda>_ _. True), heap_start = 4104\<rparr>"

definition fresh_memory :: rheap where
  "fresh_memory = \<lparr>mem = (\<lambda>_. 0), lo_addr = 4096, brk_addr = 4096, max_addr = 4096 + 100 * 2 ^ 20,
     sys_sbrk = (\<lambda>_ _. True), heap_start = 0\<rparr>"

lemma one_block_inv: "rec_inv one_block [(4096, False)]"
  by (simp add: rec_inv_def one_block_def base_def peek_def mapped_def pack_def ok_tag_size_def)




definition two_blocks :: rheap where
  "two_blocks = \<lparr>mem = (\<lambda>_. 0)(4096 := 1, 4104 := 49, 4144 := 49, 4152 := 4048, 8192 := 4048, 8200 := 1), lo_addr = 4096,
     brk_addr = 8208, max_addr = 4096 + 100 * 2 ^ 20,
     sys_sbrk = (\<lambda>_ _. True), heap_start = 4104\<rparr>"


text \<open>C34: Freeing a block between allocated ones leaves every payload as it is in \<open>mm.c\<close>, but in \<open>mm-2.c\<close>
  it overwrites the first four bytes of the next block's payload with \<open>0x15213\<close>.\<close>

theorem rec_free_clobbers:
  assumes "rec_inv h (xs @ (n, True) # (m, True) # ys)" "xs = [] \<or> snd (last xs)"
  shows "(\<exists>h'. rec_free coalesce_block (base h + total xs) h = Some h' \<and>
      (\<forall>p. p \<noteq> base h + total xs - 8 \<and> p \<noteq> base h + total xs + n - 16 \<longrightarrow> mem h' p = mem h p)) \<and>
    (\<exists>h'. rec_free coalesce_block_2 (base h + total xs) h = Some h' \<and>
      mem h' (base h + total xs + n) = mem h (base h + total xs + n) AND NOT 0xFFFFFFFF OR 0x15213)"
proof -
  let ?b = "base h + total xs - 8"
  note mk = mark_block [OF assms(1)]
  let ?h = "rtags h ?b n False"
  have inv: "rec_inv ?h (xs @ (n, False) # (m, True) # ys)" by (rule mk(4))
  have al: "snd (prev_of xs)" "snd (next_of ((m, True) # ys))" using assms(2) by (auto simp: prev_of_def next_of_def)
  have "base h + total xs \<noteq> 0" using rec_inv_D(7) [of h xs "[(n, True)]" "(m, True) # ys"] assms(1) by simp
  then have free: "rec_free coalesce (base h + total xs) h = map_option snd (coalesce ?b ?h)" for coalesce
    using mk(1) mk(2,3) [of False]
    by (cases "coalesce ?b ?h") (auto simp: rec_free_def payload_to_header_def wsize_def Let_def)
  have "8 < n" using rec_block(3) [OF inv] by (simp add: ok_tag_size_def)
  then show ?thesis
    unfolding free using coalesce_block_cases(1) [OF inv al] coalesce_block_2_writes(2) [OF inv al]
    by (auto simp: rtags_def upd_def base_def)
qed

definition three_blocks :: rheap where
  "three_blocks = \<lparr>mem = (\<lambda>_. 0)(4096 := 1, 4104 := 33, 4128 := 33, 4136 := 33, 4144 := 5, 4160 := 33, 4168 := 1), lo_addr = 4096,
     brk_addr = 4176, max_addr = 4096 + 100 * 2 ^ 20,
     sys_sbrk = (\<lambda>_ _. True), heap_start = 4104\<rparr>"

theorem rec_free_clobbers_witness:
  "mem three_blocks 4144 = 5 \<and>
   (\<exists>h. rec_free coalesce_block_2 4112 three_blocks = Some h \<and> mem h 4144 = 0x15213)"
proof -
  have "rec_inv three_blocks ([] @ (32, True) # (32, True) # [])"
    by (simp add: rec_inv_def three_blocks_def base_def peek_def mapped_def pack_def ok_tag_size_def)
  from rec_free_clobbers [OF this] show ?thesis by (auto simp: three_blocks_def base_def)
qed

text \<open>A request that is larger than the region can ever be, but still a number of \<open>size_t\<close> when it is
  rounded up, fails.\<close>

lemma request_big:
  assumes "2 ^ 60 < sz" "sz \<le> 2 ^ 64 - 32"
  shows "16 dvd request sz" "2 ^ 60 < request sz" "request sz < 2 ^ 64" "round_up (request sz) dsize = request sz"
proof -
  have "(sz + 16) mod 2 ^ 64 = sz + 16" "(sz + 16 + 15) mod 2 ^ 64 = sz + 31" using assms by simp_all
  moreover have "16 * ((sz + 31) div 16) < 2 ^ 64" "0 \<le> 16 * ((sz + 31) div 16)" using assms by simp_all
  ultimately have r: "request sz = 16 * ((sz + 31) div 16)" by (simp add: request_def round_up_def dsize_def wsize_def)
  then show "16 dvd request sz" "2 ^ 60 < request sz" and l: "request sz < 2 ^ 64" using assms by simp_all
  have "(request sz + 15) mod 2 ^ 64 = request sz + 15" 
  proof (rule mod_pos_pos_trivial)
    have "(sz + 31) div 16 \<le> (2 ^ 64 - 1) div 16" using assms by (intro zdiv_mono1) simp_all
    then show "request sz + 15 < 2 ^ 64" unfolding r by simp
  qed (use assms r in simp)
  moreover have "(request sz + 15) div 16 = (sz + 31) div 16" unfolding r by simp
  ultimately show "round_up (request sz) dsize = request sz"
    using l assms by (simp add: round_up_def dsize_def wsize_def r)
qed

lemma malloc_too_big:
  assumes inv: "rec_inv h bs" and sz: "2 ^ 60 < sz" "sz \<le> 2 ^ 64 - 32"
  shows "rec_malloc coalesce split sz h = Some (0, h)"
proof -
  note r = request_big [OF sz]
  have t: "0 \<le> total bs" "total bs \<le> 2 ^ 40" "heap_start h \<noteq> 0" "max_addr h < brk_addr h + request sz"
    using inv rm.total_nonneg [of bs] r(2) by (auto simp: rec_inv_def base_def)
  have "fst b < request sz" if bb: "b \<in> set bs" for b
  proof -
    obtain us vs where u: "bs = us @ b # vs" using split_list [OF bb] by blast
    then have "rm.ok_blocks us" "rm.ok_blocks vs" using inv by (auto simp: rec_inv_def)
    then have "0 \<le> total us" "0 \<le> total vs" using rm.total_nonneg by auto
    then show ?thesis using t(2) r(2) u by simp
  qed
  then have "first_fit (request sz) bs = None" unfolding first_fit_None by blast
  moreover have "rec_extend_heap coalesce (request sz) h = Some (0, h)"
    using t(4) r(4) by (simp add: rec_extend_heap_def rec_sbrk_def Let_def)
  moreover have "max (request sz) 4096 = request sz" using r(2) by simp
  ultimately show ?thesis using rec_find_fit_first_fit [OF inv] t(3) sz by (simp add: rec_malloc_eq)
qed

text \<open>C32: \<open>calloc\<close> of \<open>mm-2.c\<close> for at least one element of at least one byte: a product that does not fit
  in \<open>size_t\<close> is detected and gives NULL, and so does one that is larger than the region can be, up to
  \<open>2^64-32\<close>, from where the rounding of \<open>malloc\<close> wraps around. For products up to \<open>2^60\<close>, whenever the
  abstract allocation succeeds, each of the requested bytes is zero and the heap holds the blocks of the
  allocation.\<close>

theorem rec_calloc_zeroes:
  assumes "rec_inv h bs" "0 < elements" "elements < 2 ^ 64" "0 < sz" "sz < 2 ^ 64"
  shows "(2 ^ 64 \<le> elements * sz \<or> 2 ^ 60 < elements * sz \<and> elements * sz \<le> 2 ^ 64 - 32 \<longrightarrow>
       rec_calloc coalesce_block_2 split_block_2 elements sz h = Some (0, h)) \<and>
    (\<forall>off bs'. elements * sz \<le> 2 ^ 60 \<longrightarrow>
       blocks_alloc (request (elements * sz)) (can_extend h) bs = Some (off, bs') \<longrightarrow>
       (\<exists>h'. rec_calloc coalesce_block_2 split_block_2 elements sz h = Some (base h + off, h') \<and> rec_inv h' bs' \<and>
          (\<forall>i < nat (elements * sz). byte_at h' (base h + off + int i) = 0)))"
proof (intro conjI allI impI)
  assume "2 ^ 64 \<le> elements * sz \<or> 2 ^ 60 < elements * sz \<and> elements * sz \<le> 2 ^ 64 - 32"
  then show "rec_calloc coalesce_block_2 split_block_2 elements sz h = Some (0, h)"
  proof
    assume b: "2 ^ 60 < elements * sz \<and> elements * sz \<le> 2 ^ 64 - 32"
    then have "elements * sz mod 2 ^ 64 = elements * sz" by (intro mod_pos_pos_trivial) simp_all
    then show ?thesis
      using malloc_too_big [OF assms(1) conjunct1 [OF b] conjunct2 [OF b]] assms(2) by (simp add: rec_calloc_def Let_def)
  next
  assume o: "2 ^ 64 \<le> elements * sz"
  have "elements * sz mod 2 ^ 64 div elements \<noteq> sz"
  proof
    let ?p = "elements * sz mod 2 ^ 64"
    assume "?p div elements = sz"
    then have "elements * sz = ?p - ?p mod elements" by (simp only: minus_mod_eq_mult_div)
    moreover have "0 \<le> ?p mod elements" using assms(2) by simp
    ultimately have "elements * sz \<le> ?p" by linarith
    moreover have "elements * sz mod 2 ^ 64 < 2 ^ 64" by simp
    ultimately show False using o by linarith
  qed
  then show ?thesis using assms(2) by (simp add: rec_calloc_def Let_def)
  qed
next
  fix off bs' assume s: "elements * sz \<le> 2 ^ 60"
    and a: "blocks_alloc (request (elements * sz)) (can_extend h) bs = Some (off, bs')"
  have p: "0 < elements * sz" "elements * sz mod 2 ^ 64 = elements * sz" using assms(2,4) s by simp_all
  have room: "first_fit (request (elements * sz)) bs \<noteq> None \<or> can_extend h (max (request (elements * sz)) 4096)"
    using a by (auto simp: blocks_alloc_def Let_def split: if_splits option.splits)
  obtain h1 where h1: "rec_malloc coalesce_block_2 split_block_2 (elements * sz) h = Some (base h + off, h1)"
    "rec_inv h1 bs'" "base h1 = base h"
    using allocator_2.malloc_takes [OF assms(1) p(1) s room] a by auto
  obtain xs m ys where b: "bs' = xs @ (m, True) # ys" "off = total xs" "request (elements * sz) \<le> m"
    using blocks_alloc_block [OF a] assms(1) by (auto simp: rec_inv_def)
  have inv1: "rec_inv h1 (xs @ (m, True) # ys)" "rec_inv h1 (xs @ [(m, True)] @ ys)" using h1(2) b(1) by simp_all
  have "16 dvd base h + off" "base h + off \<noteq> 0"
    using rec_inv_D(7,11) [OF inv1(2) not_Cons_self2] h1(3) b(2) by auto
  moreover from this(1) have "8 dvd base h + off" by (rule dvd_trans [rotated]) simp
  ultimately obtain h' where "memset_loop 0 (base h + off) (nat (elements * sz)) h1 = Some h'" "rec_inv h' bs'"
    "\<forall>i < nat (elements * sz). byte_at h' (base h + off + int i) = 0"
    using memset_0_ok [OF inv1(1), of "base h + off" "nat (elements * sz)"] request_ok(2) [OF p(1) s] b h1(3) p(1) by auto
  then show "\<exists>h'. rec_calloc coalesce_block_2 split_block_2 elements sz h = Some (base h + off, h') \<and> rec_inv h' bs' \<and>
      (\<forall>i < nat (elements * sz). byte_at h' (base h + off + int i) = 0)"
    using h1(1) p \<open>base h + off \<noteq> 0\<close> assms(2) by (simp add: rec_calloc_def Let_def mem_memset_def memset_data_0)
qed

theorem rec_calloc_zeroes_witness:
  "\<exists>h. rec_calloc coalesce_block_2 split_block_2 3 7 one_block = Some (4112, h) \<and> rec_inv h [(48, True), (4048, False)] \<and>
    byte_at h 4132 = 0"
proof -
  have "request (3 * 7) = 48" by (simp add: request_def round_up_def dsize_def wsize_def)
  then have "blocks_alloc (request (3 * 7)) (can_extend one_block) [(4096, False)] =
      Some (0, [(48, True), (4048, False)])"
    by (simp add: blocks_alloc_def kept_def)
  then have "\<exists>h. rec_calloc coalesce_block_2 split_block_2 3 7 one_block = Some (base one_block + 0, h) \<and>
      rec_inv h [(48, True), (4048, False)] \<and> (\<forall>i < nat (3 * 7). byte_at h (base one_block + 0 + int i) = 0)"
    using rec_calloc_zeroes [OF one_block_inv, of 3 7] by simp
  moreover have "base one_block = 4112" by (simp add: one_block_def base_def)
  ultimately obtain h where "rec_calloc coalesce_block_2 split_block_2 3 7 one_block = Some (4112, h)"
    "rec_inv h [(48, True), (4048, False)]" "\<forall>i < nat 21. byte_at h (4112 + int i) = 0" by auto
  then show ?thesis by (intro exI [where x = h]) (auto dest!: spec [where x = 20])
qed

lemma upd_commute: "upd (upd h p w) q w = upd (upd h q w) p w"
  by (cases "p = q") (simp_all add: upd_def fun_upd_twist)

text \<open>C33: \<open>split_block\<close> of \<open>mm.c\<close> writes the footer of the rest before its header, so that the old word at
  the place of the new header decides where the footer goes: it splits the block as it should exactly
  when that word already holds the size of the rest; otherwise it writes outside the region or leaves
  a heap that is not the wanted one.\<close>

theorem rec_split_crash:
  assumes inv: "rec_inv h (xs @ (m, True) # ys)" and n: "ok_tag_size n" "n + 32 \<le> m"
  defines "b \<equiv> base h + total xs - 8"
  defines "q \<equiv> b + n + extract_size (mem h (b + n)) - 8"
  shows "split_block b n h =
      (if mapped h q then Some (upd (upd (rtags h b n True) q (pack (m - n) False)) (b + n) (pack (m - n) False)) else None) \<and>
    ((\<exists>h'. split_block b n h = Some h' \<and> rec_inv h' (xs @ kept n m @ ys)) \<longleftrightarrow> extract_size (mem h (b + n)) = m - n)"
proof -
  let ?r = "m - n" and ?h = "rtags h b n True" and ?w = "pack (m - n) False"
  have g: "get_size h b = Some m" "ok_tag_size m" and ft: "peek h (b + m - 8) = Some (pack m True)"
    using rec_block [OF inv, folded b_def] tag_values(1) by (simp_all add: get_size_def)
  have z: "32 \<le> n" "32 \<le> ?r" "?r mod 2 ^ 64 = ?r" "m = n + ?r" using n g(2) by (simp_all add: ok_tag_size_def)
  have rok: "ok_tag_size ?r" using n g(2) by (simp add: ok_tag_size_def)
  have inv': "rec_inv h (xs @ (n + ?r, True) # ys)" using inv by simp
  note s = rec_retag_split(1) [OF inv' n(1) rok, folded b_def, of True False] rec_retag_split(2-4) [OF inv' n(1) rok, folded b_def]
  have mb: "mapped h b" using rec_inv_D(1) [of h xs "[(m, True)]" ys, folded b_def] inv by simp
  have pk: "peek ?h = (peek h)(b \<mapsto> pack n True, b + n - 8 \<mapsto> pack n True)"
    using peek_rtags [OF mb s(2)] by (simp add: retag_def)
  have nx: "find_next ?h b = Some (b + n)" using z(1) by (simp add: find_next_def get_size_def pk tag_values n(1))
  have sz: "get_size ?h (b + n) = Some (extract_size (mem h (b + n)))"
    using s(3) z(1) by (simp add: get_size_def pk) (simp add: peek_def)
  have foot: "header_to_footer ?h (b + n) = Some q"
    using sz by (simp add: header_to_footer_def header_to_payload_def wsize_def dsize_def q_def)
  have exec: "split_block b n h = (if mapped h q then Some (upd (upd ?h q ?w) (b + n) ?w) else None)"
  proof (cases "mapped h q")
    case True
    then show ?thesis
      using write_tags [OF mb s(2) tag_values(1) [OF n(1)]] g(1) nx foot s(3) z(2,3)
      by (simp add: split_block_def min_block_size_def dsize_def wsize_def write_footer_def [of "b + n"] write_header_def [of "b + n"] poke_eq)
  next
    case False
    then have "poke ?h q ?w = None" by (simp add: poke_def)
    then show ?thesis
      using False write_tags [OF mb s(2) tag_values(1) [OF n(1)]] g(1) nx foot z(2,3)
      by (simp add: split_block_def min_block_size_def dsize_def wsize_def write_footer_def [of "b + n"])
  qed
  have kept: "kept n m = [(n, True), (?r, False)]" using n(2) by (simp add: kept_def)
  have "(\<exists>h'. split_block b n h = Some h' \<and> rec_inv h' (xs @ kept n m @ ys)) \<longleftrightarrow> extract_size (mem h (b + n)) = ?r"
  proof
    assume e: "extract_size (mem h (b + n)) = ?r"
    then have q: "q = b + n + ?r - 8" by (simp add: q_def)
    then have "upd (upd ?h q ?w) (b + n) ?w = rtags ?h (b + n) ?r False"
      using upd_commute [of ?h q ?w "b + n"] by (simp add: rtags_def [of ?h])
    then show "\<exists>h'. split_block b n h = Some h' \<and> rec_inv h' (xs @ kept n m @ ys)"
      using exec s(1,4) q kept by simp
  next
    assume "\<exists>h'. split_block b n h = Some h' \<and> rec_inv h' (xs @ kept n m @ ys)"
    then obtain h' where h': "mapped h q" "h' = upd (upd ?h q ?w) (b + n) ?w" "rec_inv h' (xs @ [(n, True), (?r, False)] @ ys)"
      using exec kept by (auto split: if_splits)
    have "base h' = base h" by (simp add: h'(2))
    moreover have "rec_inv h' ((xs @ [(n, True)]) @ (?r, False) # ys)" using h'(3) by simp
    ultimately have f: "peek h' (b + m - 8) = Some ?w" using rec_block(2) [of h' "xs @ [(n, True)]" ?r False ys] by (simp add: b_def)
    show "extract_size (mem h (b + n)) = ?r"
    proof (rule ccontr)
      assume "extract_size (mem h (b + n)) \<noteq> ?r"
      then have "q \<noteq> b + m - 8" by (simp add: q_def)
      then have "peek h' (b + m - 8) = peek h (b + m - 8)"
        using z(1,2) h'(1) s(3) by (simp add: h'(2) peek_upd pk)
      then have "pack m True = ?w" using f ft by simp
      then have "m = ?r" using tag_values(1) [OF g(2), of True] tag_values(1) [OF rok, of False] by simp
      then show False using z(1) by simp
    qed
  qed
  then show ?thesis using exec by blast
qed

definition marked_block :: rheap where
  "marked_block = rtags one_block 4104 4096 True"

lemma rec_split_crash_witness:
  "\<not> (\<exists>h'. split_block 4104 48 marked_block = Some h' \<and> rec_inv h' [(48, True), (4048, False)])"
proof -
  have b: "base marked_block = 4112" "mem marked_block 4152 = 0"
    by (simp_all add: marked_block_def base_def rtags_def upd_def one_block_def)
  have "base one_block + total [] - 8 = 4104" by (simp add: one_block_def base_def)
  then have "rec_inv marked_block ([] @ (4096, True) # [])"
    using mark_block(4) [of one_block "[]" 4096 False "[]" True] one_block_inv by (simp add: marked_block_def)
  from rec_split_crash [OF this, of 48, THEN conjunct2] show ?thesis
    by (simp add: b ok_tag_size_def kept_def extract_size_def)
qed

text \<open>On fresh memory, where that word is 0, two requests and the release of the second end in an access
  outside the heap; with \<open>split_block\<close> of \<open>mm-2.c\<close> the same run succeeds.\<close>

lemma rec_split_run:
  "do { (a, h) \<leftarrow> rec_malloc coalesce_block split_block 24 fresh_memory; (b, h) \<leftarrow> rec_malloc coalesce_block split_block 24 h; Some (a, b) } =
     Some (4112, 4160) \<and>
   do { (a, h) \<leftarrow> rec_malloc coalesce_block split_block 24 fresh_memory; (b, h) \<leftarrow> rec_malloc coalesce_block split_block 24 h;
     rec_free coalesce_block b h } = None \<and>
   do { (a, h) \<leftarrow> rec_malloc coalesce_block split_block_2 24 fresh_memory; (b, h) \<leftarrow> rec_malloc coalesce_block split_block_2 24 h;
     rec_free coalesce_block b h } \<noteq> None"
  by code_simp

end
