(* ===== verification/Stree.thy ===== *)
theory Stree
  imports Prelude "HOL-Library.Tree" "HOL-Library.Multiset" "HOL-Library.Monad_Syntax"
begin

text \<open>
  The splay trees of \<open>malloc/f19-rec-malloc/stree.c\<close>, in which the driver of the recitation keeps the
  ranges it has been given. The nodes are records in a store that maps the addresses of the allocated
  nodes; a null pointer is 0, and an access through a pointer that is null or whose node has been freed
  is \<open>None\<close>. Loops that follow pointers are partial functions of the option monad, so that not
  returning is \<open>None\<close> as well. The counters are natural numbers: a run cannot make them wrap.

  The abstract layer takes the store apart into a tree and the path from a node up to the root; each
  loop of the code moves along the path, and each rotation changes the tree at the end of it.
\<close>

section \<open>Data\<close>

type_synonym ptr = nat

record node =
  nleft :: ptr
  nright :: ptr
  nparent :: ptr
  nkey :: int
  nrecord :: ptr

record stree =
  nodes :: "ptr \<Rightarrow> node option"
  root :: ptr
  node_count :: nat
  comparison_count :: nat

definition deref :: "ptr \<Rightarrow> stree \<Rightarrow> node option" where
  "deref p t = (if p = 0 then None else nodes t p)"

definition assign :: "ptr \<Rightarrow> (node \<Rightarrow> node) \<Rightarrow> stree \<Rightarrow> stree option" where
  "assign p f t = do { n \<leftarrow> deref p t; Some (t\<lparr>nodes := (nodes t)(p \<mapsto> f n)\<rparr>) }"

definition count :: "stree \<Rightarrow> stree" where
  "count t = t\<lparr>comparison_count := comparison_count t + 1\<rparr>"

definition tree_new :: stree where
  "tree_new = \<lparr>nodes = (\<lambda>_. None), root = 0, node_count = 0, comparison_count = 0\<rparr>"

section \<open>Helper functions\<close>

text \<open>Three functions begin by making \<open>y\<close> the child that \<open>x\<close> was.\<close>

definition relink :: "ptr \<Rightarrow> ptr \<Rightarrow> stree \<Rightarrow> stree option" where
  "relink x y t = do {
     nx \<leftarrow> deref x t;
     if nparent nx = 0 then Some (t\<lparr>root := y\<rparr>)
     else do {
       np \<leftarrow> deref (nparent nx) t;
       if x = nleft np then assign (nparent nx) (nleft_update (\<lambda>_. y)) t
       else assign (nparent nx) (nright_update (\<lambda>_. y)) t
     }
   }"

definition left_rotate :: "ptr \<Rightarrow> stree \<Rightarrow> stree option" where
  "left_rotate x t = do {
     nx \<leftarrow> deref x t;
     let y = nright nx;
     t \<leftarrow> (if y \<noteq> 0 then do {
              ny \<leftarrow> deref y t;
              t \<leftarrow> assign x (nright_update (\<lambda>_. nleft ny)) t;
              ny \<leftarrow> deref y t;
              t \<leftarrow> (if nleft ny \<noteq> 0 then assign (nleft ny) (nparent_update (\<lambda>_. x)) t else Some t);
              nx \<leftarrow> deref x t;
              assign y (nparent_update (\<lambda>_. nparent nx)) t
            } else Some t);
     t \<leftarrow> relink x y t;
     t \<leftarrow> (if y \<noteq> 0 then assign y (nleft_update (\<lambda>_. x)) t else Some t);
     assign x (nparent_update (\<lambda>_. y)) t
   }"

definition right_rotate :: "ptr \<Rightarrow> stree \<Rightarrow> stree option" where
  "right_rotate x t = do {
     nx \<leftarrow> deref x t;
     let y = nleft nx;
     t \<leftarrow> (if y \<noteq> 0 then do {
              ny \<leftarrow> deref y t;
              t \<leftarrow> assign x (nleft_update (\<lambda>_. nright ny)) t;
              ny \<leftarrow> deref y t;
              t \<leftarrow> (if nright ny \<noteq> 0 then assign (nright ny) (nparent_update (\<lambda>_. x)) t else Some t);
              nx \<leftarrow> deref x t;
              assign y (nparent_update (\<lambda>_. nparent nx)) t
            } else Some t);
     t \<leftarrow> relink x y t;
     t \<leftarrow> (if y \<noteq> 0 then assign y (nright_update (\<lambda>_. x)) t else Some t);
     assign x (nparent_update (\<lambda>_. y)) t
   }"

partial_function (option) splay :: "ptr \<Rightarrow> stree \<Rightarrow> stree option" where
  "splay x t = do {
     nx \<leftarrow> deref x t;
     let p = nparent nx;
     if p = 0 then Some t
     else do {
       np \<leftarrow> deref p t;
       let g = nparent np;
       t \<leftarrow> (if g = 0 then (if nleft np = x then right_rotate p t else left_rotate p t)
            else do {
              ng \<leftarrow> deref g t;
              if nleft np = x \<and> nleft ng = p then do {
                t \<leftarrow> right_rotate g t;
                nx \<leftarrow> deref x t;
                right_rotate (nparent nx) t
              }
              else if nright np = x \<and> nright ng = p then do {
                t \<leftarrow> left_rotate g t;
                nx \<leftarrow> deref x t;
                left_rotate (nparent nx) t
              }
              else if nleft np = x \<and> nright ng = p then do {
                t \<leftarrow> right_rotate p t;
                nx \<leftarrow> deref x t;
                left_rotate (nparent nx) t
              }
              else do {
                t \<leftarrow> left_rotate p t;
                nx \<leftarrow> deref x t;
                right_rotate (nparent nx) t
              }
            });
       splay x t
     }
   }"

definition replace :: "ptr \<Rightarrow> ptr \<Rightarrow> stree \<Rightarrow> stree option" where
  "replace u v t = do {
     t \<leftarrow> relink u v t;
     if v \<noteq> 0 then do { nu \<leftarrow> deref u t; assign v (nparent_update (\<lambda>_. nparent nu)) t } else Some t
   }"

partial_function (option) subtree_minimum :: "ptr \<Rightarrow> stree \<Rightarrow> ptr option" where
  "subtree_minimum u t = do { n \<leftarrow> deref u t; if nleft n \<noteq> 0 then subtree_minimum (nleft n) t else Some u }"

partial_function (option) subtree_maximum :: "ptr \<Rightarrow> stree \<Rightarrow> ptr option" where
  "subtree_maximum u t = do { n \<leftarrow> deref u t; if nright n \<noteq> 0 then subtree_maximum (nright n) t else Some u }"

text \<open>\<open>free_fun\<close> is called on the records of the result, in this order, if there is one.\<close>

partial_function (option) free_subtree :: "bool \<Rightarrow> ptr \<Rightarrow> stree \<Rightarrow> (ptr list \<times> stree) option" where
  "free_subtree free_fun x t =
     (if x = 0 then Some ([], t)
      else do {
        n \<leftarrow> deref x t;
        (rs, t) \<leftarrow> free_subtree free_fun (nleft n) t;
        n \<leftarrow> deref x t;
        (rs', t) \<leftarrow> free_subtree free_fun (nright n) t;
        n \<leftarrow> deref x t;
        Some (rs @ rs' @ (if free_fun then [nrecord n] else []), t\<lparr>nodes := (nodes t)(x := None)\<rparr>)
      })"

section \<open>Operations\<close>

definition tree_free :: "bool \<Rightarrow> stree \<Rightarrow> (ptr list \<times> stree) option" where
  "tree_free free_fun t = (if root t \<noteq> 0 then free_subtree free_fun (root t) t else Some ([], t))"

partial_function (option) insert_loop :: "int \<Rightarrow> ptr \<Rightarrow> ptr \<Rightarrow> stree \<Rightarrow> (bool \<times> ptr \<times> stree) option" where
  "insert_loop key z p t =
     (if z = 0 then Some (False, p, t)
      else do {
        n \<leftarrow> deref z t;
        let p = z;
        let t = count t;
        if key = nkey n then Some (True, p, t)
        else do {
          let t = count t;
          insert_loop key (if key > nkey n then nright n else nleft n) p t
        }
      })"

text \<open>\<open>malloc\<close> gives the address of the new node; with 0 the program exits.\<close>

datatype inserted = Inserted bool | Exits

definition tree_insert :: "(stree \<Rightarrow> ptr) \<Rightarrow> int \<Rightarrow> ptr \<Rightarrow> stree \<Rightarrow> (inserted \<times> stree) option" where
  "tree_insert malloc key record t = do {
     (present, p, t) \<leftarrow> insert_loop key (root t) 0 t;
     if present then Some (Inserted False, t)
     else do {
       let z = malloc t;
       if z = 0 then Some (Exits, t)
       else do {
         let t = t\<lparr>nodes := (nodes t)(z \<mapsto> \<lparr>nleft = 0, nright = 0, nparent = p, nkey = key, nrecord = record\<rparr>)\<rparr>;
         t \<leftarrow> (if p = 0 then Some (t\<lparr>root := z\<rparr>)
              else do {
                np \<leftarrow> deref p t;
                nz \<leftarrow> deref z t;
                if nkey np < nkey nz then assign p (nright_update (\<lambda>_. z)) t
                else assign p (nleft_update (\<lambda>_. z)) t
              });
         t \<leftarrow> splay z t;
         Some (Inserted True, t\<lparr>node_count := node_count t + 1\<rparr>)
       }
     }
   }"

partial_function (option) find_loop :: "int \<Rightarrow> ptr \<Rightarrow> stree \<Rightarrow> (ptr \<times> stree) option" where
  "find_loop key z t =
     (if z = 0 then Some (0, t)
      else do {
        n \<leftarrow> deref z t;
        let t = count t;
        if key = nkey n then Some (nrecord n, t)
        else do {
          let t = count t;
          find_loop key (if key > nkey n then nright n else nleft n) t
        }
      })"

definition tree_find :: "int \<Rightarrow> stree \<Rightarrow> (ptr \<times> stree) option" where
  "tree_find key t = find_loop key (root t) t"

partial_function (option) nearest_loop :: "int \<Rightarrow> ptr \<Rightarrow> ptr \<Rightarrow> stree \<Rightarrow> (ptr \<times> stree) option" where
  "nearest_loop key z n t =
     (if z = 0 then (if n \<noteq> 0 then do { nn \<leftarrow> deref n t; Some (nrecord nn, t) } else Some (0, t))
      else do {
        nz \<leftarrow> deref z t;
        let t = count t;
        if key = nkey nz then Some (nrecord nz, t)
        else do {
          let t = count t;
          if key > nkey nz then do {
            n \<leftarrow> (if n = 0 then Some z else do { nn \<leftarrow> deref n t; Some (if nkey nn < nkey nz then z else n) });
            nearest_loop key (nright nz) n t
          }
          else nearest_loop key (nleft nz) n t
        }
      })"

definition tree_find_nearest :: "int \<Rightarrow> stree \<Rightarrow> (ptr \<times> stree) option" where
  "tree_find_nearest key t = nearest_loop key (root t) 0 t"

partial_function (option) remove_loop :: "int \<Rightarrow> ptr \<Rightarrow> stree \<Rightarrow> (ptr \<times> stree) option" where
  "remove_loop key z t =
     (if z = 0 then Some (z, t)
      else do {
        n \<leftarrow> deref z t;
        if nkey n = key then Some (z, t)
        else remove_loop key (if key > nkey n then nright n else nleft n) (count t)
      })"

definition tree_remove :: "int \<Rightarrow> stree \<Rightarrow> (ptr \<times> stree) option" where
  "tree_remove key t = do {
     (z, t) \<leftarrow> remove_loop key (root t) t;
     if z = 0 then Some (0, t)
     else do {
       t \<leftarrow> splay z t;
       nz \<leftarrow> deref z t;
       t \<leftarrow> (if nleft nz = 0 then replace z (nright nz) t
            else if nright nz = 0 then replace z (nleft nz) t
            else do {
              y \<leftarrow> subtree_minimum (nright nz) t;
              ny \<leftarrow> deref y t;
              t \<leftarrow> (if nparent ny \<noteq> z then do {
                       t \<leftarrow> replace y (nright ny) t;
                       nz \<leftarrow> deref z t;
                       t \<leftarrow> assign y (nright_update (\<lambda>_. nright nz)) t;
                       ny \<leftarrow> deref y t;
                       assign (nright ny) (nparent_update (\<lambda>_. y)) t
                     } else Some t);
              t \<leftarrow> replace z y t;
              nz \<leftarrow> deref z t;
              t \<leftarrow> assign y (nleft_update (\<lambda>_. nleft nz)) t;
              ny \<leftarrow> deref y t;
              assign (nleft ny) (nparent_update (\<lambda>_. y)) t
            });
       nz \<leftarrow> deref z t;
       Some (nrecord nz, t\<lparr>node_count := node_count t - 1, nodes := (nodes t)(z := None)\<rparr>)
     }
   }"

declare splay.simps [code] subtree_minimum.simps [code] subtree_maximum.simps [code] free_subtree.simps [code]
  insert_loop.simps [code] find_loop.simps [code] nearest_loop.simps [code] remove_loop.simps [code]

section \<open>Trees and paths\<close>

text \<open>An item is the address, the key and the record of a node.\<close>

type_synonym item = "ptr \<times> int \<times> ptr"

datatype crumb = In_left item "item tree" | In_right "item tree" item

fun plug :: "crumb list \<Rightarrow> item tree \<Rightarrow> item tree" where
  "plug [] t = t"
| "plug (In_left a r # c) t = plug c (Node t a r)"
| "plug (In_right l a # c) t = plug c (Node l a t)"

fun before :: "crumb list \<Rightarrow> item list" where
  "before [] = []"
| "before (In_left a r # c) = before c"
| "before (In_right l a # c) = before c @ inorder l @ [a]"

fun after :: "crumb list \<Rightarrow> item list" where
  "after [] = []"
| "after (In_left a r # c) = a # inorder r @ after c"
| "after (In_right l a # c) = after c"

lemma inorder_plug: "inorder (plug c t) = before c @ inorder t @ after c"
  by (induction c t rule: plug.induct) simp_all

fun addr :: "item tree \<Rightarrow> ptr" where
  "addr Leaf = 0"
| "addr (Node l a r) = fst a"

text \<open>The node above the end of a path whose first node has the parent \<open>q\<close>, and the first node.\<close>

fun top :: "ptr \<Rightarrow> crumb list \<Rightarrow> ptr" where
  "top q [] = q"
| "top q (In_left a r # c) = fst a"
| "top q (In_right l a # c) = fst a"

fun path_base :: "crumb list \<Rightarrow> ptr \<Rightarrow> ptr" where
  "path_base [] h = h"
| "path_base (In_left a r # c) h = path_base c (fst a)"
| "path_base (In_right l a # c) h = path_base c (fst a)"

definition node_of :: "item \<Rightarrow> ptr \<Rightarrow> ptr \<Rightarrow> ptr \<Rightarrow> node" where
  "node_of a q l r = \<lparr>nleft = l, nright = r, nparent = q, nkey = fst (snd a), nrecord = snd (snd a)\<rparr>"

fun shape :: "(ptr \<Rightarrow> node option) \<Rightarrow> ptr \<Rightarrow> item tree \<Rightarrow> bool" where
  "shape s q Leaf \<longleftrightarrow> True"
| "shape s q (Node l a r) \<longleftrightarrow> fst a \<noteq> 0 \<and> s (fst a) = Some (node_of a q (addr l) (addr r)) \<and>
     shape s (fst a) l \<and> shape s (fst a) r"

fun pshape :: "(ptr \<Rightarrow> node option) \<Rightarrow> ptr \<Rightarrow> crumb list \<Rightarrow> ptr \<Rightarrow> bool" where
  "pshape s q [] h \<longleftrightarrow> True"
| "pshape s q (In_left a r # c) h \<longleftrightarrow> fst a \<noteq> 0 \<and> s (fst a) = Some (node_of a (top q c) h (addr r)) \<and>
     shape s (fst a) r \<and> pshape s q c (fst a)"
| "pshape s q (In_right l a # c) h \<longleftrightarrow> fst a \<noteq> 0 \<and> s (fst a) = Some (node_of a (top q c) (addr l) h) \<and>
     shape s (fst a) l \<and> pshape s q c (fst a)"

lemma node_of_simps [simp]:
  "nleft (node_of a q l r) = l" "nright (node_of a q l r) = r" "nparent (node_of a q l r) = q"
  "nkey (node_of a q l r) = fst (snd a)" "nrecord (node_of a q l r) = snd (snd a)"
  "nleft_update (\<lambda>_. x) (node_of a q l r) = node_of a q x r" "nright_update (\<lambda>_. x) (node_of a q l r) = node_of a q l x"
  "nparent_update (\<lambda>_. x) (node_of a q l r) = node_of a x l r"
  by (simp_all add: node_of_def)

lemma shape_plug: "shape s q (plug c t) \<longleftrightarrow> pshape s q c (addr t) \<and> shape s (top q c) t"
  by (induction c t rule: plug.induct) auto

lemma addr_plug: "addr (plug c t) = path_base c (addr t)"
  by (induction c t rule: plug.induct) auto

text \<open>The addresses of the nodes, and what does not depend on the others.\<close>

definition ids :: "item list \<Rightarrow> ptr set" where
  "ids xs = fst ` set xs"

lemma ids_simps [simp]: "ids [] = {}" "ids (x # xs) = insert (fst x) (ids xs)" "ids (xs @ ys) = ids xs \<union> ids ys"
  by (auto simp: ids_def)

definition dist :: "item list \<Rightarrow> bool" where
  "dist xs \<longleftrightarrow> distinct (map fst xs)"

lemma dist_simps [simp]:
  "dist []" "dist (x # xs) \<longleftrightarrow> fst x \<notin> ids xs \<and> dist xs"
  "dist (xs @ ys) \<longleftrightarrow> dist xs \<and> dist ys \<and> disjnt (ids xs) (ids ys)"
  by (auto simp: dist_def ids_def disjnt_iff)

lemma shape_cong: "shape s q t \<Longrightarrow> (\<And>a. a \<in> ids (inorder t) \<Longrightarrow> s' a = s a) \<Longrightarrow> shape s' q t"
  by (induction s q t rule: shape.induct) auto

lemma pshape_cong: "pshape s q c h \<Longrightarrow> (\<And>a. a \<in> ids (before c @ after c) \<Longrightarrow> s' a = s a) \<Longrightarrow> pshape s' q c h"
  by (induction s q c h rule: pshape.induct) (auto intro: shape_cong)

lemma shape_reparent:
  assumes "shape s q t" "t \<noteq> Leaf \<Longrightarrow> s' (addr t) = map_option (nparent_update (\<lambda>_. q')) (s (addr t))"
    and "\<And>a. a \<in> ids (inorder t) \<Longrightarrow> a \<noteq> addr t \<Longrightarrow> s' a = s a" and "dist (inorder t)"
  shows "shape s' q' t"
proof (cases t)
  case (Node l a r)
  have "fst a \<notin> ids (inorder l)" "fst a \<notin> ids (inorder r)" using assms(4) by (auto simp: Node)
  then have same: "s' b = s b" if "b \<in> ids (inorder l) \<union> ids (inorder r)" for b
    by (intro assms(3)) (use that Node in auto)
  have "shape s' (fst a) l" "shape s' (fst a) r"
    using assms(1) same by (auto simp: Node intro: shape_cong)
  then show ?thesis using assms(1,2) Node by simp
qed simp

lemma top_in: "c \<noteq> [] \<Longrightarrow> top q c \<in> ids (before c @ after c)"
  by (induction q c rule: top.induct) simp_all

section \<open>What a state represents\<close>

text \<open>The tree \<open>u\<close> hangs at the end of the path \<open>c\<close>, and the store holds nothing else.\<close>

definition rep :: "stree \<Rightarrow> crumb list \<Rightarrow> item tree \<Rightarrow> bool" where
  "rep t c u \<longleftrightarrow> root t = path_base c (addr u) \<and> pshape (nodes t) 0 c (addr u) \<and> shape (nodes t) (top 0 c) u \<and>
     dist (before c @ inorder u @ after c) \<and> dom (nodes t) = ids (before c @ inorder u @ after c)"

lemma rep_plug: "rep t [] (plug c u) \<longleftrightarrow> rep t c u"
  by (simp add: rep_def shape_plug addr_plug inorder_plug)

lemma rep_move: "rep t c u \<Longrightarrow> plug c u = plug c' u' \<Longrightarrow> rep t c' u'"
  using rep_plug by metis

lemma deref_eq [simp]: "p \<noteq> 0 \<Longrightarrow> deref p t = nodes t p" "deref 0 t = None"
  by (simp_all add: deref_def)

lemma assign_eq: "p \<noteq> 0 \<Longrightarrow> nodes t p = Some n \<Longrightarrow> assign p f t = Some (t\<lparr>nodes := (nodes t)(p \<mapsto> f n)\<rparr>)"
  by (simp add: assign_def)

section \<open>Linking a node to its parent\<close>

fun set_child :: "crumb list \<Rightarrow> ptr \<Rightarrow> (ptr \<Rightarrow> node option) \<Rightarrow> ptr \<Rightarrow> node option" where
  "set_child [] y s = s"
| "set_child (In_left a r # c) y s = s(fst a := map_option (nleft_update (\<lambda>_. y)) (s (fst a)))"
| "set_child (In_right l a # c) y s = s(fst a := map_option (nright_update (\<lambda>_. y)) (s (fst a)))"

lemma set_child_other: "b \<notin> ids (before c @ after c) \<Longrightarrow> set_child c y s b = s b"
  by (induction c y s rule: set_child.induct) auto

lemma dom_set_child [simp]: "dom (set_child c y s) = dom s"
  by (induction c y s rule: set_child.induct) (auto simp: dom_def)

lemma pshape_set_child:
  assumes "pshape s q c h" "dist (before c @ after c)"
  shows "pshape (set_child c y s) q c y"
proof (cases c)
  case (Cons d c')
  have out: "b \<noteq> e \<Longrightarrow> (s(e := v)) b = s b" for b e v by simp
  show ?thesis
  proof (cases d)
    case (In_left a r)
    have n: "fst a \<notin> ids (inorder r)" "fst a \<notin> ids (before c' @ after c')"
      using assms(2) by (auto simp: Cons In_left)
    show ?thesis using assms(1) n
      by (auto simp: Cons In_left intro: shape_cong [of s] pshape_cong [of s])
  next
    case (In_right l a)
    have n: "fst a \<notin> ids (inorder l)" "fst a \<notin> ids (before c' @ after c')"
      using assms(2) by (auto simp: Cons In_right)
    show ?thesis using assms(1) n
      by (auto simp: Cons In_right intro: shape_cong [of s] pshape_cong [of s])
  qed
qed simp

lemma relink_ok:
  assumes x: "x \<noteq> 0" "nodes t x = Some n" "nparent n = top 0 c" "x \<notin> ids (before c @ after c)"
    and p: "pshape (nodes t) 0 c x" "root t = path_base c x"
  shows "relink x y t = Some (t\<lparr>nodes := set_child c y (nodes t), root := path_base c y\<rparr>)"
proof (cases c)
  case Nil
  then show ?thesis using x by (simp add: relink_def)
next
  case (Cons d c')
  show ?thesis
  proof (cases d)
    case (In_left a r)
    then show ?thesis using x p Cons by (simp add: relink_def assign_eq)
  next
    case (In_right l a)
    have "x \<noteq> addr l" using x(1,4) by (cases l) (auto simp: Cons In_right)
    then show ?thesis using x p Cons In_right by (simp add: relink_def assign_eq)
  qed
qed

section \<open>Rotations\<close>

lemma addr_in: "u \<noteq> Leaf \<Longrightarrow> addr u \<in> ids (inorder u)"
  by (cases u) auto

lemma addr_nonzero: "shape s q u \<Longrightarrow> addr u = 0 \<longleftrightarrow> u = Leaf"
  by (cases u) auto

definition set_parent :: "ptr \<Rightarrow> ptr \<Rightarrow> (ptr \<Rightarrow> node option) \<Rightarrow> ptr \<Rightarrow> node option" where
  "set_parent b q s = (if b = 0 then s else s(b := map_option (nparent_update (\<lambda>_. q)) (s b)))"

text \<open>
  What the two rotations have in common: the node of \<open>y\<close> takes the place of \<open>x\<close>, and the subtree \<open>B\<close> that
  hung from \<open>y\<close> now hangs from \<open>x\<close>.
\<close>

lemma rotation:
  fixes s :: "ptr \<Rightarrow> node option" and x y :: ptr and nx ny nx' ny' :: node
  assumes xy: "x \<noteq> 0" "y \<noteq> 0" "x \<noteq> y" "x \<notin> ids (inorder A @ inorder B @ inorder C @ before c @ after c)"
      "y \<notin> ids (inorder A @ inorder B @ inorder C @ before c @ after c)"
    and d: "dist (inorder A @ inorder B @ inorder C @ before c @ after c)"
    and sh: "shape s pA A" "shape s y B" "shape s pC C" "pshape s 0 c x"
    and n: "nparent nx = top 0 c"
  defines "s2 \<equiv> (set_parent (addr B) x (s(x \<mapsto> nx)))(y \<mapsto> ny)"
  defines "s3 \<equiv> (set_child c y s2)(y \<mapsto> ny', x \<mapsto> nx')"
  shows "shape s3 pA A" "shape s3 x B" "shape s3 pC C" "pshape s3 0 c y" "s2 x = Some nx" "s2 y = Some ny"
    "set_child c y s2 x = Some nx" "set_child c y s2 y = Some ny" "s3 x = Some nx'" "s3 y = Some ny'"
    "addr B \<noteq> x" "addr B \<noteq> y" "addr B \<noteq> 0 \<Longrightarrow> \<exists>n. s (addr B) = Some n"
    "nodes t = s2 \<Longrightarrow> root t = path_base c x \<Longrightarrow> relink x y t = Some (t\<lparr>nodes := set_child c y s2, root := path_base c y\<rparr>)"
proof -
  let ?out = "ids (inorder A @ inorder B @ inorder C @ before c @ after c)"
  note apart = d [simplified, unfolded disjnt_iff, simplified]
  have path: "x \<notin> ids (before c @ after c)" "y \<notin> ids (before c @ after c)" using xy by auto
  have oB: "b \<notin> ids (before c @ after c)" "b \<noteq> x" "b \<noteq> y" if "b \<in> ids (inorder B)" for b
    using that apart xy by auto
  have nB: "addr B \<noteq> b" if "b \<in> ids (inorder A) \<union> ids (inorder C) \<union> ids (before c @ after c)" "addr B \<noteq> 0" for b
    using that apart addr_in [of B] by (cases B) auto
  show B: "addr B \<noteq> x" "addr B \<noteq> y" using xy addr_in [of B] by (cases "B = Leaf"; auto)+
  show "\<exists>n. s (addr B) = Some n" if "addr B \<noteq> 0" using sh(2) that by (cases B) auto
  have s2': "s2 b = s b" if "b \<in> ids (inorder A) \<union> ids (inorder C) \<union> ids (before c @ after c)" for b
    using nB [OF that] that xy by (auto simp: s2_def set_parent_def)
  show s2: "s2 x = Some nx" "s2 y = Some ny" using xy(3) B by (auto simp: s2_def set_parent_def)
  then show "set_child c y s2 x = Some nx" "set_child c y s2 y = Some ny"
    using set_child_other [OF path(1)] set_child_other [OF path(2)] by simp_all
  show "s3 x = Some nx'" "s3 y = Some ny'" using xy(3) by (simp_all add: s3_def)
  have same: "s3 b = s b" if "b \<in> ids (inorder A) \<union> ids (inorder C)" for b
  proof -
    have "b \<notin> ids (before c @ after c)" "b \<noteq> x" "b \<noteq> y" using that apart xy by auto
    then show ?thesis using s2' [of b] that by (simp add: s3_def set_child_other)
  qed
  show "shape s3 pA A" "shape s3 pC C" using sh same by (auto intro: shape_cong)
  show "shape s3 x B"
  proof (rule shape_reparent [OF sh(2)])
    show "s3 (addr B) = map_option (nparent_update (\<lambda>_. x)) (s (addr B))" if "B \<noteq> Leaf"
      using oB [OF addr_in [OF that]] addr_nonzero [OF sh(2)] that
      by (simp add: s3_def s2_def set_child_other set_parent_def)
    show "s3 b = s b" if "b \<in> ids (inorder B)" "b \<noteq> addr B" for b
      using oB [OF that(1)] that by (simp add: s3_def s2_def set_child_other set_parent_def)
  qed (use apart in simp)
  have p2: "pshape s2 0 c x" by (rule pshape_cong [OF sh(4)]) (rule s2', simp)
  then have "pshape (set_child c y s2) 0 c y"
    by (rule pshape_set_child) (use d in \<open>auto simp: disjnt_iff\<close>)
  then show "pshape s3 0 c y" by (rule pshape_cong) (use path in \<open>auto simp: s3_def\<close>)
  show "relink x y t = Some (t\<lparr>nodes := set_child c y s2, root := path_base c y\<rparr>)" if "nodes t = s2" "root t = path_base c x"
    using relink_ok [of x t nx c y] that xy(1) s2(1) n path(1) p2 by simp
qed

lemma right_rotate_ok:
  assumes r: "rep t c (Node (Node A y B) x C)"
  shows "\<exists>t'. right_rotate (fst x) t = Some t' \<and> rep t' c (Node A y (Node B x C)) \<and>
    node_count t' = node_count t \<and> comparison_count t' = comparison_count t"
proof -
  let ?s2 = "(set_parent (addr B) (fst x) ((nodes t)(fst x \<mapsto> node_of x (top 0 c) (addr B) (addr C))))(fst y \<mapsto> node_of y (top 0 c) (addr A) (addr B))"
  let ?s3 = "(set_child c (fst y) ?s2)(fst y \<mapsto> node_of y (top 0 c) (addr A) (fst x), fst x \<mapsto> node_of x (fst y) (addr B) (addr C))"
  let ?t = "t\<lparr>nodes := ?s3, root := path_base c (fst y)\<rparr>"
  have xy: "fst x \<noteq> 0" "fst y \<noteq> 0" and sx: "nodes t (fst x) = Some (node_of x (top 0 c) (fst y) (addr C))"
    and sy: "nodes t (fst y) = Some (node_of y (fst x) (addr A) (addr B))"
    and sh: "shape (nodes t) (fst y) A" "shape (nodes t) (fst y) B" "shape (nodes t) (fst x) C" "pshape (nodes t) 0 c (fst x)" "root t = path_base c (fst x)"
    using r by (auto simp: rep_def)
  have d: "dist (before c @ inorder (Node (Node A y B) x C) @ after c)" using r by (simp only: rep_def)
  have o: "fst x \<noteq> fst y" "fst x \<notin> ids (inorder A @ inorder B @ inorder C @ before c @ after c)"
    "fst y \<notin> ids (inorder A @ inorder B @ inorder C @ before c @ after c)" "dist (inorder A @ inorder B @ inorder C @ before c @ after c)"
    using d by (auto simp: disjnt_iff)
  note rot = rotation [OF xy o sh(1,2,3,4), where nx = "node_of x (top 0 c) (addr B) (addr C)", OF node_of_simps(3)]
  note rot2 = rot(5-8,14) [where ny = "node_of y (top 0 c) (addr A) (addr B)"]
  note rot3 = rot(1-4,9,10) [where ny = "node_of y (top 0 c) (addr A) (addr B)" and ny' = "node_of y (top 0 c) (addr A) (fst x)"
      and nx' = "node_of x (fst y) (addr B) (addr C)"]
  have "right_rotate (fst x) t = do {
      t \<leftarrow> relink (fst x) (fst y) (t\<lparr>nodes := ?s2\<rparr>);
      t \<leftarrow> assign (fst y) (nright_update (\<lambda>_. fst x)) t;
      assign (fst x) (nparent_update (\<lambda>_. fst y)) t }"
    using xy sx sy o(1) rot(11-13) by (auto simp: right_rotate_def assign_eq set_parent_def fun_upd_twist Let_def)
  also have "\<dots> = Some ?t"
    using rot2(5) [of "t\<lparr>nodes := ?s2\<rparr>"] sh(5) xy o(1) rot2(3,4) by (simp add: assign_eq)
  finally have run: "right_rotate (fst x) t = Some ?t" .
  have "dom ?s3 = dom (nodes t)" using sx sy rot(13) by (auto simp: set_parent_def)
  then have "rep ?t c (Node A y (Node B x C))" using r xy rot3 by (auto simp: rep_def)
  then show ?thesis using run by simp
qed

lemma left_rotate_ok:
  assumes r: "rep t c (Node A x (Node B y C))"
  shows "\<exists>t'. left_rotate (fst x) t = Some t' \<and> rep t' c (Node (Node A x B) y C) \<and>
    node_count t' = node_count t \<and> comparison_count t' = comparison_count t"
proof -
  let ?s2 = "(set_parent (addr B) (fst x) ((nodes t)(fst x \<mapsto> node_of x (top 0 c) (addr A) (addr B))))(fst y \<mapsto> node_of y (top 0 c) (addr B) (addr C))"
  let ?s3 = "(set_child c (fst y) ?s2)(fst y \<mapsto> node_of y (top 0 c) (fst x) (addr C), fst x \<mapsto> node_of x (fst y) (addr A) (addr B))"
  let ?t = "t\<lparr>nodes := ?s3, root := path_base c (fst y)\<rparr>"
  have xy: "fst x \<noteq> 0" "fst y \<noteq> 0" and sx: "nodes t (fst x) = Some (node_of x (top 0 c) (addr A) (fst y))"
    and sy: "nodes t (fst y) = Some (node_of y (fst x) (addr B) (addr C))"
    and sh: "shape (nodes t) (fst x) A" "shape (nodes t) (fst y) B" "shape (nodes t) (fst y) C" "pshape (nodes t) 0 c (fst x)" "root t = path_base c (fst x)"
    using r by (auto simp: rep_def)
  have d: "dist (before c @ inorder (Node A x (Node B y C)) @ after c)" using r by (simp only: rep_def)
  have o: "fst x \<noteq> fst y" "fst x \<notin> ids (inorder A @ inorder B @ inorder C @ before c @ after c)"
    "fst y \<notin> ids (inorder A @ inorder B @ inorder C @ before c @ after c)" "dist (inorder A @ inorder B @ inorder C @ before c @ after c)"
    using d by (auto simp: disjnt_iff)
  note rot = rotation [OF xy o sh(1,2,3,4), where nx = "node_of x (top 0 c) (addr A) (addr B)", OF node_of_simps(3)]
  note rot2 = rot(5-8,14) [where ny = "node_of y (top 0 c) (addr B) (addr C)"]
  note rot3 = rot(1-4,9,10) [where ny = "node_of y (top 0 c) (addr B) (addr C)" and ny' = "node_of y (top 0 c) (fst x) (addr C)"
      and nx' = "node_of x (fst y) (addr A) (addr B)"]
  have "left_rotate (fst x) t = do {
      t \<leftarrow> relink (fst x) (fst y) (t\<lparr>nodes := ?s2\<rparr>);
      t \<leftarrow> assign (fst y) (nleft_update (\<lambda>_. fst x)) t;
      assign (fst x) (nparent_update (\<lambda>_. fst y)) t }"
    using xy sx sy o(1) rot(11-13) by (auto simp: left_rotate_def assign_eq set_parent_def fun_upd_twist Let_def)
  also have "\<dots> = Some ?t"
    using rot2(5) [of "t\<lparr>nodes := ?s2\<rparr>"] sh(5) xy o(1) rot2(3,4) by (simp add: assign_eq)
  finally have run: "left_rotate (fst x) t = Some ?t" .
  have "dom ?s3 = dom (nodes t)" using sx sy rot(13) by (auto simp: set_parent_def)
  then have "rep ?t c (Node (Node A x B) y C)" using r xy rot3 by (auto simp: rep_def)
  then show ?thesis using run by simp
qed

section \<open>Splaying\<close>

fun splay_up :: "crumb list \<Rightarrow> item tree \<Rightarrow> item \<Rightarrow> item tree \<Rightarrow> item tree" where
  "splay_up [] l x r = Node l x r"
| "splay_up [In_left p C] l x r = Node l x (Node r p C)"
| "splay_up [In_right A p] l x r = Node (Node A p l) x r"
| "splay_up (In_left p C # In_left g D # c) l x r = splay_up c l x (Node r p (Node C g D))"
| "splay_up (In_right A p # In_right B g # c) l x r = splay_up c (Node (Node B g A) p l) x r"
| "splay_up (In_left p C # In_right B g # c) l x r = splay_up c (Node B g l) x (Node r p C)"
| "splay_up (In_right A p # In_left g D # c) l x r = splay_up c (Node A p l) x (Node r g D)"

lemma inorder_splay_up: "inorder (splay_up c l x r) = before c @ inorder l @ x # inorder r @ after c"
  by (induction c l x r rule: splay_up.induct) simp_all

lemma splay_up_root: "\<exists>l' r'. splay_up c l x r = Node l' x r'"
  by (induction c l x r rule: splay_up.induct) auto

lemma rep_root_parent: "rep t c (Node l x r) \<Longrightarrow> fst x \<noteq> 0 \<and> nodes t (fst x) = Some (node_of x (top 0 c) (addr l) (addr r))"
  by (simp add: rep_def)

lemma rep_path:
  assumes "rep t c u"
  shows "c = In_left p C # c' \<Longrightarrow> fst p \<noteq> 0 \<and> nodes t (fst p) = Some (node_of p (top 0 c') (addr u) (addr C))"
    "c = In_right A p # c' \<Longrightarrow> fst p \<noteq> 0 \<and> nodes t (fst p) = Some (node_of p (top 0 c') (addr A) (addr u))"
    "c = d # In_left g D # c' \<Longrightarrow> fst g \<noteq> 0 \<and> nodes t (fst g) = Some (node_of g (top 0 c') (top 0 [d]) (addr D))"
    "c = d # In_right B g # c' \<Longrightarrow> fst g \<noteq> 0 \<and> nodes t (fst g) = Some (node_of g (top 0 c') (addr B) (top 0 [d]))"
  using assms by (cases d; simp add: rep_def)+

lemma rep_apart:
  assumes "rep t c u" "u \<noteq> Leaf"
  shows "c = In_left p C # c' \<Longrightarrow> addr C \<noteq> addr u" "c = In_right A p # c' \<Longrightarrow> addr A \<noteq> addr u"
    "c = d # In_left g D # c' \<Longrightarrow> addr D \<noteq> top 0 [d]" "c = d # In_right B g # c' \<Longrightarrow> addr B \<noteq> top 0 [d]"
proof -
  have neq: "addr v \<noteq> a" if "a \<noteq> 0" "a \<notin> ids (inorder v)" for v a using that addr_in [of v] by (cases "v = Leaf") auto
  have u: "addr u \<noteq> 0" "addr u \<in> ids (inorder u)" using assms addr_nonzero addr_in by (auto simp: rep_def)
  have d: "dist (before c @ inorder u @ after c)" using assms(1) by (simp add: rep_def)
  show "c = In_left p C # c' \<Longrightarrow> addr C \<noteq> addr u" "c = In_right A p # c' \<Longrightarrow> addr A \<noteq> addr u"
    by (rule neq [OF u(1)]; use d u(2) in \<open>auto simp: disjnt_iff\<close>)+
  have "top 0 [d] \<noteq> 0" if "c = d # c''" for c'' using assms(1) that by (cases d) (simp_all add: rep_def)
  then show "c = d # In_left g D # c' \<Longrightarrow> addr D \<noteq> top 0 [d]" "c = d # In_right B g # c' \<Longrightarrow> addr B \<noteq> top 0 [d]"
    by (cases d; intro neq; use d in \<open>auto simp: disjnt_iff\<close>)+
qed

text \<open>A step of the loop.\<close>

lemma splay_step:
  assumes r: "rep t c (Node l x r)"
  shows "c = [] \<Longrightarrow> splay (fst x) t = Some t"
    "c = [In_left p C] \<Longrightarrow> splay (fst x) t = right_rotate (fst p) t \<bind> splay (fst x)"
    "c = [In_right A p] \<Longrightarrow> splay (fst x) t = left_rotate (fst p) t \<bind> splay (fst x)"
    "c = In_left p C # In_left g D # c' \<Longrightarrow> splay (fst x) t =
      do { t \<leftarrow> right_rotate (fst g) t; nx \<leftarrow> deref (fst x) t; t \<leftarrow> right_rotate (nparent nx) t; splay (fst x) t }"
    "c = In_right A p # In_right B g # c' \<Longrightarrow> splay (fst x) t =
      do { t \<leftarrow> left_rotate (fst g) t; nx \<leftarrow> deref (fst x) t; t \<leftarrow> left_rotate (nparent nx) t; splay (fst x) t }"
    "c = In_left p C # In_right B g # c' \<Longrightarrow> splay (fst x) t =
      do { t \<leftarrow> right_rotate (fst p) t; nx \<leftarrow> deref (fst x) t; t \<leftarrow> left_rotate (nparent nx) t; splay (fst x) t }"
    "c = In_right A p # In_left g D # c' \<Longrightarrow> splay (fst x) t =
      do { t \<leftarrow> left_rotate (fst p) t; nx \<leftarrow> deref (fst x) t; t \<leftarrow> right_rotate (nparent nx) t; splay (fst x) t }"
proof -
  note n = rep_root_parent [OF r] rep_path [OF r] rep_apart [OF r tree.distinct(2)]
  show "c = [] \<Longrightarrow> splay (fst x) t = Some t" using n(1) by (subst splay.simps) simp
  show "c = [In_left p C] \<Longrightarrow> splay (fst x) t = right_rotate (fst p) t \<bind> splay (fst x)"
    using n(1,2) r by (subst splay.simps) simp
  show "c = [In_right A p] \<Longrightarrow> splay (fst x) t = left_rotate (fst p) t \<bind> splay (fst x)"
    using n(1,3,7) r by (subst splay.simps) simp
  show "c = In_left p C # In_left g D # c' \<Longrightarrow> splay (fst x) t =
      do { t \<leftarrow> right_rotate (fst g) t; nx \<leftarrow> deref (fst x) t; t \<leftarrow> right_rotate (nparent nx) t; splay (fst x) t }"
    using n(1) n(2) n(4) r by (subst splay.simps) simp
  show "c = In_right A p # In_right B g # c' \<Longrightarrow> splay (fst x) t =
      do { t \<leftarrow> left_rotate (fst g) t; nx \<leftarrow> deref (fst x) t; t \<leftarrow> left_rotate (nparent nx) t; splay (fst x) t }"
    using n(1) n(3) n(5) n(7) r by (subst splay.simps) simp
  show "c = In_left p C # In_right B g # c' \<Longrightarrow> splay (fst x) t =
      do { t \<leftarrow> right_rotate (fst p) t; nx \<leftarrow> deref (fst x) t; t \<leftarrow> left_rotate (nparent nx) t; splay (fst x) t }"
    using n(1) n(2) n(5) n(6) n(9) r by (subst splay.simps) simp
  show "c = In_right A p # In_left g D # c' \<Longrightarrow> splay (fst x) t =
      do { t \<leftarrow> left_rotate (fst p) t; nx \<leftarrow> deref (fst x) t; t \<leftarrow> right_rotate (nparent nx) t; splay (fst x) t }"
    using n(1) n(3) n(4) n(7) n(8) r by (subst splay.simps) simp
qed

text \<open>Two rotations, the second at the parent that \<open>x\<close> has after the first.\<close>

definition same_counts :: "stree \<Rightarrow> stree \<Rightarrow> bool" where
  "same_counts t t' \<longleftrightarrow> node_count t' = node_count t \<and> comparison_count t' = comparison_count t"

lemma rotate_right_at:
  assumes "rep t c u" "plug c u = plug c' (Node (Node A y B) x C)"
  obtains t' where "right_rotate (fst x) t = Some t'" "rep t' c' (Node A y (Node B x C))" "same_counts t t'"
  using right_rotate_ok [OF rep_move [OF assms]] by (auto simp: same_counts_def)

lemma rotate_left_at:
  assumes "rep t c u" "plug c u = plug c' (Node A x (Node B y C))"
  obtains t' where "left_rotate (fst x) t = Some t'" "rep t' c' (Node (Node A x B) y C)" "same_counts t t'"
  using left_rotate_ok [OF rep_move [OF assms]] by (auto simp: same_counts_def)

lemma parent_at:
  assumes "rep t c u" "plug c u = plug (d # c') (Node l x r)"
  shows "deref (fst x) t = Some (node_of x (top 0 [d]) (addr l) (addr r))"
  using rep_root_parent [OF rep_move [OF assms]] by (cases d) auto

lemma splay_ok:
  "rep t c (Node l x r) \<Longrightarrow> \<exists>t'. splay (fst x) t = Some t' \<and> rep t' [] (splay_up c l x r) \<and> same_counts t t'"
proof (induction c l x r arbitrary: t rule: splay_up.induct)
  case (1 l x r)
  then show ?case using splay_step(1) [OF 1] by (simp add: same_counts_def)
next
  case (2 p C l x r)
  obtain t1 where t1: "right_rotate (fst p) t = Some t1" "rep t1 [] (Node l x (Node r p C))" "same_counts t t1"
    by (rule rotate_right_at [OF 2, of "[]"]) auto
  show ?case using splay_step(2) [OF 2 refl] splay_step(1) [OF t1(2) refl] t1 by simp
next
  case (3 A p l x r)
  obtain t1 where t1: "left_rotate (fst p) t = Some t1" "rep t1 [] (Node (Node A p l) x r)" "same_counts t t1"
    by (rule rotate_left_at [OF 3, of "[]"]) auto
  show ?case using splay_step(3) [OF 3 refl] splay_step(1) [OF t1(2) refl] t1 by simp
next
  case (4 p C g D c l x r)
  obtain t1 where t1: "right_rotate (fst g) t = Some t1" "rep t1 c (Node (Node l x r) p (Node C g D))" "same_counts t t1"
    by (rule rotate_right_at [OF 4(2), of c]) auto
  obtain t2 where t2: "right_rotate (fst p) t1 = Some t2" "rep t2 c (Node l x (Node r p (Node C g D)))" "same_counts t1 t2"
    by (rule rotate_right_at [OF t1(2), of c]) auto
  have "deref (fst x) t1 = Some (node_of x (fst p) (addr l) (addr r))"
    using parent_at [OF t1(2), of "In_left p (Node C g D)" c l x r] by simp
  then show ?case using splay_step(4) [OF 4(2) refl] t1 t2 4(1) [OF t2(2)] by (auto simp: same_counts_def)
next
  case (5 A p B g c l x r)
  obtain t1 where t1: "left_rotate (fst g) t = Some t1" "rep t1 c (Node (Node B g A) p (Node l x r))" "same_counts t t1"
    by (rule rotate_left_at [OF 5(2), of c]) auto
  obtain t2 where t2: "left_rotate (fst p) t1 = Some t2" "rep t2 c (Node (Node (Node B g A) p l) x r)" "same_counts t1 t2"
    by (rule rotate_left_at [OF t1(2), of c]) auto
  have "deref (fst x) t1 = Some (node_of x (fst p) (addr l) (addr r))"
    using parent_at [OF t1(2), of "In_right (Node B g A) p" c l x r] by simp
  then show ?case using splay_step(5) [OF 5(2) refl] t1 t2 5(1) [OF t2(2)] by (auto simp: same_counts_def)
next
  case (6 p C B g c l x r)
  obtain t1 where t1: "right_rotate (fst p) t = Some t1" "rep t1 (In_right B g # c) (Node l x (Node r p C))" "same_counts t t1"
    by (rule rotate_right_at [OF 6(2), of "In_right B g # c"]) auto
  obtain t2 where t2: "left_rotate (fst g) t1 = Some t2" "rep t2 c (Node (Node B g l) x (Node r p C))" "same_counts t1 t2"
    by (rule rotate_left_at [OF t1(2), of c]) auto
  have "deref (fst x) t1 = Some (node_of x (fst g) (addr l) (addr (Node r p C)))"
    using parent_at [OF t1(2), of "In_right B g" c l x "Node r p C"] by simp
  then show ?case using splay_step(6) [OF 6(2) refl] t1 t2 6(1) [OF t2(2)] by (auto simp: same_counts_def)
next
  case (7 A p g D c l x r)
  obtain t1 where t1: "left_rotate (fst p) t = Some t1" "rep t1 (In_left g D # c) (Node (Node A p l) x r)" "same_counts t t1"
    by (rule rotate_left_at [OF 7(2), of "In_left g D # c"]) auto
  obtain t2 where t2: "right_rotate (fst g) t1 = Some t2" "rep t2 c (Node (Node A p l) x (Node r g D))" "same_counts t1 t2"
    by (rule rotate_right_at [OF t1(2), of c]) auto
  have "deref (fst x) t1 = Some (node_of x (fst g) (addr (Node A p l)) (addr r))"
    using parent_at [OF t1(2), of "In_left g D" c "Node A p l" x r] by simp
  then show ?case using splay_step(7) [OF 7(2) refl] t1 t2 7(1) [OF t2(2)] by (auto simp: same_counts_def)
qed

section \<open>Searching\<close>

definition key_of :: "item \<Rightarrow> int" where "key_of a = fst (snd a)"
definition rec_of :: "item \<Rightarrow> ptr" where "rec_of a = snd (snd a)"

definition ordered :: "item list \<Rightarrow> bool" where
  "ordered xs \<longleftrightarrow> sorted_wrt (<) (map key_of xs)"

lemma ordered_simps [simp]:
  "ordered []" "ordered (x # xs) \<longleftrightarrow> (\<forall>a \<in> set xs. key_of x < key_of a) \<and> ordered xs"
  "ordered (xs @ ys) \<longleftrightarrow> ordered xs \<and> ordered ys \<and> (\<forall>a \<in> set xs. \<forall>b \<in> set ys. key_of a < key_of b)"
  by (auto simp: ordered_def sorted_wrt_append)

lemma node_of_keys [simp]: "nkey (node_of a q l r) = key_of a" "nrecord (node_of a q l r) = rec_of a"
  by (simp_all add: key_of_def rec_of_def)

declare node_of_simps(4,5) [simp del]

text \<open>All loops follow the same way down the tree.\<close>

fun descend :: "int \<Rightarrow> crumb list \<Rightarrow> item tree \<Rightarrow> crumb list \<times> item tree" where
  "descend key c Leaf = (c, Leaf)"
| "descend key c (Node l a r) =
     (if key = key_of a then (c, Node l a r)
      else if key > key_of a then descend key (In_right l a # c) r
      else descend key (In_left a r # c) l)"

lemma plug_descend: "descend key c u = (c', u') \<Longrightarrow> plug c' u' = plug c u"
  by (induction key c u rule: descend.induct) (auto split: if_splits)

definition straddles :: "int \<Rightarrow> crumb list \<Rightarrow> bool" where
  "straddles key c \<longleftrightarrow> (\<forall>a \<in> set (before c). key_of a < key) \<and> (\<forall>a \<in> set (after c). key < key_of a)"

lemma straddles_step:
  assumes "ordered (before c @ inorder (Node l a r) @ after c)" "straddles key c"
  shows "key > key_of a \<Longrightarrow> straddles key (In_right l a # c)" "key < key_of a \<Longrightarrow> straddles key (In_left a r # c)"
proof -
  have "\<forall>b \<in> set (inorder l). key_of b < key_of a" "\<forall>b \<in> set (inorder r). key_of a < key_of b"
    using assms(1) by simp_all
  then show "key > key_of a \<Longrightarrow> straddles key (In_right l a # c)" "key < key_of a \<Longrightarrow> straddles key (In_left a r # c)"
    using assms(2) unfolding straddles_def before.simps after.simps set_append set_simps by (blast intro: less_trans)+
qed

lemma descend_straddles:
  "descend key c u = (c', u') \<Longrightarrow> ordered (before c @ inorder u @ after c) \<Longrightarrow> straddles key c \<Longrightarrow>
   straddles key c' \<and> (u' \<noteq> Leaf \<longrightarrow> key_of (value u') = key)"
proof (induction key c u rule: descend.induct)
  case (2 key c l a r)
  note st = straddles_step [OF 2(4,5)]
  have o: "ordered (before (In_right l a # c) @ inorder r @ after (In_right l a # c))"
    "ordered (before (In_left a r # c) @ inorder l @ after (In_left a r # c))"
    using 2(4) by simp_all
  show ?case
  proof (cases key "key_of a" rule: linorder_cases)
    case less
    then show ?thesis using 2(2) [OF _ _ _ o(2) st(2)] 2(3) by simp
  next
    case equal
    then show ?thesis using 2(3,5) by auto
  next
    case greater
    then show ?thesis using 2(1) [OF _ _ _ o(1) st(1)] 2(3) by simp
  qed
qed auto

lemma insert_loop_descend:
  "shape (nodes t) (top 0 c) u \<Longrightarrow> descend key c u = (c', u') \<Longrightarrow>
   \<exists>n. insert_loop key (addr u) (top 0 c) t =
     Some (u' \<noteq> Leaf, if u' = Leaf then top 0 c' else addr u', t\<lparr>comparison_count := n\<rparr>)"
proof (induction key c u arbitrary: t rule: descend.induct)
  case (1 key c)
  then show ?case by (auto simp: insert_loop.simps intro: exI [of _ "comparison_count t"])
next
  case (2 key c l a r)
  have s: "shape (nodes (count (count t))) (top 0 (In_right l a # c)) r" "shape (nodes (count (count t))) (top 0 (In_left a r # c)) l"
    using 2(3) by (simp_all add: count_def)
  show ?case
  proof (cases "key = key_of a")
    case True
    then show ?thesis using 2(3,4) by (auto simp: insert_loop.simps [of _ "fst a"] count_def)
  next
    case F: False
    show ?thesis
    proof (cases "key > key_of a")
      case True
      then show ?thesis using 2(1) [OF F True s(1)] 2(3,4) F
        by (auto simp: insert_loop.simps [of _ "fst a"] count_def)
    next
      case False
      then show ?thesis using 2(2) [OF F False s(2)] 2(3,4) F
        by (auto simp: insert_loop.simps [of _ "fst a"] count_def)
    qed
  qed
qed

lemma find_loop_descend:
  "shape (nodes t) (top 0 c) u \<Longrightarrow> descend key c u = (c', u') \<Longrightarrow>
   \<exists>n. find_loop key (addr u) t = Some (if u' = Leaf then 0 else rec_of (value u'), t\<lparr>comparison_count := n\<rparr>)"
proof (induction key c u arbitrary: t rule: descend.induct)
  case (1 key c)
  then show ?case by (auto simp: find_loop.simps intro: exI [of _ "comparison_count t"])
next
  case (2 key c l a r)
  have s: "shape (nodes (count (count t))) (top 0 (In_right l a # c)) r" "shape (nodes (count (count t))) (top 0 (In_left a r # c)) l"
    using 2(3) by (simp_all add: count_def)
  show ?case
    using 2(1) [OF _ _ s(1)] 2(2) [OF _ _ s(2)] 2(3,4)
    by (auto simp: find_loop.simps [of _ "fst a"] count_def split: if_splits)
qed

lemma remove_loop_descend:
  "shape (nodes t) (top 0 c) u \<Longrightarrow> descend key c u = (c', u') \<Longrightarrow>
   \<exists>n. remove_loop key (addr u) t = Some (addr u', t\<lparr>comparison_count := n\<rparr>)"
proof (induction key c u arbitrary: t rule: descend.induct)
  case (1 key c)
  then show ?case by (auto simp: remove_loop.simps intro: exI [of _ "comparison_count t"])
next
  case (2 key c l a r)
  have s: "shape (nodes (count t)) (top 0 (In_right l a # c)) r" "shape (nodes (count t)) (top 0 (In_left a r # c)) l"
    using 2(3) by (simp_all add: count_def)
  show ?case
    using 2(1) [OF _ _ s(1)] 2(2) [OF _ _ s(2)] 2(3,4)
    by (auto simp: remove_loop.simps [of _ "fst a"] count_def split: if_splits intro: exI [of _ "comparison_count t"])
qed

lemma shape_node: "shape s q u \<Longrightarrow> a \<in> set (inorder u) \<Longrightarrow> fst a \<noteq> 0 \<and> (\<exists>q l r. s (fst a) = Some (node_of a q l r))"
  by (induction s q u rule: shape.induct) auto

lemma nearest_loop_descend:
  "shape (nodes t) (top 0 c) u \<Longrightarrow> ordered (before c @ inorder u @ after c) \<Longrightarrow> descend key c u = (c', u') \<Longrightarrow>
   (\<And>a. a \<in> set (before c) \<Longrightarrow> fst a \<noteq> 0 \<and> (\<exists>q l r. nodes t (fst a) = Some (node_of a q l r))) \<Longrightarrow>
   \<exists>n. nearest_loop key (addr u) (if before c = [] then 0 else fst (last (before c))) t =
     Some (if u' \<noteq> Leaf then rec_of (value u') else if before c' = [] then 0 else rec_of (last (before c')), t\<lparr>comparison_count := n\<rparr>)"
proof (induction key c u arbitrary: t rule: descend.induct)
  case (1 key c)
  show ?case
  proof (cases "before c = []")
    case True
    then show ?thesis using 1(3) by (auto simp: nearest_loop.simps intro: exI [of _ "comparison_count t"])
  next
    case False
    then obtain q l r where "fst (last (before c)) \<noteq> 0" "nodes t (fst (last (before c))) = Some (node_of (last (before c)) q l r)"
      using 1(4) [of "last (before c)"] by auto
    then show ?thesis using 1(3) False by (auto simp: nearest_loop.simps intro: exI [of _ "comparison_count t"])
  qed
next
  case (2 key c l a r)
  let ?t = "count (count t)"
  have nt: "nodes ?t = nodes t" by (simp add: count_def)
  have s: "shape (nodes ?t) (top 0 (In_right l a # c)) r" "shape (nodes ?t) (top 0 (In_left a r # c)) l"
    and o: "ordered (before (In_right l a # c) @ inorder r @ after (In_right l a # c))"
      "ordered (before (In_left a r # c) @ inorder l @ after (In_left a r # c))"
    and a: "fst a \<noteq> 0" "nodes t (fst a) = Some (node_of a (top 0 c) (addr l) (addr r))"
    using 2(3,4) by (simp_all add: nt)
  have kn: "fst b \<noteq> 0 \<and> (\<exists>q l r. nodes ?t (fst b) = Some (node_of b q l r))" if "b \<in> set (before (In_right l a # c))" for b
    using that 2(6) [of b] shape_node [of "nodes t" "fst a" l b] s(1) 2(3) a by (auto simp: nt)
  have kl: "fst b \<noteq> 0 \<and> (\<exists>q l r. nodes ?t (fst b) = Some (node_of b q l r))" if "b \<in> set (before (In_left a r # c))" for b
    using that 2(6) [of b] by (simp add: nt)
  show ?case
  proof (cases key "key_of a" rule: linorder_cases)
    case less
    then show ?thesis using 2(2) [OF _ _ s(2) o(2) _ kl] 2(5) a
      by (auto simp: nearest_loop.simps [of _ "fst a"] count_def)
  next
    case equal
    then show ?thesis using 2(5) a by (auto simp: nearest_loop.simps [of _ "fst a"] count_def)
  next
    case greater
    have "before c \<noteq> [] \<Longrightarrow> fst (last (before c)) \<noteq> 0 \<and> (\<exists>n. nodes t (fst (last (before c))) = Some n \<and> nkey n < key_of a)"
      using 2(6) [of "last (before c)"] 2(4) by (auto simp: nt)
    then show ?thesis using 2(1) [OF _ _ s(1) o(1) _ kn] 2(5) a greater
      by (cases "before c = []") (auto simp: nearest_loop.simps [of _ "fst a"] count_def Let_def)
  qed
qed

section \<open>Insertion\<close>

lemma add_leaf:
  fixes key :: int and v :: ptr
  assumes r: "rep t c Leaf" and z: "z \<noteq> 0" "nodes t z = None" and k: "straddles key c"
  defines "a \<equiv> (z, key, v)" and "t1 \<equiv> t\<lparr>nodes := (nodes t)(z \<mapsto> node_of (z, key, v) (top 0 c) 0 0)\<rparr>"
  shows "\<exists>t'. (if top 0 c = 0 then Some (t1\<lparr>root := z\<rparr>)
     else do { np \<leftarrow> deref (top 0 c) t1; nz \<leftarrow> deref z t1;
       if nkey np < nkey nz then assign (top 0 c) (nright_update (\<lambda>_. z)) t1 else assign (top 0 c) (nleft_update (\<lambda>_. z)) t1 }) = Some t' \<and>
     rep t' c (Node Leaf a Leaf) \<and> same_counts t t'"
proof -
  let ?s = "(nodes t)(z \<mapsto> node_of a (top 0 c) 0 0)"
  let ?t = "t\<lparr>nodes := set_child c z ?s, root := path_base c z\<rparr>"
  have "z \<notin> dom (nodes t)" using z(2) by (simp add: domIff)
  then have z': "z \<notin> ids (before c @ after c)" using r by (simp add: rep_def)
  have d: "dist (before c @ after c)" and p: "pshape (nodes t) 0 c 0" using r by (simp_all add: rep_def)
  have "pshape ?s 0 c 0" by (rule pshape_cong [OF p]) (use z' in auto)
  then have ps: "pshape (set_child c z ?s) 0 c z" by (rule pshape_set_child [OF _ d])
  have "set_child c z ?s z = ?s z" by (rule set_child_other [OF z'])
  then have rep: "rep ?t c (Node Leaf a Leaf)"
    using r z(1) z' ps by (auto simp: rep_def a_def)
  have "(if top 0 c = 0 then Some (t1\<lparr>root := z\<rparr>)
     else do { np \<leftarrow> deref (top 0 c) t1; nz \<leftarrow> deref z t1;
       if nkey np < nkey nz then assign (top 0 c) (nright_update (\<lambda>_. z)) t1 else assign (top 0 c) (nleft_update (\<lambda>_. z)) t1 }) = Some ?t"
  proof (cases c)
    case Nil
    then show ?thesis by (simp add: t1_def a_def)
  next
    case (Cons e c')
    then show ?thesis using r z z' k by (cases e) (auto simp: rep_def t1_def a_def assign_eq straddles_def key_of_def)
  qed
  then show ?thesis using rep by (auto simp: same_counts_def)
qed

section \<open>Removal\<close>

lemma dom_set_parent: "b \<noteq> 0 \<Longrightarrow> b \<in> dom s \<Longrightarrow> dom (set_parent b q s) = dom s" "dom (set_parent 0 q s) = dom s"
  by (auto simp: set_parent_def)

lemma shape_dom: "shape s q u \<Longrightarrow> ids (inorder u) \<subseteq> dom s"
  by (induction s q u rule: shape.induct) auto

lemma shape_set_parent:
  assumes "shape s q u" "dist (inorder u)"
  shows "shape (set_parent (addr u) q' s) q' u"
  by (rule shape_reparent [OF assms(1) _ _ assms(2)])
    (use assms(1) in \<open>auto simp: set_parent_def addr_nonzero\<close>)

lemma replace_ok:
  assumes x: "x \<noteq> 0" "nodes t x = Some n" "nparent n = top 0 c" "x \<notin> ids (before c @ after c)"
    and p: "pshape (nodes t) 0 c x" "root t = path_base c x"
    and u: "shape (nodes t) q u" "x \<notin> ids (inorder u)" "dist (before c @ inorder u @ after c)"
  defines "s' \<equiv> set_parent (addr u) (top 0 c) (set_child c (addr u) (nodes t))"
  shows "replace x (addr u) t = Some (t\<lparr>nodes := s', root := path_base c (addr u)\<rparr>)" "shape s' 0 (plug c u)" "dom s' = dom (nodes t)"
    "\<And>b. b \<notin> ids (before c @ after c) \<Longrightarrow> b \<noteq> addr u \<Longrightarrow> s' b = nodes t b"
proof -
  let ?s = "set_child c (addr u) (nodes t)"
  note apart = u(3) [simplified, unfolded disjnt_iff, simplified]
  have same: "?s b = nodes t b" if "b \<in> ids (inorder u)" for b
    by (rule set_child_other) (use that apart in auto)
  have u1: "shape ?s q u" by (rule shape_cong [OF u(1) same])
  have "dist (before c @ after c)" using u(3) by (auto simp: disjnt_iff)
  then have p1: "pshape ?s 0 c (addr u)" by (rule pshape_set_child [OF p(1)])
  have ua: "b \<noteq> addr u" if "b \<in> ids (before c @ after c)" "addr u \<noteq> 0" for b
    using that apart addr_in [of u] by (cases u) auto
  have "shape s' (top 0 c) u" unfolding s'_def by (rule shape_set_parent [OF u1]) (use apart in simp)
  moreover have "pshape s' 0 c (addr u)"
    by (rule pshape_cong [OF p1]) (use ua in \<open>auto simp: s'_def set_parent_def\<close>)
  ultimately show "shape s' 0 (plug c u)" by (simp add: shape_plug)
  have ux: "addr u \<noteq> x" if "u \<noteq> Leaf" using addr_in [OF that] u(2) by auto
  have uin: "\<exists>m. ?s (addr u) = Some m" if "addr u \<noteq> 0" using u1 that by (cases u) auto
  have "?s x = Some n" using set_child_other [OF x(4)] x(2) by simp
  then show "replace x (addr u) t = Some (t\<lparr>nodes := s', root := path_base c (addr u)\<rparr>)"
    using uin x(1,3) by (auto simp: replace_def relink_ok [OF x p] s'_def set_parent_def assign_eq)
  have "addr u \<in> dom ?s" if "addr u \<noteq> 0" using uin [OF that] by (metis domI)
  then have "dom s' = dom ?s"
    using dom_set_parent(1) [of "addr u" ?s "top 0 c"] by (cases "addr u = 0") (simp_all add: s'_def dom_set_parent(2))
  then show "dom s' = dom (nodes t)" by simp
  show "s' b = nodes t b" if "b \<notin> ids (before c @ after c)" "b \<noteq> addr u" for b
    using set_child_other [OF that(1)] that(2) by (simp add: s'_def set_parent_def)
qed

lemma plug_append: "plug (c @ d) u = plug d (plug c u)"
  by (induction c u rule: plug.induct) simp_all

lemma before_append: "before (c @ d) = before d @ before c" "after (c @ d) = after c @ after d"
  by (induction c rule: before.induct) simp_all

lemma minimum_ok:
  "shape (nodes t) q u \<Longrightarrow> u \<noteq> Leaf \<Longrightarrow>
   \<exists>c y r. u = plug c (Node Leaf y r) \<and> before c = [] \<and> subtree_minimum (addr u) t = Some (fst y)"
proof (induction u arbitrary: q)
  case (Node l a r)
  show ?case
  proof (cases "l = Leaf")
    case True
    then show ?thesis using Node(3) by (intro exI [of _ "[]"] exI [of _ a] exI [of _ r]) (simp add: subtree_minimum.simps)
  next
    case False
    have "shape (nodes t) (fst a) l" using Node(3) by simp
    from Node(1) [OF this False] obtain c y r' where
      c: "l = plug c (Node Leaf y r')" "before c = []" "subtree_minimum (addr l) t = Some (fst y)" by blast
    have "addr l \<noteq> 0" using False addr_nonzero Node(3) by auto
    then have "subtree_minimum (fst a) t = Some (fst y)"
      using Node(3) c(3) by (subst subtree_minimum.simps) simp
    then show ?thesis using c
      by (intro exI [of _ "c @ [In_left a r]"] exI [of _ y] exI [of _ r']) (simp add: plug_append before_append)
  qed
qed simp

text \<open>The successor \<open>y\<close> takes the place of the root \<open>z\<close> and its left subtree.\<close>

lemma take_place:
  assumes z: "fst z \<noteq> 0" "nodes t (fst z) = Some (node_of z 0 (addr L) w)" "root t = fst z"
    and y: "fst y \<noteq> 0" "nodes t (fst y) = Some (node_of y q 0 (addr R))"
    and L: "shape (nodes t) (fst z) L" "L \<noteq> Leaf" and R: "shape (nodes t) (fst y) R"
    and d: "dist (z # y # inorder L @ inorder R)"
  shows "\<exists>t'. do { t \<leftarrow> replace (fst z) (fst y) t;
        nz \<leftarrow> deref (fst z) t;
        t \<leftarrow> assign (fst y) (nleft_update (\<lambda>_. nleft nz)) t;
        ny \<leftarrow> deref (fst y) t;
        assign (nleft ny) (nparent_update (\<lambda>_. fst y)) t } = Some t' \<and>
      same_counts t t' \<and> root t' = fst y \<and> shape (nodes t') 0 (Node L y R) \<and>
      nodes t' (fst z) = nodes t (fst z) \<and> dom (nodes t') = dom (nodes t)"
proof -
  let ?s = "(nodes t)(fst y \<mapsto> node_of y 0 (addr L) (addr R))"
  let ?t = "t\<lparr>nodes := set_parent (addr L) (fst y) ?s, root := fst y\<rparr>"
  note apart = d [simplified, unfolded disjnt_iff, simplified]
  have l: "addr L \<noteq> 0" "addr L \<in> ids (inorder L)" using addr_nonzero [OF L(1)] L(2) addr_in by auto
  then have ne: "addr L \<noteq> fst z" "addr L \<noteq> fst y" "addr L \<notin> ids (inorder R)" using apart by auto
  obtain m where m: "nodes t (addr L) = Some m" using shape_dom [OF L(1)] l(2) by auto
  have "shape ?s (fst z) L" by (rule shape_cong [OF L(1)]) (use apart in auto)
  then have "shape (set_parent (addr L) (fst y) ?s) (fst y) L" by (rule shape_set_parent) (use apart in simp)
  moreover have "shape (set_parent (addr L) (fst y) ?s) (fst y) R"
    by (rule shape_cong [OF R]) (use apart ne in \<open>auto simp: set_parent_def\<close>)
  ultimately have sh: "shape (nodes ?t) 0 (Node L y R)" using y(1) ne by (auto simp: set_parent_def)
  have "do { t \<leftarrow> replace (fst z) (fst y) t;
        nz \<leftarrow> deref (fst z) t;
        t \<leftarrow> assign (fst y) (nleft_update (\<lambda>_. nleft nz)) t;
        ny \<leftarrow> deref (fst y) t;
        assign (nleft ny) (nparent_update (\<lambda>_. fst y)) t } = Some ?t"
    using z y l ne m apart by (simp add: replace_def relink_def assign_eq set_parent_def)
  then show ?thesis using sh ne apart y(2) m
    by (intro exI [of _ ?t]) (auto simp: same_counts_def set_parent_def)
qed

text \<open>The node \<open>z\<close> has been splayed to the root; what remains is the tree of the other nodes.\<close>

definition unlink :: "ptr \<Rightarrow> stree \<Rightarrow> stree option" where
  "unlink z t = do {
     nz \<leftarrow> deref z t;
     if nleft nz = 0 then replace z (nright nz) t
     else if nright nz = 0 then replace z (nleft nz) t
     else do {
       y \<leftarrow> subtree_minimum (nright nz) t;
       ny \<leftarrow> deref y t;
       t \<leftarrow> (if nparent ny \<noteq> z then do {
                t \<leftarrow> replace y (nright ny) t;
                nz \<leftarrow> deref z t;
                t \<leftarrow> assign y (nright_update (\<lambda>_. nright nz)) t;
                ny \<leftarrow> deref y t;
                assign (nright ny) (nparent_update (\<lambda>_. y)) t
              } else Some t);
       t \<leftarrow> replace z y t;
       nz \<leftarrow> deref z t;
       t \<leftarrow> assign y (nleft_update (\<lambda>_. nleft nz)) t;
       ny \<leftarrow> deref y t;
       assign (nleft ny) (nparent_update (\<lambda>_. y)) t
     }
   }"

lemma path_base_snoc: "path_base (c @ [In_right l a]) h = fst a"
  by (induction c h rule: path_base.induct) simp_all

lemma pull_out:
  assumes r: "rep t [] (Node L z (plug c (Node Leaf y r')))" and c: "before c = []"
  shows "\<exists>t1 q w. (if top (fst z) c \<noteq> fst z then do {
         t \<leftarrow> replace (fst y) (addr r') t;
         nz \<leftarrow> deref (fst z) t;
         t \<leftarrow> assign (fst y) (nright_update (\<lambda>_. nright nz)) t;
         ny \<leftarrow> deref (fst y) t;
         assign (nright ny) (nparent_update (\<lambda>_. fst y)) t
       } else Some t) = Some t1 \<and> same_counts t t1 \<and> root t1 = fst z \<and> nodes t1 (fst z) = Some (node_of z 0 (addr L) w) \<and>
     nodes t1 (fst y) = Some (node_of y q 0 (addr (plug c r'))) \<and> shape (nodes t1) (fst z) L \<and>
     shape (nodes t1) (fst y) (plug c r') \<and> dom (nodes t1) = dom (nodes t)"
proof -
  let ?d = "c @ [In_right L z]" and ?R = "plug c r'"
  have "plug ?d (Node Leaf y r') = plug [] (Node L z (plug c (Node Leaf y r')))" by (simp add: plug_append)
  then have rd: "rep t ?d (Node Leaf y r')" by (rule rep_move [OF r, OF sym])
  have td: "top 0 ?d = top (fst z) c" by (cases c rule: before.cases) simp_all
  note y = rep_root_parent [OF rd, unfolded td]
  have ir: "inorder ?R = inorder r' @ after c" using c by (simp add: inorder_plug)
  have d: "dist (inorder L @ z # y # inorder r' @ after c)" using r c by (simp add: rep_def inorder_plug)
  note apart = d [simplified, unfolded disjnt_iff, simplified]
  have sh: "shape (nodes t) (fst y) r'" "shape (nodes t) (fst z) L" "pshape (nodes t) 0 ?d (fst y)" "root t = path_base ?d (fst y)"
    using rd r by (auto simp: rep_def)
  have z: "fst z \<noteq> 0" "nodes t (fst z) = Some (node_of z 0 (addr L) (addr (plug c (Node Leaf y r'))))" "root t = fst z"
    using r by (simp_all add: rep_def)
  show ?thesis
  proof (cases c)
    case Nil
    then show ?thesis using z y sh by (auto simp: same_counts_def)
  next
    case (Cons e c')
    have tc: "top (fst z) c \<in> ids (before c @ after c)" by (rule top_in) (simp add: Cons)
    then have tz: "top (fst z) c \<noteq> fst z" using apart c by auto
    have RL: "?R \<noteq> Leaf" using tc ir c by (cases "?R") auto
    have path: "fst y \<notin> ids (before ?d @ after ?d)" "fst y \<notin> ids (inorder r')" "dist (before ?d @ inorder r' @ after ?d)"
      using apart c by (auto simp: before_append disjnt_iff)
    define s1 where "s1 = set_parent (addr r') (top 0 ?d) (set_child ?d (addr r') (nodes t))"
    note rp = replace_ok [OF conjunct1 [OF y] conjunct2 [OF y] _ path(1) sh(3,4,1) path(2,3), folded s1_def, unfolded td node_of_simps, OF refl]
    have "shape s1 0 (Node L z ?R)" using rp(2) by (simp add: plug_append)
    then have s1: "s1 (fst z) = Some (node_of z 0 (addr L) (addr ?R))" "shape s1 (fst z) L" "shape s1 (fst z) ?R" by simp_all
    define q where "q = top (fst z) c"
    let ?s2 = "s1(fst y \<mapsto> node_of y q 0 (addr ?R))"
    let ?s3 = "set_parent (addr ?R) (fst y) ?s2"
    have R: "addr ?R \<noteq> 0" "addr ?R \<in> ids (inorder ?R)" using addr_nonzero [OF s1(3)] RL addr_in by auto
    then have ne: "addr ?R \<noteq> fst y" "addr ?R \<noteq> fst z" "addr ?R \<notin> ids (inorder L)" "fst y \<notin> ids (inorder ?R)" "dist (inorder ?R)"
      using apart unfolding ir by (auto simp: disjnt_iff)
    have "addr r' \<noteq> fst y" using addr_in [of r'] y apart by (cases "r' = Leaf") auto
    then have sy: "s1 (fst y) = Some (node_of y q 0 (addr r'))" using rp(4) [OF path(1)] y by (simp add: q_def)
    have "shape ?s2 (fst z) ?R" by (rule shape_cong [OF s1(3)]) (use ne in auto)
    then have s3R: "shape ?s3 (fst y) ?R" by (rule shape_set_parent [OF _ ne(5)])
    have s3L: "shape ?s3 (fst z) L" by (rule shape_cong [OF s1(2)]) (use apart ne in \<open>auto simp: set_parent_def\<close>)
    obtain m where m: "s1 (addr ?R) = Some m" using shape_dom [OF s1(3)] R(2) by auto
    have dm: "dom ?s3 = dom s1" using sy m by (auto simp: set_parent_def)
    have "do {
         t \<leftarrow> replace (fst y) (addr r') t;
         nz \<leftarrow> deref (fst z) t;
         t \<leftarrow> assign (fst y) (nright_update (\<lambda>_. nright nz)) t;
         ny \<leftarrow> deref (fst y) t;
         assign (nright ny) (nparent_update (\<lambda>_. fst y)) t
       } = Some (t\<lparr>nodes := ?s3, root := fst z\<rparr>)"
      using rp(1) y z(1) s1(1) sy R ne m apart by (simp add: path_base_snoc assign_eq set_parent_def)
    then show ?thesis using tz s3R s3L dm rp(3) s1(1) sy ne apart
      by (intro exI [of _ "t\<lparr>nodes := ?s3, root := fst z\<rparr>"] exI [of _ q] exI [of _ "addr ?R"]) (auto simp: same_counts_def set_parent_def)
  qed
qed

lemma unlink_ok:
  assumes r: "rep t [] (Node L z R)"
  shows "\<exists>t' u. unlink (fst z) t = Some t' \<and> same_counts t t' \<and> inorder u = inorder L @ inorder R \<and> root t' = addr u \<and>
    shape (nodes t') 0 u \<and> dom (nodes t') = dom (nodes t) \<and> nodes t' (fst z) \<noteq> None \<and> nrecord (the (nodes t' (fst z))) = rec_of z"
proof -
  have z: "fst z \<noteq> 0" "nodes t (fst z) = Some (node_of z 0 (addr L) (addr R))" "root t = fst z"
    and L: "shape (nodes t) (fst z) L" and R: "shape (nodes t) (fst z) R" and d: "dist (inorder L @ z # inorder R)"
    using r by (auto simp: rep_def)
  note apart = d [simplified, unfolded disjnt_iff, simplified]
  have one: "\<exists>t'. replace (fst z) (addr u) t = Some t' \<and> same_counts t t' \<and> root t' = addr u \<and> shape (nodes t') 0 u \<and>
      dom (nodes t') = dom (nodes t) \<and> nodes t' (fst z) = nodes t (fst z)"
    if u: "shape (nodes t) (fst z) u" "fst z \<notin> ids (inorder u)" "dist (inorder u)" for u
  proof -
    have "fst z \<noteq> addr u" using u(2) addr_in [of u] z(1) by (cases "u = Leaf") auto
    then show ?thesis
      using replace_ok [of "fst z" t _ "[]" "fst z" u, OF z(1,2)] z u by (auto simp: same_counts_def)
  qed
  show ?thesis
  proof (cases "L = Leaf \<or> R = Leaf")
    case True
    then show ?thesis
    proof
      assume "L = Leaf"
      then show ?thesis using one [OF R] apart z by (fastforce simp: unlink_def)
    next
      assume "R = Leaf"
      then show ?thesis using one [OF L] apart z addr_nonzero [OF L] by (cases "L = Leaf") (fastforce simp: unlink_def)+
    qed
  next
    case False
    then have LR: "L \<noteq> Leaf" "R \<noteq> Leaf" "addr L \<noteq> 0" "addr R \<noteq> 0" using addr_nonzero [OF L] addr_nonzero [OF R] by auto
    obtain c y r' where c: "R = plug c (Node Leaf y r')" "before c = []" "subtree_minimum (addr R) t = Some (fst y)"
      using minimum_ok [OF R LR(2)] by blast
    have r': "rep t [] (Node L z (plug c (Node Leaf y r')))" using r c(1) by simp
    note po = pull_out [OF r' c(2)]
    obtain t1 q w where t1: "(if top (fst z) c \<noteq> fst z then do {
         t \<leftarrow> replace (fst y) (addr r') t;
         nz \<leftarrow> deref (fst z) t;
         t \<leftarrow> assign (fst y) (nright_update (\<lambda>_. nright nz)) t;
         ny \<leftarrow> deref (fst y) t;
         assign (nright ny) (nparent_update (\<lambda>_. fst y)) t
       } else Some t) = Some t1" "same_counts t t1" "root t1 = fst z" "nodes t1 (fst z) = Some (node_of z 0 (addr L) w)"
      "nodes t1 (fst y) = Some (node_of y q 0 (addr (plug c r')))" "shape (nodes t1) (fst z) L"
      "shape (nodes t1) (fst y) (plug c r')" "dom (nodes t1) = dom (nodes t)"
      using po by blast
    have "plug (c @ [In_right L z]) (Node Leaf y r') = plug [] (Node L z (plug c (Node Leaf y r')))" by (simp add: plug_append)
    then have rd: "rep t (c @ [In_right L z]) (Node Leaf y r')" by (rule rep_move [OF r', OF sym])
    have "top 0 (c @ [In_right L z]) = top (fst z) c" by (cases c rule: before.cases) simp_all
    then have y: "fst y \<noteq> 0" "nodes t (fst y) = Some (node_of y (top (fst z) c) 0 (addr r'))"
      using rep_root_parent [OF rd] by simp_all
    have io: "inorder R = y # inorder (plug c r')" using c(1,2) by (simp add: inorder_plug)
    have "dist (z # y # inorder L @ inorder (plug c r'))" using d io by (auto simp: disjnt_iff)
    from take_place [OF z(1) t1(4,3) y(1) t1(5,6) LR(1) t1(7) this] obtain t2 where
      t2: "do { t \<leftarrow> replace (fst z) (fst y) t1;
        nz \<leftarrow> deref (fst z) t;
        t \<leftarrow> assign (fst y) (nleft_update (\<lambda>_. nleft nz)) t;
        ny \<leftarrow> deref (fst y) t;
        assign (nleft ny) (nparent_update (\<lambda>_. fst y)) t } = Some t2" "same_counts t1 t2" "root t2 = fst y"
      "shape (nodes t2) 0 (Node L y (plug c r'))" "nodes t2 (fst z) = nodes t1 (fst z)" "dom (nodes t2) = dom (nodes t1)" by blast
    have "unlink (fst z) t = Some t2"
    proof -
      have "deref (fst z) t = Some (node_of z 0 (addr L) (addr R))" "deref (fst y) t = Some (node_of y (top (fst z) c) 0 (addr r'))"
        using z y by simp_all
      then show ?thesis
        by (simp only: unlink_def c(3) Option.bind.bind_lunit node_of_simps LR if_False t1(1) t2(1))
    qed
    then show ?thesis using t1 t2 io
      by (intro exI [of _ t2] exI [of _ "Node L y (plug c r')"]) (auto simp: same_counts_def)
  qed
qed

section \<open>The tree as a map\<close>

definition content :: "item list \<Rightarrow> int \<rightharpoonup> ptr" where
  "content xs = map_of (map snd xs)"

definition holds :: "stree \<Rightarrow> (int \<rightharpoonup> ptr) \<Rightarrow> bool" where
  "holds t m \<longleftrightarrow> (\<exists>u. rep t [] u \<and> ordered (inorder u) \<and> node_count t = length (inorder u) \<and> m = content (inorder u))"

lemma content_simps [simp]:
  "content [] = Map.empty" "content (x # xs) = (content xs)(key_of x \<mapsto> rec_of x)" "content (xs @ ys) = content ys ++ content xs"
  by (simp_all add: content_def key_of_def rec_of_def map_add_def fun_eq_iff split: option.splits)

lemma content_None: "content xs k = None \<longleftrightarrow> (\<forall>a \<in> set xs. key_of a \<noteq> k)"
  by (induction xs) (auto simp: content_def [of "[]"])

lemma dom_content: "dom (content xs) = key_of ` set xs"
proof (rule set_eqI)
  show "k \<in> dom (content xs) \<longleftrightarrow> k \<in> key_of ` set xs" for k
    unfolding domIff content_None by auto
qed

lemma straddles_None: "straddles key c \<Longrightarrow> content (before c) key = None \<and> content (after c) key = None"
  by (auto simp: straddles_def content_None)

lemma straddles_content:
  assumes "straddles (key_of a) c"
  shows "content (before c @ a # after c) = (content (before c @ after c))(key_of a \<mapsto> rec_of a)"
    "content (before c @ after c) (key_of a) = None"
  using straddles_None [OF assms] by (auto simp: fun_eq_iff map_add_def split: option.splits)

text \<open>The record of the largest key that is not above the given one.\<close>

definition nearest :: "(int \<rightharpoonup> ptr) \<Rightarrow> int \<Rightarrow> ptr" where
  "nearest m key = (if \<exists>k \<in> dom m. k \<le> key then the (m (Max {k \<in> dom m. k \<le> key})) else 0)"

lemma nearest_eq: "m k = Some r \<Longrightarrow> k \<le> key \<Longrightarrow> (\<And>k'. k' \<in> dom m \<Longrightarrow> k' \<le> key \<Longrightarrow> k' \<le> k) \<Longrightarrow> finite (dom m) \<Longrightarrow> nearest m key = r"
proof -
  assume k: "m k = Some r" "k \<le> key" "\<And>k'. k' \<in> dom m \<Longrightarrow> k' \<le> key \<Longrightarrow> k' \<le> k" "finite (dom m)"
  have "Max {k \<in> dom m. k \<le> key} = k" by (rule Max_eqI) (use k in auto)
  moreover have "\<exists>k \<in> dom m. k \<le> key" using k by auto
  ultimately show ?thesis using k(1) by (simp add: nearest_def)
qed

definition found_rec :: "ptr option \<Rightarrow> ptr" where
  "found_rec r = (case r of None \<Rightarrow> 0 | Some r \<Rightarrow> r)"

text \<open>The way down to a key, seen from the whole tree.\<close>

lemma descend_found:
  assumes h: "rep t [] u" "ordered (inorder u)"
  obtains c u' where "descend key [] u = (c, u')" "rep t c u'" "inorder u = before c @ inorder u' @ after c" "straddles key c"
    "u' = Leaf \<Longrightarrow> content (inorder u) key = None" "u' \<noteq> Leaf \<Longrightarrow> key_of (value u') = key"
    "u' \<noteq> Leaf \<Longrightarrow> content (inorder u) key = Some (rec_of (value u'))"
proof -
  obtain c u' where d: "descend key [] u = (c, u')" by fastforce
  have p: "plug c u' = u" using plug_descend [OF d] by simp
  have io: "inorder u = before c @ inorder u' @ after c" by (simp add: inorder_plug flip: p)
  have ar: "straddles key c" "u' \<noteq> Leaf \<Longrightarrow> key_of (value u') = key"
    using descend_straddles [OF d] h(2) by (auto simp: straddles_def)
  have no: "content (inorder u) key = None" if "u' = Leaf"
    using straddles_None [OF ar(1)] that by (simp add: io map_add_def)
  have so: "content (inorder u) key = Some (rec_of (value u'))" if u': "u' \<noteq> Leaf"
  proof -
    obtain l a r where a: "u' = Node l a r" using u' by (cases u') auto
    have "\<forall>b \<in> set (inorder r). key < key_of b" "\<forall>b \<in> set (inorder l). key_of b < key"
      using h(2) ar(2) by (simp_all add: io a)
    then have "content (inorder r) key = None" "content (inorder l) key = None" by (auto simp: content_None)
    then show ?thesis using straddles_None [OF ar(1)] ar(2) by (auto simp: io a map_add_def)
  qed
  show thesis by (rule that [OF d _ io ar(1) no ar(2) so]) (use rep_move [OF h(1)] p in auto)
qed

text \<open>Each operation implements the operation on the map.\<close>

definition fresh_malloc :: "(stree \<Rightarrow> ptr) \<Rightarrow> bool" where
  "fresh_malloc malloc \<longleftrightarrow> (\<forall>t. finite (dom (nodes t)) \<longrightarrow> malloc t \<noteq> 0 \<and> nodes t (malloc t) = None)"

lemma rep_count: "rep (t\<lparr>comparison_count := n\<rparr>) c u = rep t c u" "rep (t\<lparr>node_count := n\<rparr>) c u = rep t c u"
  by (simp_all add: rep_def)

lemma rep_finite: "rep t c u \<Longrightarrow> finite (dom (nodes t))"
  by (simp add: rep_def ids_def)

lemma tree_insert_holds:
  assumes h: "holds t m" and mal: "fresh_malloc malloc"
  shows "\<exists>t'. tree_insert malloc key r t = Some (Inserted (m key = None), t') \<and> holds t' (if m key = None then m(key \<mapsto> r) else m)"
proof -
  obtain u where u: "rep t [] u" "ordered (inorder u)" "node_count t = length (inorder u)" "m = content (inorder u)"
    using h by (auto simp: holds_def)
  obtain c u' where d: "descend key [] u = (c, u')" "rep t c u'" "inorder u = before c @ inorder u' @ after c" "straddles key c"
    "u' = Leaf \<Longrightarrow> m key = None" "u' \<noteq> Leaf \<Longrightarrow> key_of (value u') = key" "u' \<noteq> Leaf \<Longrightarrow> m key = Some (rec_of (value u'))"
    using descend_found [OF u(1,2), folded u(4)] by metis
  have rt: "root t = addr u" "shape (nodes t) (top 0 []) u" using u(1) by (simp_all add: rep_def)
  obtain n where n: "insert_loop key (addr u) 0 t = Some (u' \<noteq> Leaf, if u' = Leaf then top 0 c else addr u', t\<lparr>comparison_count := n\<rparr>)"
    using insert_loop_descend [OF rt(2) d(1)] by auto
  let ?t = "t\<lparr>comparison_count := n\<rparr>"
  show ?thesis
  proof (cases "u' = Leaf")
    case False
    then show ?thesis using n d(7) u rt(1)
      by (auto simp: tree_insert_def holds_def rep_count)
  next
    case True
    let ?z = "malloc ?t"
    have z: "?z \<noteq> 0" "nodes ?t ?z = None" using mal [unfolded fresh_malloc_def, rule_format, of ?t] rep_finite [OF u(1)] by simp_all
    have r1: "rep ?t c Leaf" using d(2) True by (simp add: rep_count)
    obtain t1 where t1: "(let t1 = ?t\<lparr>nodes := (nodes ?t)(?z \<mapsto> node_of (?z, key, r) (top 0 c) 0 0)\<rparr> in
       if top 0 c = 0 then Some (t1\<lparr>root := ?z\<rparr>)
       else do { np \<leftarrow> deref (top 0 c) t1; nz \<leftarrow> deref ?z t1;
         if nkey np < nkey nz then assign (top 0 c) (nright_update (\<lambda>_. ?z)) t1 else assign (top 0 c) (nleft_update (\<lambda>_. ?z)) t1 }) = Some t1"
      "rep t1 c (Node Leaf (?z, key, r) Leaf)" "same_counts ?t t1"
      using add_leaf [OF r1 z d(4), of r] unfolding Let_def by blast
    obtain t2 where t2: "splay ?z t1 = Some t2" "rep t2 [] (splay_up c Leaf (?z, key, r) Leaf)" "same_counts t1 t2"
      using splay_ok [OF t1(2)] by auto
    let ?t3 = "t2\<lparr>node_count := node_count t2 + 1\<rparr>"
    have "tree_insert malloc key r t = Some (Inserted True, ?t3)"
      using n True rt(1) z(1) t1(1) t2(1) by (simp add: tree_insert_def Let_def node_of_def)
    moreover have "holds ?t3 (m(key \<mapsto> r))"
    proof -
      let ?u = "splay_up c Leaf (?z, key, r) Leaf"
      have io: "inorder ?u = before c @ (?z, key, r) # after c" by (simp add: inorder_splay_up)
      have "ordered (inorder ?u)" using u(2) d(3,4) True by (fastforce simp: io straddles_def key_of_def)
      moreover have "content (inorder ?u) = m(key \<mapsto> r)"
        using straddles_content(1) [of "(?z, key, r)" c] d(3,4) True u(4) by (simp add: io key_of_def rec_of_def del: content_simps(3))
      moreover have "node_count ?t3 = length (inorder ?u)" using u(3) d(3) True t1(3) t2(3) by (simp add: io same_counts_def)
      ultimately show ?thesis using t2(2) by (auto simp: holds_def rep_count)
    qed
    ultimately show ?thesis using d(5) True by auto
  qed
qed

lemma tree_find_holds:
  assumes h: "holds t m"
  shows "\<exists>t'. tree_find key t = Some (found_rec (m key), t') \<and> holds t' m"
proof -
  obtain u where u: "rep t [] u" "ordered (inorder u)" "node_count t = length (inorder u)" "m = content (inorder u)"
    using h by (auto simp: holds_def)
  obtain c u' where d: "descend key [] u = (c, u')" "u' = Leaf \<Longrightarrow> m key = None" "u' \<noteq> Leaf \<Longrightarrow> m key = Some (rec_of (value u'))"
    using descend_found [OF u(1,2), folded u(4)] by metis
  have rt: "root t = addr u" "shape (nodes t) (top 0 []) u" using u(1) by (simp_all add: rep_def)
  obtain n where "find_loop key (addr u) t = Some (if u' = Leaf then 0 else rec_of (value u'), t\<lparr>comparison_count := n\<rparr>)"
    using find_loop_descend [OF rt(2) d(1)] by auto
  moreover have "holds (t\<lparr>comparison_count := n\<rparr>) m" using u by (auto simp: holds_def rep_count)
  ultimately show ?thesis using d(2,3) rt(1) by (auto simp: tree_find_def found_rec_def)
qed

lemma tree_find_nearest_holds:
  assumes h: "holds t m"
  shows "\<exists>t'. tree_find_nearest key t = Some (nearest m key, t') \<and> holds t' m"
proof -
  obtain u where u: "rep t [] u" "ordered (inorder u)" "node_count t = length (inorder u)" "m = content (inorder u)"
    using h by (auto simp: holds_def)
  obtain c u' where d: "descend key [] u = (c, u')" "rep t c u'" "inorder u = before c @ inorder u' @ after c" "straddles key c"
    "u' = Leaf \<Longrightarrow> m key = None" "u' \<noteq> Leaf \<Longrightarrow> m key = Some (rec_of (value u'))"
    using descend_found [OF u(1,2), folded u(4)] by metis
  have rt: "root t = addr u" "shape (nodes t) (top 0 []) u" using u(1) by (simp_all add: rep_def)
  have "\<exists>n. nearest_loop key (addr u) (if before [] = [] then 0 else fst (last (before []))) t =
     Some (if u' \<noteq> Leaf then rec_of (value u') else if before c = [] then 0 else rec_of (last (before c)), t\<lparr>comparison_count := n\<rparr>)"
    by (rule nearest_loop_descend [OF rt(2) _ d(1)]) (use u(2) in auto)
  then obtain n where n: "nearest_loop key (addr u) 0 t =
     Some (if u' \<noteq> Leaf then rec_of (value u') else if before c = [] then 0 else rec_of (last (before c)), t\<lparr>comparison_count := n\<rparr>)"
    by auto
  have fin: "finite (dom m)" by (simp add: u(4) dom_content)
  have "(if u' \<noteq> Leaf then rec_of (value u') else if before c = [] then 0 else rec_of (last (before c))) = nearest m key"
  proof (cases "u' = Leaf")
    case False
    then show ?thesis using nearest_eq [OF d(6) _ _ fin, of key] by simp
  next
    case True
    have dm: "dom m = key_of ` (set (before c) \<union> set (after c))" using d(3) True by (simp add: u(4) dom_content image_Un)
    show ?thesis
    proof (cases "before c = []")
      case True
      then have "\<not> (\<exists>k \<in> dom m. k \<le> key)" using d(4) by (auto simp: dm straddles_def)
      then show ?thesis using True \<open>u' = Leaf\<close> by (simp add: nearest_def)
    next
      case False
      define a where "a = last (before c)"
      obtain xs where xs: "before c = xs @ [a]" using False by (metis a_def append_butlast_last_id)
      have "content xs (key_of a) = None"
        using u(2) d(3) True xs by (auto simp: content_None)
      then have "m (key_of a) = Some (rec_of a)"
        using d(3) True xs by (auto simp: u(4) map_add_def split: option.splits)
      moreover have "key_of a \<le> key" using d(4) xs by (auto simp: straddles_def)
      moreover have "k' \<le> key_of a" if "k' \<in> dom m" "k' \<le> key" for k'
        using that u(2) d(3,4) True xs by (auto simp: dm straddles_def)
      ultimately have "nearest m key = rec_of a" using fin by (rule nearest_eq)
      then show ?thesis using False \<open>u' = Leaf\<close> by (simp add: a_def)
    qed
  qed
  moreover have "holds (t\<lparr>comparison_count := n\<rparr>) m" using u by (auto simp: holds_def rep_count)
  ultimately show ?thesis using n rt(1) by (auto simp: tree_find_nearest_def)
qed

lemma tree_remove_eq:
  "tree_remove key t = do {
     (z, t) \<leftarrow> remove_loop key (root t) t;
     if z = 0 then Some (0, t)
     else do {
       t \<leftarrow> splay z t;
       t \<leftarrow> unlink z t;
       nz \<leftarrow> deref z t;
       Some (nrecord nz, t\<lparr>node_count := node_count t - 1, nodes := (nodes t)(z := None)\<rparr>)
     }
   }"
  unfolding tree_remove_def unlink_def by (simp cong: if_cong)

lemma tree_remove_holds:
  assumes h: "holds t m"
  shows "\<exists>t'. tree_remove key t = Some (found_rec (m key), t') \<and> holds t' (m(key := None))"
proof -
  obtain u where u: "rep t [] u" "ordered (inorder u)" "node_count t = length (inorder u)" "m = content (inorder u)"
    using h by (auto simp: holds_def)
  obtain c u' where d: "descend key [] u = (c, u')" "rep t c u'" "inorder u = before c @ inorder u' @ after c" "straddles key c"
    "u' = Leaf \<Longrightarrow> m key = None" "u' \<noteq> Leaf \<Longrightarrow> key_of (value u') = key" "u' \<noteq> Leaf \<Longrightarrow> m key = Some (rec_of (value u'))"
    using descend_found [OF u(1,2), folded u(4)] by metis
  have rt: "root t = addr u" "shape (nodes t) (top 0 []) u" using u(1) by (simp_all add: rep_def)
  obtain n where n: "remove_loop key (addr u) t = Some (addr u', t\<lparr>comparison_count := n\<rparr>)"
    using remove_loop_descend [OF rt(2) d(1)] by auto
  let ?t = "t\<lparr>comparison_count := n\<rparr>"
  show ?thesis
  proof (cases u')
    case Leaf
    then have "m(key := None) = m" using d(5) by auto
    then show ?thesis using n Leaf d(5) rt(1) u by (auto simp: tree_remove_def found_rec_def holds_def rep_count)
  next
    case (Node l z r)
    obtain t1 where t1: "splay (fst z) ?t = Some t1" "rep t1 [] (splay_up c l z r)" "same_counts ?t t1"
      using splay_ok [of ?t c l z r] d(2) Node by (auto simp: rep_count)
    obtain L R where LR: "splay_up c l z r = Node L z R" using splay_up_root by blast
    have io: "inorder L @ z # inorder R = inorder u" using inorder_splay_up [of c l z r] d(3) LR by (simp add: Node)
    obtain t2 v where t2: "unlink (fst z) t1 = Some t2" "same_counts t1 t2" "inorder v = inorder L @ inorder R" "root t2 = addr v"
      "shape (nodes t2) 0 v" "dom (nodes t2) = dom (nodes t1)" "nodes t2 (fst z) \<noteq> None" "nrecord (the (nodes t2 (fst z))) = rec_of z"
      using unlink_ok [of t1 L z R] t1(2) LR by auto
    let ?t3 = "t2\<lparr>node_count := node_count t2 - 1, nodes := (nodes t2)(fst z := None)\<rparr>"
    have z: "fst z \<noteq> 0" "addr u' = fst z" "rec_of z = found_rec (m key)" "key_of z = key"
      using rep_root_parent [of t1 "[]" L z R] t1(2) LR d(6,7) Node by (auto simp: found_rec_def)
    have "tree_remove key t = Some (found_rec (m key), ?t3)"
      using n z t1(1) t2(1,7,8) rt(1) by (auto simp: tree_remove_eq)
    moreover have "holds ?t3 (m(key := None))"
    proof -
      have dd: "dist (inorder L @ z # inorder R)" "dom (nodes t1) = ids (inorder L @ z # inorder R)" using t1(2) LR by (simp_all add: rep_def)
      then have out: "fst z \<notin> ids (inorder v)" "dist (inorder v)" by (auto simp: t2(3) disjnt_iff)
      have "shape (nodes ?t3) 0 v" by (rule shape_cong [OF t2(5)]) (use out in auto)
      moreover have "dom (nodes ?t3) = ids (inorder v)" using dd(2) t2(6) out(1) by (auto simp: t2(3))
      ultimately have "rep ?t3 [] v" using t2(4) out by (simp add: rep_def)
      moreover have "ordered (inorder v)" using u(2) by (auto simp: t2(3) simp flip: io)
      moreover have "node_count ?t3 = length (inorder v)"
        using u(3) t1(3) t2(2) by (simp add: t2(3) same_counts_def flip: io)
      moreover have "content (inorder v) = m(key := None)"
      proof -
        have "content (inorder L) key = None" "content (inorder R) key = None"
          using u(2) z(4) by (auto simp: content_None simp flip: io)
        then show ?thesis using z(4) by (auto simp: t2(3) u(4) fun_eq_iff map_add_def simp flip: io split: option.splits)
      qed
      ultimately show ?thesis by (auto simp: holds_def)
    qed
    ultimately show ?thesis by blast
  qed
qed

section \<open>Releasing the tree\<close>

lemma free_subtree_ok:
  "shape (nodes t) q u \<Longrightarrow> dist (inorder u) \<Longrightarrow> free_subtree f (addr u) t =
     Some (if f then map rec_of (postorder u) else [], t\<lparr>nodes := nodes t |` (- ids (inorder u))\<rparr>)"
proof (induction u arbitrary: q t)
  case Leaf
  then show ?case by (simp add: free_subtree.simps)
next
  case (Node l a r)
  note apart = Node(4) [simplified, unfolded disjnt_iff, simplified]
  let ?t1 = "t\<lparr>nodes := nodes t |` (- ids (inorder l))\<rparr>"
  have l: "shape (nodes t) (fst a) l" and a: "fst a \<noteq> 0" "nodes t (fst a) = Some (node_of a q (addr l) (addr r))"
    using Node(3) by simp_all
  have fl: "free_subtree f (addr l) t = Some (if f then map rec_of (postorder l) else [], ?t1)"
    by (rule Node(1) [OF l]) (use apart in simp)
  have "shape (nodes ?t1) (fst a) r"
    by (rule shape_cong [of "nodes t"]) (use Node(3) apart in \<open>auto simp: restrict_map_def\<close>)
  then have fr: "free_subtree f (addr r) ?t1 = Some (if f then map rec_of (postorder r) else [],
      ?t1\<lparr>nodes := nodes ?t1 |` (- ids (inorder r))\<rparr>)"
    by (rule Node(2)) (use apart in simp)
  have "(nodes t |` (- ids (inorder l)) |` (- ids (inorder r)))(fst a := None) = nodes t |` (- ids (inorder (Node l a r)))"
    by (auto simp: restrict_map_def fun_eq_iff)
  then show ?case using a fl fr apart by (subst free_subtree.simps) simp
qed

lemma mset_postorder: "mset (postorder u) = mset (inorder u)"
  by (induction u) simp_all

lemma ordered_records:
  "ordered xs \<Longrightarrow> mset (map rec_of xs) = image_mset (\<lambda>k. the (content xs k)) (mset_set (dom (content xs)))"
proof (induction xs)
  case (Cons a xs)
  let ?c = "(content xs)(key_of a \<mapsto> rec_of a)" and ?D = "dom (content xs)"
  have k: "key_of a \<notin> ?D" "finite ?D" using Cons.prems by (auto simp: dom_content)
  then have "mset_set (dom ?c) = add_mset (key_of a) (mset_set ?D)"
    by (simp only: dom_fun_upd option.distinct if_False mset_set.insert [OF k(2) k(1)])
  moreover have "image_mset (\<lambda>k. the (?c k)) (mset_set ?D) = image_mset (\<lambda>k. the (content xs k)) (mset_set ?D)"
    by (rule image_mset_cong) (use k in auto)
  moreover have "the (?c (key_of a)) = rec_of a" by simp
  moreover have "mset (map rec_of xs) = image_mset (\<lambda>k. the (content xs k)) (mset_set ?D)" using Cons by simp
  ultimately show ?case by (simp only: content_simps(2) list.map mset.simps image_mset_add_mset)
qed simp

lemma tree_free_holds:
  assumes h: "holds t m"
  shows "\<exists>rs t'. tree_free f t = Some (rs, t') \<and> nodes t' = Map.empty \<and>
    mset rs = (if f then image_mset (\<lambda>k. the (m k)) (mset_set (dom m)) else {#})"
proof -
  obtain u where u: "rep t [] u" "ordered (inorder u)" "m = content (inorder u)" using h by (auto simp: holds_def)
  have r: "root t = addr u" "shape (nodes t) 0 u" "dist (inorder u)" "dom (nodes t) = ids (inorder u)"
    using u(1) by (simp_all add: rep_def)
  have "nodes t |` (- ids (inorder u)) = Map.empty"
    by (rule ext) (use r(4) in \<open>auto simp: restrict_map_def domIff\<close>)
  then have "tree_free f t = Some (if f then map rec_of (postorder u) else [], t\<lparr>nodes := Map.empty\<rparr>)"
    using free_subtree_ok [OF r(2,3), of f] free_subtree.simps [of f 0 t] r(1) by (auto simp: tree_free_def)
  moreover have "mset (map rec_of (postorder u)) = image_mset (\<lambda>k. the (m k)) (mset_set (dom m))"
    using ordered_records [OF u(2)] mset_postorder [of u] by (simp add: u(3))
  ultimately show ?thesis by auto
qed

section \<open>Whole runs\<close>

datatype tree_op = Insert int ptr | Find int | Find_nearest int | Remove int
datatype tree_result = Done inserted | Record ptr

primrec tree_step :: "(stree \<Rightarrow> ptr) \<Rightarrow> tree_op \<Rightarrow> stree \<Rightarrow> (tree_result \<times> stree) option" where
  "tree_step malloc (Insert k r) t = map_option (map_prod Done id) (tree_insert malloc k r t)"
| "tree_step malloc (Find k) t = map_option (map_prod Record id) (tree_find k t)"
| "tree_step malloc (Find_nearest k) t = map_option (map_prod Record id) (tree_find_nearest k t)"
| "tree_step malloc (Remove k) t = map_option (map_prod Record id) (tree_remove k t)"

primrec tree_run :: "(stree \<Rightarrow> ptr) \<Rightarrow> tree_op list \<Rightarrow> stree \<Rightarrow> (tree_result list \<times> stree) option" where
  "tree_run malloc [] t = Some ([], t)"
| "tree_run malloc (op # ops) t = do {
     (r, t) \<leftarrow> tree_step malloc op t;
     (rs, t) \<leftarrow> tree_run malloc ops t;
     Some (r # rs, t)
   }"

text \<open>The same operations on a map.\<close>

primrec map_step :: "tree_op \<Rightarrow> (int \<rightharpoonup> ptr) \<Rightarrow> tree_result \<times> (int \<rightharpoonup> ptr)" where
  "map_step (Insert k r) m = (Done (Inserted (m k = None)), if m k = None then m(k \<mapsto> r) else m)"
| "map_step (Find k) m = (Record (found_rec (m k)), m)"
| "map_step (Find_nearest k) m = (Record (nearest m k), m)"
| "map_step (Remove k) m = (Record (found_rec (m k)), m(k := None))"

primrec map_run :: "tree_op list \<Rightarrow> (int \<rightharpoonup> ptr) \<Rightarrow> tree_result list \<times> (int \<rightharpoonup> ptr)" where
  "map_run [] m = ([], m)"
| "map_run (op # ops) m = (let (r, m) = map_step op m; (rs, m) = map_run ops m in (r # rs, m))"

lemma tree_step_holds:
  assumes "holds t m" "fresh_malloc malloc"
  shows "\<exists>t'. tree_step malloc op t = Some (fst (map_step op m), t') \<and> holds t' (snd (map_step op m))"
proof (cases op)
  case (Insert k r)
  then show ?thesis using tree_insert_holds [OF assms, of k r] by auto
next
  case (Find k)
  then show ?thesis using tree_find_holds [OF assms(1), of k] by auto
next
  case (Find_nearest k)
  then show ?thesis using tree_find_nearest_holds [OF assms(1), of k] by auto
next
  case (Remove k)
  then show ?thesis using tree_remove_holds [OF assms(1), of k] by auto
qed

lemma tree_run_holds:
  "holds t m \<Longrightarrow> fresh_malloc malloc \<Longrightarrow> map_run ops m = (rs, m') \<Longrightarrow>
   \<exists>t'. tree_run malloc ops t = Some (rs, t') \<and> holds t' m'"
proof (induction ops arbitrary: t m rs)
  case (Cons op ops)
  obtain t1 where t1: "tree_step malloc op t = Some (fst (map_step op m), t1)" "holds t1 (snd (map_step op m))"
    using tree_step_holds [OF Cons.prems(1,2)] by blast
  obtain rs' where rs: "map_run ops (snd (map_step op m)) = (rs', m')" "rs = fst (map_step op m) # rs'"
    using Cons.prems(3) by (auto split: prod.splits)
  show ?case using Cons.IH [OF t1(2) Cons.prems(2) rs(1)] t1(1) rs(2) by auto
qed simp

lemma tree_new_holds: "holds tree_new Map.empty"
  unfolding holds_def by (rule exI [of _ Leaf]) (simp add: rep_def tree_new_def)

section \<open>The contract for clients\<close>

text \<open>What the driver's set of ranges needs of a tree.\<close>

locale ordered_map =
  fixes repr :: "'t \<Rightarrow> (int \<rightharpoonup> ptr) \<Rightarrow> bool"
    and near :: "int \<Rightarrow> 't \<Rightarrow> (ptr \<times> 't) option"
    and add :: "int \<Rightarrow> ptr \<Rightarrow> 't \<Rightarrow> (inserted \<times> 't) option"
    and del :: "int \<Rightarrow> 't \<Rightarrow> (ptr \<times> 't) option"
  assumes near: "repr t m \<Longrightarrow> \<exists>t'. near k t = Some (nearest m k, t') \<and> repr t' m"
    and add: "repr t m \<Longrightarrow> m k = None \<Longrightarrow> \<exists>t'. add k r t = Some (Inserted True, t') \<and> repr t' (m(k \<mapsto> r))"
    and del: "repr t m \<Longrightarrow> \<exists>t'. del k t = Some (found_rec (m k), t') \<and> repr t' (m(k := None))"

lemma stree_ordered_map: "fresh_malloc malloc \<Longrightarrow> ordered_map holds tree_find_nearest (tree_insert malloc) tree_remove"
proof
  show "\<exists>t'. tree_insert malloc k r t = Some (Inserted True, t') \<and> holds t' (m(k \<mapsto> r))"
    if "fresh_malloc malloc" "holds t m" "m k = None" for t m k r
    using tree_insert_holds [OF that(2,1), of k r] that(3) by simp
qed (auto dest: tree_find_nearest_holds tree_remove_holds)

definition next_address :: "stree \<Rightarrow> ptr" where
  "next_address t = Suc (Max (insert 0 (dom (nodes t))))"

lemma next_address_fresh: "fresh_malloc next_address"
  unfolding fresh_malloc_def
proof (intro allI impI)
  fix t :: stree assume f: "finite (dom (nodes t))"
  have "nodes t (next_address t) = None"
  proof (rule ccontr)
    assume "nodes t (next_address t) \<noteq> None"
    then have "next_address t \<le> Max (insert 0 (dom (nodes t)))" using f by (intro Max_ge) auto
    then show False by (simp add: next_address_def)
  qed
  then show "next_address t \<noteq> 0 \<and> nodes t (next_address t) = None" by (simp add: next_address_def)
qed

interpretation splay_map: ordered_map holds tree_find_nearest "tree_insert next_address" tree_remove
  by (rule stree_ordered_map [OF next_address_fresh])

section \<open>Properties\<close>

text \<open>C35: The splay trees implement a finite map. Every sequence of insertions, searches, searches for the
  nearest lower key and removals, from a new tree and with a \<open>malloc\<close> that finds memory, runs to its end
  without following a null or dangling pointer and gives the results of the map; releasing the tree
  afterwards frees every node and hands every record of the map to \<open>free_fun\<close> exactly once.\<close>

theorem stree_refines_map:
  assumes "fresh_malloc malloc" "map_run ops Map.empty = (rs, m)"
  shows "\<exists>t t' rs'. tree_run malloc ops tree_new = Some (rs, t) \<and> tree_free True t = Some (rs', t') \<and>
    nodes t' = Map.empty \<and> mset rs' = image_mset (\<lambda>k. the (m k)) (mset_set (dom m))"
proof -
  obtain t where t: "tree_run malloc ops tree_new = Some (rs, t)" "holds t m"
    using tree_run_holds [OF tree_new_holds assms] by blast
  then show ?thesis using tree_free_holds [OF t(2), of True] by auto
qed

theorem stree_refines_map_witness:
  "\<exists>t. tree_run next_address [Insert 5 50, Insert 3 30, Insert 5 60, Find_nearest 4, Remove 5, Find 5] tree_new =
     Some ([Done (Inserted True), Done (Inserted True), Done (Inserted False), Record 30, Record 50, Record 0], t)"
proof -
  have n: "nearest [5 \<mapsto> 50, 3 \<mapsto> 30] 4 = 30" by (rule nearest_eq [of _ 3]) auto
  then have n': "nearest [3 \<mapsto> 30, 5 \<mapsto> 50] 4 = 30" by (simp add: fun_upd_twist)
  have "\<exists>m. map_run [Insert 5 50, Insert 3 30, Insert 5 60, Find_nearest 4, Remove 5, Find 5] Map.empty =
     ([Done (Inserted True), Done (Inserted True), Done (Inserted False), Record 30, Record 50, Record 0], m)"
    by (simp add: n n' found_rec_def)
  then show ?thesis using stree_refines_map [OF next_address_fresh] by blast
qed

text \<open>C36: Splaying a node of any tree ends, makes it the root and keeps the nodes in their order; the
  store again holds exactly the nodes of the tree, with all parent pointers right.\<close>

theorem splay_keeps_order:
  assumes "rep t c (Node l x r)"
  shows "\<exists>t' l' r'. splay (fst x) t = Some t' \<and> rep t' [] (Node l' x r') \<and> same_counts t t' \<and>
    inorder (Node l' x r') = before c @ inorder (Node l x r) @ after c"
proof -
  obtain l' r' where s: "splay_up c l x r = Node l' x r'" using splay_up_root by blast
  then have "inorder (Node l' x r') = before c @ inorder (Node l x r) @ after c"
    using inorder_splay_up [of c l x r] by simp
  then show ?thesis using splay_ok [OF assms] s by auto
qed

definition three_nodes :: stree where
  "three_nodes = \<lparr>nodes = [1 \<mapsto> \<lparr>nleft = 2, nright = 0, nparent = 0, nkey = 5, nrecord = 50\<rparr>,
     2 \<mapsto> \<lparr>nleft = 0, nright = 3, nparent = 1, nkey = 3, nrecord = 30\<rparr>,
     3 \<mapsto> \<lparr>nleft = 0, nright = 0, nparent = 2, nkey = 4, nrecord = 40\<rparr>],
     root = 1, node_count = 3, comparison_count = 0\<rparr>"

theorem splay_keeps_order_witness:
  "\<exists>t l r. splay 3 three_nodes = Some t \<and> rep t [] (Node l (3, 4, 40) r) \<and>
    inorder (Node l (3, 4, 40) r) = [(2, 3, 30), (3, 4, 40), (1, 5, 50)]"
proof -
  have "rep three_nodes [In_right Leaf (2, 3, 30), In_left (1, 5, 50) Leaf] (Node Leaf (3, 4, 40) Leaf)"
    by (simp add: rep_def three_nodes_def node_of_def) auto
  from splay_keeps_order [OF this] show ?thesis by auto
qed

end
