(* ===== verification/Range_Set.thy ===== *)
theory Range_Set
  imports Stree
begin

text \<open>
  The set of ranges with which \<open>malloc/f19-rec-malloc/mdriver.c\<close> checks that the blocks of an allocator
  do not overlap: records in a doubly linked list, ordered by address, and a splay tree from the low
  addresses to the records. The operations of the tree are parameters that meet the contract
  \<open>ordered_map\<close> of \<open>Stree\<close>. Messages of \<open>malloc_error\<close> are not modelled.
\<close>

section \<open>Data\<close>

record range =
  rlo :: int
  rhi :: int
  rindex :: int
  rnext :: ptr
  rprev :: ptr

record 't range_set =
  ranges :: "ptr \<Rightarrow> range option"
  head :: ptr
  lo_tree :: 't

definition range_at :: "ptr \<Rightarrow> 't range_set \<Rightarrow> range option" where
  "range_at p s = (if p = 0 then None else ranges s p)"

definition set_range :: "ptr \<Rightarrow> (range \<Rightarrow> range) \<Rightarrow> 't range_set \<Rightarrow> 't range_set option" where
  "set_range p f s = do { n \<leftarrow> range_at p s; Some (s\<lparr>ranges := (ranges s)(p \<mapsto> f n)\<rparr>) }"

text \<open>The heap of the allocator and the mode of the driver.\<close>

definition ALIGNMENT :: int where "ALIGNMENT = 16"

record driver =
  heap_lo :: int
  heap_hi :: int
  dbg_none :: bool

section \<open>Operations\<close>

definition new_range_set :: "'t \<Rightarrow> 't range_set" where
  "new_range_set t = \<lparr>ranges = (\<lambda>_. None), head = 0, lo_tree = t\<rparr>"

definition add_range ::
  "(int \<Rightarrow> 't \<Rightarrow> (ptr \<times> 't) option) \<Rightarrow> (int \<Rightarrow> ptr \<Rightarrow> 't \<Rightarrow> (inserted \<times> 't) option) \<Rightarrow> ('t range_set \<Rightarrow> ptr) \<Rightarrow>
   driver \<Rightarrow> int \<Rightarrow> int \<Rightarrow> int \<Rightarrow> 't range_set \<Rightarrow> (inserted \<times> 't range_set) option"
where
  "add_range near ins malloc d l sz i s =
     (let h = l + sz - 1
      in if l mod ALIGNMENT \<noteq> 0 then Some (Inserted False, s)
         else if l < heap_lo d \<or> l > heap_hi d \<or> h < heap_lo d \<or> h > heap_hi d then Some (Inserted False, s)
         else if dbg_none d then Some (Inserted True, s)
         else do {
           (p, t) \<leftarrow> near l (lo_tree s);
           let s = s\<lparr>lo_tree := t\<rparr>;
           n \<leftarrow> (if p \<noteq> 0 then map_option rnext (range_at p s) else Some 0);
           over_prev \<leftarrow> (if p \<noteq> 0 then map_option (\<lambda>r. l \<le> rhi r) (range_at p s) else Some False);
           if over_prev then Some (Inserted False, s)
           else do {
             over_next \<leftarrow> (if n \<noteq> 0 then map_option (\<lambda>r. h \<ge> rlo r) (range_at n s) else Some False);
             if over_next then Some (Inserted False, s)
             else do {
               let z = malloc s;
               if z = 0 then Some (Exits, s)
               else do {
                 s \<leftarrow> (if p \<noteq> 0 then set_range p (rnext_update (\<lambda>_. z)) s else Some (s\<lparr>head := z\<rparr>));
                 s \<leftarrow> (if n \<noteq> 0 then set_range n (rprev_update (\<lambda>_. z)) s else Some s);
                 let s = s\<lparr>ranges := (ranges s)(z \<mapsto> \<lparr>rlo = l, rhi = h, rindex = i, rnext = n, rprev = p\<rparr>)\<rparr>;
                 (r, t) \<leftarrow> ins l z (lo_tree s);
                 Some (if r = Exits then Exits else Inserted True, s\<lparr>lo_tree := t\<rparr>)
               }
             }
           }
         })"

definition remove_range :: "(int \<Rightarrow> 't \<Rightarrow> (ptr \<times> 't) option) \<Rightarrow> int \<Rightarrow> 't range_set \<Rightarrow> 't range_set option" where
  "remove_range del l s = do {
     (p, t) \<leftarrow> del l (lo_tree s);
     let s = s\<lparr>lo_tree := t\<rparr>;
     if p = 0 then Some s
     else do {
       r \<leftarrow> range_at p s;
       s \<leftarrow> (if rprev r \<noteq> 0 then set_range (rprev r) (rnext_update (\<lambda>_. rnext r)) s else Some (s\<lparr>head := rnext r\<rparr>));
       s \<leftarrow> (if rnext r \<noteq> 0 then set_range (rnext r) (rprev_update (\<lambda>_. rprev r)) s else Some s);
       Some (s\<lparr>ranges := (ranges s)(p := None)\<rparr>)
     }
   }"

text \<open>The records are released by \<open>tree_free\<close> with \<open>free\<close>.\<close>

definition free_range_set :: "stree range_set \<Rightarrow> stree range_set option" where
  "free_range_set s = do {
     (rs, t) \<leftarrow> tree_free True (lo_tree s);
     Some (s\<lparr>ranges := ranges s |` (- set rs), lo_tree := t\<rparr>)
   }"

section \<open>The list of ranges\<close>

text \<open>The address of the record, the bounds of the range and its index.\<close>

type_synonym rng = "ptr \<times> int \<times> int \<times> int"

definition rng_lo :: "rng \<Rightarrow> int" where "rng_lo r = fst (snd r)"
definition rng_hi :: "rng \<Rightarrow> int" where "rng_hi r = fst (snd (snd r))"

definition range_of :: "rng \<Rightarrow> ptr \<Rightarrow> ptr \<Rightarrow> range" where
  "range_of r n q = \<lparr>rlo = rng_lo r, rhi = rng_hi r, rindex = snd (snd (snd r)), rnext = n, rprev = q\<rparr>"

lemma range_of_simps [simp]:
  "rlo (range_of r n q) = rng_lo r" "rhi (range_of r n q) = rng_hi r" "rnext (range_of r n q) = n" "rprev (range_of r n q) = q"
  "rnext_update (\<lambda>_. x) (range_of r n q) = range_of r x q" "rprev_update (\<lambda>_. x) (range_of r n q) = range_of r n x"
  by (simp_all add: range_of_def)

definition first_of :: "rng list \<Rightarrow> ptr \<Rightarrow> ptr" where
  "first_of rs e = (case rs of [] \<Rightarrow> e | r # _ \<Rightarrow> fst r)"

definition last_of :: "ptr \<Rightarrow> rng list \<Rightarrow> ptr" where
  "last_of q rs = (if rs = [] then q else fst (last rs))"

lemma first_of_simps [simp]: "first_of [] e = e" "first_of (r # rs) e = fst r" "first_of (xs @ ys) e = first_of xs (first_of ys e)"
  by (auto simp: first_of_def split: list.splits)

lemma last_of_simps [simp]: "last_of q [] = q" "last_of q (r # rs) = last_of (fst r) rs" "last_of q (xs @ [r]) = fst r"
  by (auto simp: last_of_def)

text \<open>The records of a part of the list, between the record \<open>q\<close> and the record \<open>e\<close>.\<close>

fun linked :: "(ptr \<Rightarrow> range option) \<Rightarrow> ptr \<Rightarrow> rng list \<Rightarrow> ptr \<Rightarrow> bool" where
  "linked s q [] e \<longleftrightarrow> True"
| "linked s q (r # rs) e \<longleftrightarrow> fst r \<noteq> 0 \<and> s (fst r) = Some (range_of r (first_of rs e) q) \<and> linked s (fst r) rs e"

lemma linked_append: "linked s q (xs @ ys) e \<longleftrightarrow> linked s q xs (first_of ys e) \<and> linked s (last_of q xs) ys e"
  by (induction xs arbitrary: q) simp_all

lemma linked_cong: "linked s q rs e \<Longrightarrow> (\<And>p. p \<in> fst ` set rs \<Longrightarrow> s' p = s p) \<Longrightarrow> linked s' q rs e"
  by (induction s q rs e rule: linked.induct) simp_all

text \<open>Relinking the two ends of a part.\<close>

lemma linked_last:
  assumes "linked s q (xs @ [r]) e" "fst r \<notin> fst ` set xs"
  shows "linked (s(fst r \<mapsto> range_of r e' (last_of q xs))) q (xs @ [r]) e'" "s (fst r) = Some (range_of r e (last_of q xs))"
proof -
  have "linked s q xs (fst r)" "fst r \<noteq> 0" "s (fst r) = Some (range_of r e (last_of q xs))" using assms(1) by (simp_all add: linked_append)
  moreover from this(1) have "linked (s(fst r \<mapsto> range_of r e' (last_of q xs))) q xs (fst r)"
    by (rule linked_cong) (use assms(2) in \<open>metis fun_upd_other\<close>)
  ultimately show "linked (s(fst r \<mapsto> range_of r e' (last_of q xs))) q (xs @ [r]) e'" "s (fst r) = Some (range_of r e (last_of q xs))"
    by (simp_all add: linked_append)
qed

lemma linked_first:
  assumes "linked s q (r # ys) e" "fst r \<notin> fst ` set ys"
  shows "linked (s(fst r \<mapsto> range_of r (first_of ys e) q')) q' (r # ys) e" "s (fst r) = Some (range_of r (first_of ys e) q)"
proof -
  have "linked s (fst r) ys e" "fst r \<noteq> 0" "s (fst r) = Some (range_of r (first_of ys e) q)" using assms(1) by simp_all
  moreover from this(1) have "linked (s(fst r \<mapsto> range_of r (first_of ys e) q')) (fst r) ys e"
    by (rule linked_cong) (use assms(2) in \<open>metis fun_upd_other\<close>)
  ultimately show "linked (s(fst r \<mapsto> range_of r (first_of ys e) q')) q' (r # ys) e" "s (fst r) = Some (range_of r (first_of ys e) q)"
    by simp_all
qed

definition by_lo :: "rng list \<Rightarrow> int \<rightharpoonup> ptr" where
  "by_lo rs = map_of (map (\<lambda>r. (rng_lo r, fst r)) rs)"

lemma by_lo_simps [simp]:
  "by_lo [] = Map.empty" "by_lo (r # rs) = (by_lo rs)(rng_lo r \<mapsto> fst r)" "by_lo (xs @ ys) = by_lo ys ++ by_lo xs"
  by (simp_all add: by_lo_def)

lemma by_lo_None: "by_lo rs k = None \<longleftrightarrow> (\<forall>r \<in> set rs. rng_lo r \<noteq> k)"
  by (induction rs) (auto simp: by_lo_def [of "[]"])

lemma dom_by_lo: "dom (by_lo rs) = rng_lo ` set rs"
proof (rule set_eqI)
  show "k \<in> dom (by_lo rs) \<longleftrightarrow> k \<in> rng_lo ` set rs" for k
    unfolding domIff by_lo_None by auto
qed

text \<open>Ranges in ascending order that do not overlap.\<close>

definition disjoint_ranges :: "rng list \<Rightarrow> bool" where
  "disjoint_ranges rs \<longleftrightarrow> (\<forall>r \<in> set rs. rng_lo r \<le> rng_hi r) \<and> sorted_wrt (\<lambda>r r'. rng_hi r < rng_lo r') rs"

lemma disjoint_ranges_simps [simp]:
  "disjoint_ranges []"
  "disjoint_ranges (r # rs) \<longleftrightarrow> rng_lo r \<le> rng_hi r \<and> (\<forall>r' \<in> set rs. rng_hi r < rng_lo r') \<and> disjoint_ranges rs"
  "disjoint_ranges (xs @ ys) \<longleftrightarrow> disjoint_ranges xs \<and> disjoint_ranges ys \<and> (\<forall>r \<in> set xs. \<forall>r' \<in> set ys. rng_hi r < rng_lo r')"
  by (auto simp: disjoint_ranges_def sorted_wrt_append)

lemma disjoint_ranges_le: "disjoint_ranges rs \<Longrightarrow> r \<in> set rs \<Longrightarrow> rng_lo r \<le> rng_hi r"
  by (simp add: disjoint_ranges_def)

definition good :: "('t \<Rightarrow> (int \<rightharpoonup> ptr) \<Rightarrow> bool) \<Rightarrow> 't range_set \<Rightarrow> rng list \<Rightarrow> bool" where
  "good repr s rs \<longleftrightarrow> head s = first_of rs 0 \<and> linked (ranges s) 0 rs 0 \<and> distinct (map fst rs) \<and> dom (ranges s) = fst ` set rs \<and>
     disjoint_ranges rs \<and> repr (lo_tree s) (by_lo rs)"

text \<open>A new range overlaps one of the set.\<close>

definition overlaps :: "int \<Rightarrow> int \<Rightarrow> rng list \<Rightarrow> bool" where
  "overlaps l h rs \<longleftrightarrow> (\<exists>r \<in> set rs. l \<le> rng_hi r \<and> rng_lo r \<le> h)"

lemma nearest_by_lo:
  assumes "disjoint_ranges (xs @ r # ys)" "rng_lo r \<le> l" "\<And>r'. r' \<in> set ys \<Longrightarrow> l < rng_lo r'"
  shows "nearest (by_lo (xs @ r # ys)) l = fst r"
proof (rule nearest_eq)
  have lt: "rng_lo r' < rng_lo r" if "r' \<in> set xs" for r'
    using assms(1) that disjoint_ranges_le [of xs r'] by fastforce
  then have "by_lo xs (rng_lo r) = None" by (force simp: by_lo_None)
  then show "by_lo (xs @ r # ys) (rng_lo r) = Some (fst r)"
    by (simp add: map_add_def)
  show "k \<le> rng_lo r" if k: "k \<in> dom (by_lo (xs @ r # ys))" "k \<le> l" for k
  proof -
    obtain r' where "r' \<in> set (xs @ r # ys)" "k = rng_lo r'" using k(1) unfolding dom_by_lo by blast
    then show ?thesis using lt assms(3) k(2) by fastforce
  qed
qed (use assms in \<open>simp_all add: dom_by_lo del: by_lo_simps\<close>)

text \<open>The two assignments with which a part of the list gets a new neighbour.\<close>

lemma set_next_ok:
  assumes l: "linked (ranges s) 0 xs e" and d: "distinct (map fst xs)"
  obtains s' where "(if last_of 0 xs \<noteq> 0 then set_range (last_of 0 xs) (rnext_update (\<lambda>_. z)) s else Some (s\<lparr>head := z\<rparr>)) = Some s'"
    "linked (ranges s') 0 xs z" "head s' = (if xs = [] then z else head s)" "lo_tree s' = lo_tree s" "dom (ranges s') = dom (ranges s)"
    "\<And>b. b \<notin> fst ` set xs \<Longrightarrow> ranges s' b = ranges s b"
proof (cases xs rule: rev_cases)
  case Nil
  then show thesis by (intro that [of "s\<lparr>head := z\<rparr>"]) simp_all
next
  case (snoc ws r)
  have r: "fst r \<notin> fst ` set ws" "fst r \<noteq> 0" using d l by (auto simp: snoc linked_append)
  note ll = linked_last [OF l [unfolded snoc] r(1)]
  show thesis
    by (rule that [of "s\<lparr>ranges := (ranges s)(fst r \<mapsto> range_of r z (last_of 0 ws))\<rparr>"])
      (use ll r in \<open>auto simp: snoc set_range_def range_at_def\<close>)
qed

lemma set_prev_ok:
  assumes l: "linked (ranges s) q ys 0" and d: "distinct (map fst ys)"
  obtains s' where "(if first_of ys 0 \<noteq> 0 then set_range (first_of ys 0) (rprev_update (\<lambda>_. z)) s else Some s) = Some s'"
    "linked (ranges s') z ys 0" "head s' = head s" "lo_tree s' = lo_tree s" "dom (ranges s') = dom (ranges s)"
    "\<And>b. b \<notin> fst ` set ys \<Longrightarrow> ranges s' b = ranges s b"
proof (cases ys)
  case Nil
  then show thesis by (intro that [of s]) simp_all
next
  case (Cons r ws)
  have r: "fst r \<notin> fst ` set ws" "fst r \<noteq> 0" using d l by (auto simp: Cons)
  note lf = linked_first [OF l [unfolded Cons] r(1)]
  show thesis
    by (rule that [of "s\<lparr>ranges := (ranges s)(fst r \<mapsto> range_of r (first_of ws 0) z)\<rparr>"])
      (use lf r in \<open>auto simp: Cons set_range_def range_at_def\<close>)
qed

lemma overlaps_split:
  assumes "disjoint_ranges (xs @ ys)" "\<And>r. r \<in> set xs \<Longrightarrow> rng_lo r \<le> l" "\<And>r. r \<in> set ys \<Longrightarrow> l < rng_lo r" "l \<le> h"
  shows "overlaps l h (xs @ ys) \<longleftrightarrow> (xs \<noteq> [] \<and> l \<le> rng_hi (last xs)) \<or> (ys \<noteq> [] \<and> rng_lo (hd ys) \<le> h)"
proof -
  have "(\<exists>r \<in> set xs. l \<le> rng_hi r \<and> rng_lo r \<le> h) \<longleftrightarrow> xs \<noteq> [] \<and> l \<le> rng_hi (last xs)"
  proof (cases xs rule: rev_cases)
    case (snoc ws r)
    have "\<not> l \<le> rng_hi r'" if "r' \<in> set ws" for r'
    proof -
      have "rng_hi r' < rng_lo r" "rng_lo r \<le> l" using assms(1,2) that snoc by auto
      then show ?thesis by simp
    qed
    moreover have "rng_lo r \<le> h" using assms(2) [of r] assms(4) snoc by simp
    ultimately show ?thesis by (auto simp: snoc)
  qed simp
  moreover have "(\<exists>r \<in> set ys. l \<le> rng_hi r \<and> rng_lo r \<le> h) \<longleftrightarrow> ys \<noteq> [] \<and> rng_lo (hd ys) \<le> h"
  proof (cases ys)
    case (Cons r ws)
    have le: "rng_lo r \<le> rng_lo r'" if "r' \<in> set ws" for r'
    proof -
      have "rng_lo r \<le> rng_hi r" "rng_hi r < rng_lo r'" using assms(1) that Cons by auto
      then show ?thesis by simp
    qed
    have "l < rng_lo r" "rng_lo r \<le> rng_hi r" using assms(1,3) Cons by simp_all
    then have "l \<le> rng_hi r" by simp
    moreover have "rng_lo r \<le> h" if "r' \<in> set ys" "rng_lo r' \<le> h" for r'
    proof (cases "r' = r")
      case False
      then have "r' \<in> set ws" using that(1) Cons by simp
      from le [OF this] that(2) show ?thesis by simp
    qed (use that in simp)
    ultimately show ?thesis unfolding Cons list.sel by (metis list.set_intros(1) list.distinct(1) Cons)
  qed simp
  ultimately show ?thesis unfolding overlaps_def set_append by blast
qed

context ordered_map
begin

text \<open>
  Adding a range: unless it lies below all ranges of the set, it is refused exactly when it overlaps one,
  and otherwise linked in at its place.
\<close>

lemma adds_range:
  assumes g: "good repr s rs" and fresh: "\<And>s :: 't range_set. finite (dom (ranges s)) \<Longrightarrow> malloc s \<noteq> 0 \<and> ranges s (malloc s) = None"
    and ok: "0 < sz" "l mod ALIGNMENT = 0" "heap_lo d \<le> l" "l + sz - 1 \<le> heap_hi d" "\<not> dbg_none d"
    and split: "rs = xs @ ys" "\<And>r. r \<in> set xs \<Longrightarrow> rng_lo r \<le> l" "\<And>r. r \<in> set ys \<Longrightarrow> l < rng_lo r" "xs = [] \<Longrightarrow> ys = []"
  shows "\<exists>z s'. add_range near add malloc d l sz i s = Some (Inserted (\<not> overlaps l (l + sz - 1) rs), s') \<and>
    good repr s' (if overlaps l (l + sz - 1) rs then rs else xs @ (z, l, l + sz - 1, i) # ys)"
proof -
  let ?h = "l + sz - 1" and ?p = "last_of 0 xs" and ?n = "first_of ys 0"
  have dr: "disjoint_ranges (xs @ ys)" and hd: "head s = first_of (xs @ ys) 0" and lk: "linked (ranges s) 0 (xs @ ys) 0"
    and di: "distinct (map fst (xs @ ys))" and dm: "dom (ranges s) = fst ` set (xs @ ys)" and rp: "repr (lo_tree s) (by_lo (xs @ ys))"
    using g split(1) by (simp_all add: good_def)
  have near_p: "nearest (by_lo (xs @ ys)) l = ?p"
  proof (cases xs rule: rev_cases)
    case Nil
    then show ?thesis using split(4) by (simp add: nearest_def)
  next
    case (snoc ws r)
    have "nearest (by_lo (ws @ r # ys)) l = fst r"
      by (rule nearest_by_lo) (use dr snoc split(2,3) in auto)
    then show ?thesis by (simp only: snoc last_of_simps append_assoc append_Cons append_Nil)
  qed
  obtain t where t: "near l (lo_tree s) = Some (?p, t)" "repr t (by_lo (xs @ ys))"
    using near [OF rp, of l] near_p by auto
  let ?s = "s\<lparr>lo_tree := t\<rparr>"
  have pr: "last_of 0 xs \<noteq> 0 \<longleftrightarrow> xs \<noteq> []" "xs \<noteq> [] \<Longrightarrow> \<exists>e q. ranges s ?p = Some (range_of (last xs) e q) \<and> e = ?n"
    using lk by (cases xs rule: rev_cases; auto simp: linked_append)+
  have nx: "?n \<noteq> 0 \<longleftrightarrow> ys \<noteq> []" "ys \<noteq> [] \<Longrightarrow> \<exists>e q. ranges s ?n = Some (range_of (hd ys) e q)"
    using lk by (cases ys; auto simp: linked_append)+
  note ov = overlaps_split [OF dr split(2,3), of ?h]
  have n: "(if ?p \<noteq> 0 then map_option rnext (range_at ?p ?s) else Some 0) = Some ?n"
    using pr split(4) by (auto simp: range_at_def)
  have op: "(if ?p \<noteq> 0 then map_option (\<lambda>r. l \<le> rhi r) (range_at ?p ?s) else Some False) = Some (xs \<noteq> [] \<and> l \<le> rng_hi (last xs))"
    using pr by (auto simp: range_at_def)
  have on: "(if ?n \<noteq> 0 then map_option (\<lambda>r. ?h \<ge> rlo r) (range_at ?n ?s) else Some False) = Some (ys \<noteq> [] \<and> rng_lo (hd ys) \<le> ?h)"
    using nx by (auto simp: range_at_def)
  have c: "(l mod ALIGNMENT \<noteq> 0) = False" "(l < heap_lo d \<or> l > heap_hi d \<or> ?h < heap_lo d \<or> ?h > heap_hi d) = False" "dbg_none d = False"
    using ok by auto
  have or: "(if A then X else if B then X else Y) = (if A \<or> B then X else Y)" for A B and X Y :: "(inserted \<times> 't range_set) option"
    by simp
  have run: "add_range near add malloc d l sz i s =
      (if xs \<noteq> [] \<and> l \<le> rng_hi (last xs) \<or> ys \<noteq> [] \<and> rng_lo (hd ys) \<le> ?h then Some (Inserted False, ?s)
       else do {
         let z = malloc ?s;
         if z = 0 then Some (Exits, ?s)
         else do {
           s \<leftarrow> (if ?p \<noteq> 0 then set_range ?p (rnext_update (\<lambda>_. z)) ?s else Some (?s\<lparr>head := z\<rparr>));
           s \<leftarrow> (if ?n \<noteq> 0 then set_range ?n (rprev_update (\<lambda>_. z)) s else Some s);
           let s = s\<lparr>ranges := (ranges s)(z \<mapsto> \<lparr>rlo = l, rhi = ?h, rindex = i, rnext = ?n, rprev = ?p\<rparr>)\<rparr>;
           (r, t) \<leftarrow> add l z (lo_tree s);
           Some (if r = Exits then Exits else Inserted True, s\<lparr>lo_tree := t\<rparr>)
         }
       })"
    unfolding add_range_def Let_def c if_False t(1) Option.bind.bind_lunit prod.case n op on unfolding or ..
  show ?thesis
  proof (cases "overlaps l ?h rs")
    case True
    then have "good repr ?s rs" using g t(2) split(1) by (simp add: good_def)
    moreover have "xs \<noteq> [] \<and> l \<le> rng_hi (last xs) \<or> ys \<noteq> [] \<and> rng_lo (hd ys) \<le> ?h" using True ov ok(1) split(1) by simp
    then have "add_range near add malloc d l sz i s = Some (Inserted False, ?s)" unfolding run by (simp only: if_True)
    ultimately show ?thesis using True by simp
  next
    case False
    let ?z = "malloc ?s"
    have "finite (dom (ranges ?s))" by (simp add: dm)
    from fresh [OF this] have z: "?z \<noteq> 0" "?z \<notin> fst ` set (xs @ ys)" unfolding dm [symmetric] by auto
    have l1: "linked (ranges ?s) 0 xs ?n" "distinct (map fst xs)" "distinct (map fst ys)" using lk di by (simp_all add: linked_append)
    obtain s1 where s1: "(if ?p \<noteq> 0 then set_range ?p (rnext_update (\<lambda>_. ?z)) ?s else Some (?s\<lparr>head := ?z\<rparr>)) = Some s1"
      "linked (ranges s1) 0 xs ?z" "head s1 = (if xs = [] then ?z else head ?s)" "lo_tree s1 = t" "dom (ranges s1) = dom (ranges ?s)"
      "\<And>b. b \<notin> fst ` set xs \<Longrightarrow> ranges s1 b = ranges ?s b"
      by (rule set_next_ok [OF l1(1,2), where z = ?z]) simp
    have "linked (ranges s) ?p ys 0" using lk by (simp add: linked_append)
    then have l2: "linked (ranges s1) ?p ys 0" by (rule linked_cong) (use s1(6) di in \<open>force\<close>)
    obtain s2 where s2: "(if ?n \<noteq> 0 then set_range ?n (rprev_update (\<lambda>_. ?z)) s1 else Some s1) = Some s2"
      "linked (ranges s2) ?z ys 0" "head s2 = head s1" "lo_tree s2 = lo_tree s1" "dom (ranges s2) = dom (ranges s1)"
      "\<And>b. b \<notin> fst ` set ys \<Longrightarrow> ranges s2 b = ranges s1 b"
      by (rule set_prev_ok [OF l2 l1(3), where z = ?z]) simp
    let ?r = "(?z, l, ?h, i)"
    have no: "\<not> (l \<le> rng_hi r \<and> rng_lo r \<le> ?h)" if "r \<in> set (xs @ ys)" for r
      using False that split(1) by (auto simp: overlaps_def)
    have lt: "rng_hi r < l" if "r \<in> set xs" for r using no [of r] split(2) [OF that] that ok(1) by force
    have gt: "?h < rng_lo r" if "r \<in> set ys" for r
    proof -
      have "disjoint_ranges ys" using dr by simp
      then have "rng_lo r \<le> rng_hi r" using that by (rule disjoint_ranges_le)
      then show ?thesis using no [of r] split(3) [OF that] that by simp
    qed
    have nl: "by_lo (xs @ ys) l = None"
    proof -
      have "rng_lo r \<noteq> l" if "r \<in> set (xs @ ys)" for r
        using no [OF that] disjoint_ranges_le [OF dr that] ok(1) by auto
      then show ?thesis unfolding by_lo_None by blast
    qed
    obtain t2 where t2: "add l ?z t = Some (Inserted True, t2)" "repr t2 ((by_lo (xs @ ys))(l \<mapsto> ?z))"
      using add [OF t(2) nl] by blast
    let ?s4 = "s2\<lparr>ranges := (ranges s2)(?z \<mapsto> range_of ?r ?n ?p), lo_tree := t2\<rparr>"
    have ro: "\<lparr>rlo = l, rhi = ?h, rindex = i, rnext = ?n, rprev = ?p\<rparr> = range_of ?r ?n ?p"
      by (simp add: range_of_def rng_lo_def rng_hi_def)
    have "add_range near add malloc d l sz i s = Some (Inserted True, ?s4)"
    proof -
      have "\<not> (xs \<noteq> [] \<and> l \<le> rng_hi (last xs) \<or> ys \<noteq> [] \<and> rng_lo (hd ys) \<le> ?h)" using False ov ok(1) split(1) by simp
      then show ?thesis unfolding run ro using z(1) s1(1) s2(1) s1(4) s2(4) t2(1) by (simp add: Let_def)
    qed
    moreover have "good repr ?s4 (xs @ ?r # ys)"
    proof -
      have "linked (ranges s2) 0 xs ?z" by (rule linked_cong [OF s1(2)]) (use s2(6) di in force)
      then have "linked (ranges ?s4) 0 xs ?z" by (rule linked_cong) (use z in force)
      moreover have "linked (ranges ?s4) ?z ys 0" by (rule linked_cong [OF s2(2)]) (use z in force)
      ultimately have "linked (ranges ?s4) 0 (xs @ ?r # ys) 0" using z(1) by (simp add: linked_append)
      moreover have "head ?s4 = first_of (xs @ ?r # ys) 0" using s2(3) s1(3) hd by (cases xs) simp_all
      moreover have "distinct (map fst (xs @ ?r # ys))" using di z(2) by auto
      moreover have "dom (ranges ?s4) = fst ` set (xs @ ?r # ys)" using s2(5) s1(5) dm by auto
      moreover have "disjoint_ranges (xs @ ?r # ys)"
        using dr lt gt ok(1) by (auto simp: rng_lo_def rng_hi_def)
      moreover have "by_lo (xs @ ?r # ys) = (by_lo (xs @ ys))(l \<mapsto> ?z)"
        using nl by (auto simp: rng_lo_def fun_eq_iff map_add_def split: option.splits)
      ultimately show ?thesis using t2(2) by (simp add: good_def)
    qed
    ultimately show ?thesis using False by (intro exI [where x = ?z] exI [where x = ?s4]) simp
  qed
qed

text \<open>A range below all ranges of the set is not compared with any, and becomes the whole list.\<close>

lemma adds_lowest:
  assumes g: "good repr s rs" and fresh: "\<And>s :: 't range_set. finite (dom (ranges s)) \<Longrightarrow> malloc s \<noteq> 0 \<and> ranges s (malloc s) = None"
    and ok: "0 < sz" "l mod ALIGNMENT = 0" "heap_lo d \<le> l" "l + sz - 1 \<le> heap_hi d" "\<not> dbg_none d"
    and low: "\<And>r. r \<in> set rs \<Longrightarrow> l < rng_lo r"
  shows "\<exists>z s'. add_range near add malloc d l sz i s = Some (Inserted True, s') \<and> z \<notin> fst ` set rs \<and> head s' = z \<and>
    linked (ranges s') 0 [(z, l, l + sz - 1, i)] 0 \<and> repr (lo_tree s') ((by_lo rs)(l \<mapsto> z))"
proof -
  have rp: "repr (lo_tree s) (by_lo rs)" and dm: "dom (ranges s) = fst ` set rs" using g by (simp_all add: good_def)
  have "{k \<in> dom (by_lo rs). k \<le> l} = {}" using low unfolding dom_by_lo by fastforce
  then have "nearest (by_lo rs) l = 0" by (simp add: nearest_def)
  then obtain t where t: "near l (lo_tree s) = Some (0, t)" "repr t (by_lo rs)"
    using near [OF rp, of l] by auto
  let ?z = "malloc (s\<lparr>lo_tree := t\<rparr>)"
  have z: "?z \<noteq> 0" "?z \<notin> fst ` set rs" using fresh [of "s\<lparr>lo_tree := t\<rparr>"] dm by auto
  have "by_lo rs l = None" unfolding by_lo_None using low by force
  then obtain t2 where t2: "add l ?z t = Some (Inserted True, t2)" "repr t2 ((by_lo rs)(l \<mapsto> ?z))"
    using add [OF t(2)] by blast
  have "\<not> heap_hi d < l" "\<not> l + sz - 1 < heap_lo d" using ok by linarith+
  then have "add_range near add malloc d l sz i s = Some (Inserted True,
      s\<lparr>lo_tree := t2, head := ?z, ranges := (ranges s)(?z \<mapsto> \<lparr>rlo = l, rhi = l + sz - 1, rindex = i, rnext = 0, rprev = 0\<rparr>)\<rparr>)"
    using ok t(1) t2(1) z(1) by (simp add: add_range_def Let_def)
  then show ?thesis using z t2(2) by (intro exI [where x = ?z]) (auto simp: range_of_def rng_lo_def rng_hi_def)
qed

text \<open>Removing a range unlinks its record wherever it is.\<close>

lemma removes_range:
  assumes g: "good repr s (xs @ r # ys)"
  shows "\<exists>s'. remove_range del (rng_lo r) s = Some s' \<and> good repr s' (xs @ ys)"
proof -
  let ?p = "last_of 0 xs" and ?n = "first_of ys 0" and ?l = "rng_lo r"
  have dr: "disjoint_ranges (xs @ r # ys)" and hd: "head s = first_of (xs @ r # ys) 0" and lk: "linked (ranges s) 0 (xs @ r # ys) 0"
    and di: "distinct (map fst (xs @ r # ys))" and dm: "dom (ranges s) = fst ` set (xs @ r # ys)" and rp: "repr (lo_tree s) (by_lo (xs @ r # ys))"
    using g by (simp_all add: good_def)
  have ne: "by_lo xs ?l = None" "by_lo ys ?l = None"
  proof -
    have le: "rng_lo r' \<le> rng_hi r'" if "r' \<in> set (xs @ r # ys)" for r' using disjoint_ranges_le [OF dr that] .
    have "rng_lo r' \<noteq> ?l" if "r' \<in> set xs" for r'
    proof -
      have "rng_hi r' < ?l" using dr that by simp
      then show ?thesis using le [of r'] that by simp
    qed
    moreover have "rng_lo r' \<noteq> ?l" if "r' \<in> set ys" for r'
    proof -
      have "rng_hi r < rng_lo r'" using dr that by simp
      then show ?thesis using le [of r] by simp
    qed
    ultimately show "by_lo xs ?l = None" "by_lo ys ?l = None" unfolding by_lo_None by blast+
  qed
  then have m: "by_lo (xs @ r # ys) ?l = Some (fst r)" "(by_lo (xs @ r # ys))(?l := None) = by_lo (xs @ ys)"
    by (auto simp: map_add_def fun_eq_iff split: option.splits)
  obtain t where t: "del ?l (lo_tree s) = Some (fst r, t)" "repr t (by_lo (xs @ ys))"
    using del [OF rp, of ?l] m by (auto simp: found_rec_def)
  let ?s = "s\<lparr>lo_tree := t\<rparr>"
  have r: "fst r \<noteq> 0" "ranges s (fst r) = Some (range_of r ?n ?p)" and l1: "linked (ranges ?s) 0 xs (fst r)" and l3: "linked (ranges s) (fst r) ys 0"
    using lk by (simp_all add: linked_append)
  have dx: "distinct (map fst xs)" "distinct (map fst ys)" using di by simp_all
  have dj: "b \<in> fst ` set ys \<Longrightarrow> b \<notin> fst ` set xs \<and> b \<noteq> fst r" "b \<in> fst ` set xs \<Longrightarrow> b \<notin> fst ` set ys \<and> b \<noteq> fst r" for b
    using di unfolding map_append list.map distinct_append distinct.simps set_map list.set by blast+
  obtain s1 where s1: "(if ?p \<noteq> 0 then set_range ?p (rnext_update (\<lambda>_. ?n)) ?s else Some (?s\<lparr>head := ?n\<rparr>)) = Some s1"
    "linked (ranges s1) 0 xs ?n" "head s1 = (if xs = [] then ?n else head ?s)" "lo_tree s1 = t" "dom (ranges s1) = dom (ranges ?s)"
    "\<And>b. b \<notin> fst ` set xs \<Longrightarrow> ranges s1 b = ranges ?s b"
    by (rule set_next_ok [OF l1 dx(1), where z = ?n]) simp
  have l2: "linked (ranges s1) (fst r) ys 0" by (rule linked_cong [OF l3]) (simp add: s1(6) dj)
  obtain s2 where s2: "(if ?n \<noteq> 0 then set_range ?n (rprev_update (\<lambda>_. ?p)) s1 else Some s1) = Some s2"
    "linked (ranges s2) ?p ys 0" "head s2 = head s1" "lo_tree s2 = lo_tree s1" "dom (ranges s2) = dom (ranges s1)"
    "\<And>b. b \<notin> fst ` set ys \<Longrightarrow> ranges s2 b = ranges s1 b"
    by (rule set_prev_ok [OF l2 dx(2), where z = ?p]) simp
  let ?s3 = "s2\<lparr>ranges := (ranges s2)(fst r := None)\<rparr>"
  have "remove_range del ?l s = Some ?s3"
    using t(1) r s1(1) s2(1)
    by (cases "?p = 0"; cases "?n = 0") (auto simp: remove_range_def range_at_def Let_def)
  moreover have "good repr ?s3 (xs @ ys)"
  proof -
    have "linked (ranges s2) 0 xs ?n" by (rule linked_cong [OF s1(2)]) (simp add: s2(6) dj)
    then have "linked (ranges ?s3) 0 xs ?n" by (rule linked_cong) (simp add: dj)
    moreover have "linked (ranges ?s3) ?p ys 0" by (rule linked_cong [OF s2(2)]) (simp add: dj)
    ultimately have "linked (ranges ?s3) 0 (xs @ ys) 0" by (simp add: linked_append)
    moreover have "head ?s3 = first_of (xs @ ys) 0" using s2(3) s1(3) hd by (cases xs) simp_all
    moreover have "dom (ranges ?s3) = fst ` set (xs @ ys)"
    proof -
      have "fst r \<notin> fst ` set (xs @ ys)" using di by auto
      moreover have "dom (ranges s2) = insert (fst r) (fst ` set (xs @ ys))" using s2(5) s1(5) dm by simp
      moreover have "dom (ranges ?s3) = dom (ranges s2) - {fst r}" by simp
      ultimately show ?thesis by (metis Diff_insert_absorb)
    qed
    moreover have "distinct (map fst (xs @ ys))" "disjoint_ranges (xs @ ys)" using di dr by simp_all
    ultimately show ?thesis using t(2) s2(4) s1(4) by (simp add: good_def)
  qed
  ultimately show ?thesis by blast
qed

lemma removes_nothing:
  assumes "good repr s rs" "\<And>r. r \<in> set rs \<Longrightarrow> rng_lo r \<noteq> l"
  shows "\<exists>s'. remove_range del l s = Some s' \<and> good repr s' rs"
proof -
  have "by_lo rs l = None" using assms(2) unfolding by_lo_None by blast
  moreover from this have "(by_lo rs)(l := None) = by_lo rs" by auto
  ultimately obtain t where "del l (lo_tree s) = Some (0, t)" "repr t (by_lo rs)"
    using del [of "lo_tree s" "by_lo rs" l] assms(1) by (auto simp: good_def found_rec_def)
  then show ?thesis using assms(1) by (simp add: remove_range_def good_def)
qed

end

section \<open>Properties\<close>

definition splay_add_range where
  "splay_add_range tree_malloc malloc = add_range tree_find_nearest (tree_insert tree_malloc) malloc"

definition splay_remove_range :: "int \<Rightarrow> stree range_set \<Rightarrow> stree range_set option" where
  "splay_remove_range = remove_range tree_remove"

definition fresh_range :: "('t range_set \<Rightarrow> ptr) \<Rightarrow> bool" where
  "fresh_range malloc \<longleftrightarrow> (\<forall>s. finite (dom (ranges s)) \<longrightarrow> malloc s \<noteq> 0 \<and> ranges s (malloc s) = None)"

definition next_range :: "'t range_set \<Rightarrow> ptr" where
  "next_range s = Suc (Max (insert 0 (dom (ranges s))))"

lemma next_range_fresh: "fresh_range next_range"
  unfolding fresh_range_def
proof (intro allI impI)
  fix s :: "'t range_set" assume f: "finite (dom (ranges s))"
  have "ranges s (next_range s) = None"
  proof (rule ccontr)
    assume "ranges s (next_range s) \<noteq> None"
    then have "next_range s \<le> Max (insert 0 (dom (ranges s)))" using f by (intro Max_ge) auto
    then show False by (simp add: next_range_def)
  qed
  then show "next_range s \<noteq> 0 \<and> ranges s (next_range s) = None" by (simp add: next_range_def)
qed

lemma new_range_set_good: "good holds (new_range_set tree_new) []"
  using tree_new_holds by (simp add: good_def new_range_set_def)

definition demo_driver :: driver where
  "demo_driver = \<lparr>heap_lo = 0, heap_hi = 1000, dbg_none = False\<rparr>"

definition one_range :: "stree range_set" where
  "one_range = \<lparr>ranges = [1 \<mapsto> \<lparr>rlo = 64, rhi = 95, rindex = 0, rnext = 0, rprev = 0\<rparr>], head = 1,
     lo_tree = \<lparr>nodes = [1 \<mapsto> \<lparr>nleft = 0, nright = 0, nparent = 0, nkey = 64, nrecord = 1\<rparr>], root = 1, node_count = 1,
       comparison_count = 0\<rparr>\<rparr>"

lemma one_range_good: "good holds one_range [(1, 64, 95, 0)]"
proof -
  have "holds (lo_tree one_range) (by_lo [(1, 64, 95, 0)])"
    unfolding holds_def by (rule exI [of _ "Node Leaf (1, 64, 1) Leaf"])
      (simp add: rep_def one_range_def node_of_def rng_lo_def key_of_def rec_of_def)
  then show ?thesis by (simp add: good_def one_range_def range_of_def rng_lo_def rng_hi_def)
qed

text \<open>Releasing the set frees every record.\<close>

lemma by_lo_member: "disjoint_ranges rs \<Longrightarrow> r \<in> set rs \<Longrightarrow> by_lo rs (rng_lo r) = Some (fst r)"
proof (induction rs)
  case (Cons a rs)
  have "rng_lo a < rng_lo r" if "r \<noteq> a"
  proof -
    have "rng_lo a \<le> rng_hi a" "rng_hi a < rng_lo r" using Cons.prems that by auto
    then show ?thesis by simp
  qed
  then show ?case using Cons by (cases "r = a") auto
qed simp

lemma free_range_set_frees:
  assumes "good holds s rs"
  shows "\<exists>s'. free_range_set s = Some s' \<and> ranges s' = Map.empty \<and> nodes (lo_tree s') = Map.empty"
proof -
  obtain fs t where f: "tree_free True (lo_tree s) = Some (fs, t)" "nodes t = Map.empty"
    "mset fs = image_mset (\<lambda>k. the (by_lo rs k)) (mset_set (dom (by_lo rs)))"
    using tree_free_holds [of "lo_tree s" "by_lo rs" True] assms by (auto simp: good_def)
  have "set_mset (mset fs) = (\<lambda>k. the (by_lo rs k)) ` rng_lo ` set rs" unfolding f(3) by (simp add: dom_by_lo)
  also have "\<dots> = fst ` set rs"
  proof -
    have "disjoint_ranges rs" using assms by (simp add: good_def)
    then have "the (by_lo rs (rng_lo r)) = fst r" if "r \<in> set rs" for r using by_lo_member that by fastforce
    then show ?thesis unfolding image_image by (rule image_cong [OF refl])
  qed
  finally have "dom (ranges s) \<subseteq> set fs" using assms by (simp add: good_def)
  then have "ranges s |` (- set fs) = Map.empty" unfolding restrict_map_def by (intro ext) (auto simp: subset_iff)
  then show ?thesis using f(1,2) by (simp add: free_range_set_def)
qed

text \<open>C37: With the splay tree of \<open>stree.c\<close>, \<open>add_range\<close> refuses an aligned block inside the heap exactly
  when it overlaps a range of the set, and otherwise links it in at its place, provided that the block
  does not lie below all ranges of the set.\<close>

theorem add_range_detects:
  assumes "good holds s rs" "fresh_malloc tree_malloc" "fresh_range malloc"
    and "0 < sz" "l mod ALIGNMENT = 0" "heap_lo d \<le> l" "l + sz - 1 \<le> heap_hi d" "\<not> dbg_none d"
    and "rs = [] \<or> rng_lo (hd rs) \<le> l"
  shows "\<exists>xs ys z s'. rs = xs @ ys \<and>
    splay_add_range tree_malloc malloc d l sz i s = Some (Inserted (\<not> overlaps l (l + sz - 1) rs), s') \<and>
    good holds s' (if overlaps l (l + sz - 1) rs then rs else xs @ (z, l, l + sz - 1, i) # ys)"
proof -
  let ?xs = "takeWhile (\<lambda>r. rng_lo r \<le> l) rs" and ?ys = "dropWhile (\<lambda>r. rng_lo r \<le> l) rs"
  have dr: "disjoint_ranges rs" using assms(1) by (simp add: good_def)
  have so: "sorted_wrt (\<lambda>r r'. rng_lo r < rng_lo r') rs"
  proof (rule sorted_wrt_mono_rel)
    show "sorted_wrt (\<lambda>r r'. rng_hi r < rng_lo r') rs" using dr by (simp add: disjoint_ranges_def)
    show "rng_lo r < rng_lo r'" if "r \<in> set rs" "rng_hi r < rng_lo r'" for r r'
      using disjoint_ranges_le [OF dr that(1)] that(2) by simp
  qed
  have ys: "l < rng_lo r" if "r \<in> set ?ys" for r
  proof (cases ?ys)
    case (Cons r' ws)
    have "l < rng_lo r'" using hd_dropWhile [of "\<lambda>r. rng_lo r \<le> l" rs] Cons by simp
    moreover have "sorted_wrt (\<lambda>r r'. rng_lo r < rng_lo r') ?ys" using so by (metis sorted_wrt_append takeWhile_dropWhile_id)
    ultimately show ?thesis using that Cons by force
  next
    case Nil
    with that have "r \<in> set []" by (simp only:)
    then show ?thesis by simp
  qed
  have xs: "rng_lo r \<le> l" if "r \<in> set ?xs" for r using set_takeWhileD [OF that] by simp
  have ne: "?xs = [] \<Longrightarrow> ?ys = []" using assms(9) by (cases rs) (auto split: if_splits)
  have fr: "malloc s \<noteq> 0 \<and> ranges s (malloc s) = None" if "finite (dom (ranges s))" for s
    using assms(3) that by (simp add: fresh_range_def)
  have om: "ordered_map holds tree_find_nearest (tree_insert tree_malloc) tree_remove" by (rule stree_ordered_map [OF assms(2)])
  have "\<exists>z s'. splay_add_range tree_malloc malloc d l sz i s = Some (Inserted (\<not> overlaps l (l + sz - 1) rs), s') \<and>
    good holds s' (if overlaps l (l + sz - 1) rs then rs else ?xs @ (z, l, l + sz - 1, i) # ?ys)"
    unfolding splay_add_range_def
    by (rule ordered_map.adds_range [OF om assms(1) fr assms(4-8) _ xs ys ne]) simp_all
  then show ?thesis using takeWhile_dropWhile_id [of "\<lambda>r. rng_lo r \<le> l" rs] by metis
qed

theorem add_range_detects_witness:
  "(\<exists>s. splay_add_range next_address next_range demo_driver 80 32 1 one_range = Some (Inserted False, s)) \<and>
   (\<exists>s. splay_add_range next_address next_range demo_driver 96 32 1 one_range = Some (Inserted True, s))"
proof -
  note add = add_range_detects [OF one_range_good next_address_fresh next_range_fresh, where d = demo_driver]
  have "\<exists>s. splay_add_range next_address next_range demo_driver 80 32 1 one_range = Some (Inserted False, s)"
    using add [of 32 80 1] by (auto simp: ALIGNMENT_def demo_driver_def overlaps_def rng_lo_def rng_hi_def)
  moreover have "\<exists>s. splay_add_range next_address next_range demo_driver 96 32 1 one_range = Some (Inserted True, s)"
    using add [of 32 96 1] by (auto simp: ALIGNMENT_def demo_driver_def overlaps_def rng_lo_def rng_hi_def)
  ultimately show ?thesis ..
qed

text \<open>C38: \<open>remove_range\<close> unlinks the range that starts at the given address and no other; the list and the
  tree stay consistent.\<close>

theorem remove_range_unlinks:
  assumes "good holds s rs"
  shows "\<exists>s'. splay_remove_range l s = Some s' \<and> good holds s' (filter (\<lambda>r. rng_lo r \<noteq> l) rs)"
proof (cases "\<exists>r \<in> set rs. rng_lo r = l")
  case False
  then have "filter (\<lambda>r. rng_lo r \<noteq> l) rs = rs" by simp
  then show ?thesis using splay_map.removes_nothing [OF assms, of l] False by (auto simp: splay_remove_range_def)
next
  case True
  then obtain xs r ys where r: "rs = xs @ r # ys" "rng_lo r = l" by (metis split_list)
  have dr: "disjoint_ranges (xs @ r # ys)" using assms r by (simp add: good_def)
  have "rng_lo r' \<noteq> l" if "r' \<in> set xs \<union> set ys" for r'
    using dr that r(2) disjoint_ranges_le [OF dr, of r'] disjoint_ranges_le [OF dr, of r] by auto
  then have "filter (\<lambda>r. rng_lo r \<noteq> l) rs = xs @ ys" using r by (simp add: filter_id_conv)
  then show ?thesis using splay_map.removes_range [of s xs r ys] assms r by (auto simp: splay_remove_range_def)
qed

theorem remove_range_unlinks_witness:
  "\<exists>s. splay_remove_range 64 one_range = Some s \<and> good holds s []"
  using remove_range_unlinks [OF one_range_good, of 64] by (simp add: rng_lo_def)

text \<open>C39: A block below all ranges of the set is not compared with them: \<open>add_range\<close> accepts every
  aligned block inside the heap that starts below the lowest range, also one that overlaps it, and the
  list consists of the new range only, while the tree holds the new range and all the others.\<close>

theorem low_range_unchecked:
  assumes "good holds s rs" "fresh_malloc tree_malloc" "fresh_range malloc"
    and "0 < sz" "l mod ALIGNMENT = 0" "heap_lo d \<le> l" "l + sz - 1 \<le> heap_hi d" "\<not> dbg_none d"
    and "\<forall>r \<in> set rs. l < rng_lo r"
  shows "\<exists>z s'. splay_add_range tree_malloc malloc d l sz i s = Some (Inserted True, s') \<and> z \<notin> fst ` set rs \<and> head s' = z \<and>
    linked (ranges s') 0 [(z, l, l + sz - 1, i)] 0 \<and> holds (lo_tree s') ((by_lo rs)(l \<mapsto> z))"
proof -
  have fr: "malloc s \<noteq> 0 \<and> ranges s (malloc s) = None" if "finite (dom (ranges s))" for s
    using assms(3) that by (simp add: fresh_range_def)
  have om: "ordered_map holds tree_find_nearest (tree_insert tree_malloc) tree_remove" by (rule stree_ordered_map [OF assms(2)])
  show ?thesis
    unfolding splay_add_range_def
    by (rule ordered_map.adds_lowest [OF om assms(1) fr assms(4-8)]) (use assms(9) in auto)
qed

lemma low_range_unchecked_witness:
  "overlaps 32 95 [(1, 64, 95, 0)] \<and>
   (\<exists>s. splay_add_range next_address next_range demo_driver 32 64 1 one_range = Some (Inserted True, s) \<and>
     linked (ranges s) 0 [(head s, 32, 95, 1)] 0)"
  using low_range_unchecked [OF one_range_good next_address_fresh next_range_fresh, where d = demo_driver, of 64 32 1]
  by (auto simp: ALIGNMENT_def demo_driver_def overlaps_def rng_lo_def rng_hi_def)

end
