(* ===== verification/Combine_Vec.thy ===== *)
theory Combine_Vec
  imports Prelude
begin

text \<open>
  The vector type of \<open>code_example_textbook/opt/vec.h\<close> and \<open>vec.c\<close>, the type of the combining
  functions of \<open>combine.h\<close>, and the laws of the operation they combine with. The element type
  and the operator are chosen by preprocessor flags in the source; here they are parameters.
\<close>

section \<open>Vectors\<close>

text \<open>The storage holds the element or, where it cannot be read, \<open>None\<close>.\<close>

record 'a vec_rec =
  len :: int
  data :: "'a option list"
  allocated_len :: int

definition at :: "'a option list \<Rightarrow> int \<Rightarrow> 'a option" where
  "at d i = (if 0 \<le> i \<and> i < int (length d) then d ! nat i else None)"

text \<open>\<open>calloc_ok\<close> says whether the allocation succeeds, \<open>zero\<close> is the element whose bytes are 0.\<close>

definition new_vec :: "bool \<Rightarrow> bool \<Rightarrow> 'a \<Rightarrow> int \<Rightarrow> 'a vec_rec option" where
  "new_vec malloc_ok calloc_ok zero n =
     (if \<not> malloc_ok then None
      else if n > 0 then
        if \<not> calloc_ok then None
        else Some \<lparr>len = n, data = replicate (nat n) (Some zero), allocated_len = n\<rparr>
      else Some \<lparr>len = n, data = [], allocated_len = n\<rparr>)"

definition get_vec_element :: "'a vec_rec \<Rightarrow> int \<Rightarrow> 'a option \<Rightarrow> c_int \<times> 'a option" where
  "get_vec_element v index dest =
     (if index < 0 \<or> index \<ge> len v then (0, dest) else (1, at (data v) index))"

definition vec_length :: "'a vec_rec \<Rightarrow> int" where
  "vec_length v = len v"

definition get_vec_start :: "'a vec_rec \<Rightarrow> 'a option list" where
  "get_vec_start v = data v"

definition set_vec_element :: "'a vec_rec \<Rightarrow> int \<Rightarrow> 'a \<Rightarrow> c_int \<times> 'a vec_rec" where
  "set_vec_element v index val =
     (if index < 0 \<or> index \<ge> len v then (0, v)
      else (1, v\<lparr>data := (data v)[nat index := Some val]\<rparr>))"

definition set_vec_length :: "'a \<Rightarrow> 'a vec_rec \<Rightarrow> int \<Rightarrow> 'a vec_rec" where
  "set_vec_length zero v newlen =
     (let v = (if newlen > allocated_len v
               then v\<lparr>data := replicate (nat newlen) (Some zero), allocated_len := newlen\<rparr> else v)
      in v\<lparr>len := newlen\<rparr>)"

text \<open>The invariant of vectors: the storage has \<open>allocated_len\<close> readable cells, of which \<open>len\<close> are in use.\<close>

definition vec_ok :: "'a vec_rec \<Rightarrow> bool" where
  "vec_ok v \<longleftrightarrow> 0 \<le> len v \<and> len v \<le> allocated_len v \<and> int (length (data v)) = allocated_len v \<and>
     None \<notin> set (data v)"

definition elements :: "'a vec_rec \<Rightarrow> 'a list" where
  "elements v = map the (take (nat (len v)) (data v))"

lemma length_elements: "vec_ok v \<Longrightarrow> length (elements v) = nat (len v)"
  by (auto simp: vec_ok_def elements_def min_def)

lemma new_vec_ok: "0 \<le> n \<Longrightarrow> new_vec m c z n = Some v \<Longrightarrow> vec_ok v \<and> elements v = replicate (nat n) z"
  by (auto simp: new_vec_def vec_ok_def elements_def split: if_splits)

lemma set_vec_element_ok:
  "vec_ok v \<Longrightarrow> vec_ok (snd (set_vec_element v i x)) \<and>
     elements (snd (set_vec_element v i x)) = (if 0 \<le> i \<and> i < len v then (elements v)[nat i := x] else elements v)"
  by (auto simp: set_vec_element_def vec_ok_def elements_def take_update_swap map_update dest!: set_update_subset_insert [THEN subsetD])

lemma set_vec_length_ok:
  "vec_ok v \<Longrightarrow> 0 \<le> n \<Longrightarrow> vec_ok (set_vec_length z v n) \<and> len (set_vec_length z v n) = n"
  by (auto simp: set_vec_length_def vec_ok_def Let_def)

lemma at_elements: "vec_ok v \<Longrightarrow> 0 \<le> i \<Longrightarrow> i < len v \<Longrightarrow> at (data v) i = Some (elements v ! nat i)"
proof -
  assume a: "vec_ok v" "0 \<le> i" "i < len v"
  then have "nat i < length (data v)" unfolding vec_ok_def by linarith
  then have "data v ! nat i \<in> set (data v)" by simp
  with a have "data v ! nat i \<noteq> None" by (metis vec_ok_def)
  with a \<open>nat i < length (data v)\<close> show ?thesis by (simp add: at_def elements_def vec_ok_def)
qed

text \<open>
  A pointer into the storage is its distance from the first cell. Storage that exists does not start within
  the first cells of the address space, so that distances compare like addresses. The storage of a vector
  without cells is the null pointer: there distances are addresses, which wrap around at the number of
  elements of the address space, for elements of eight bytes. (For other sizes it is another power of
  two; all that matters is that it exceeds the offsets of the source.)
\<close>

definition ptr_add :: "'a option list \<Rightarrow> int \<Rightarrow> int \<Rightarrow> int" where
  "ptr_add arr p k = (if arr = [] then (p + k) mod 2 ^ 61 else p + k)"

lemma ptr_add_cells: "arr \<noteq> [] \<Longrightarrow> ptr_add arr p k = p + k"
  by (simp add: ptr_add_def)

lemma at_Nil [simp]: "at [] i = None"
  by (auto simp: at_def)

section \<open>Combining functions\<close>

text \<open>
  A combining function gets the operator, lifted to unreadable values, the identity element and the vector;
  its result is the value it leaves in \<open>*dest\<close>.
\<close>

type_synonym 'a combiner = "('a option \<Rightarrow> 'a option \<Rightarrow> 'a option) \<Rightarrow> 'a option \<Rightarrow> 'a vec_rec \<Rightarrow> 'a option"

definition lift_op :: "('a \<Rightarrow> 'a \<Rightarrow> 'a) \<Rightarrow> 'a option \<Rightarrow> 'a option \<Rightarrow> 'a option" where
  "lift_op f x y = (case (x, y) of (Some a, Some b) \<Rightarrow> Some (f a b) | _ \<Rightarrow> None)"

lemma lift_op_simps [simp]: "lift_op f (Some a) (Some b) = Some (f a b)" "lift_op f None y = None" "lift_op f x None = None"
  by (simp_all add: lift_op_def split: option.splits)

text \<open>What they are to compute: the elements before index \<open>n\<close>, combined from left to right.\<close>

definition combined :: "('a option \<Rightarrow> 'a option \<Rightarrow> 'a option) \<Rightarrow> 'a option \<Rightarrow> 'a option list \<Rightarrow> int \<Rightarrow> 'a option" where
  "combined OP e d n = foldl OP e (map (at d) [0..n - 1])"

named_theorems combined_simps "the combined prefix, one element longer"

lemma combined_0 [simp]: "combined OP e d 0 = e"
  by (simp add: combined_def)

lemma combined_1 [combined_simps]: "0 \<le> n \<Longrightarrow> combined OP e d (n + 1) = OP (combined OP e d n) (at d n)"
  by (simp add: combined_def upto_rec2)

lemma combined_numeral [combined_simps]:
  "0 \<le> n \<Longrightarrow> combined OP e d (n + numeral k) = OP (combined OP e d (n + (numeral k - 1))) (at d (n + (numeral k - 1)))"
proof -
  assume n: "0 \<le> n"
  have "1 \<le> (numeral k :: int)" by (rule one_le_numeral)
  with n have "0 \<le> n + (numeral k - 1)" by linarith
  then have "combined OP e d (n + (numeral k - 1) + 1) = OP (combined OP e d (n + (numeral k - 1))) (at d (n + (numeral k - 1)))"
    by (rule combined_1)
  moreover have "n + (numeral k - 1) + 1 = n + numeral k" by linarith
  ultimately show ?thesis by (simp only:)
qed

text \<open>The combination of \<open>k\<close> elements from index \<open>i\<close> on.\<close>

definition segment :: "('a option \<Rightarrow> 'a option \<Rightarrow> 'a option) \<Rightarrow> 'a option \<Rightarrow> 'a option list \<Rightarrow> int \<Rightarrow> int \<Rightarrow> 'a option" where
  "segment OP e d i k = foldl OP e (map (at d) [i..i + k - 1])"

lemma segment_0 [simp]: "segment OP e d i 0 = e"
  by (simp add: segment_def)

lemma segment_1: "0 \<le> k \<Longrightarrow> segment OP e d i (k + 1) = OP (segment OP e d i k) (at d (i + k))"
  by (simp add: segment_def upto_rec2 add.assoc [symmetric])

text \<open>On a well-formed vector this is the fold of the operator over the elements.\<close>

lemma combined_take:
  assumes "vec_ok v" "int n \<le> len v"
  shows "combined (lift_op f) (Some e) (data v) (int n) = Some (foldl f e (take n (elements v)))"
  using assms(2)
proof (induction n)
  case (Suc n)
  have "n < length (elements v)" using Suc.prems assms(1) by (simp add: elements_def vec_ok_def)
  moreover have "combined (lift_op f) (Some e) (data v) (int n + 1)
      = lift_op f (combined (lift_op f) (Some e) (data v) (int n)) (at (data v) (int n))"
    by (rule combined_1) simp
  ultimately show ?case using Suc at_elements [OF assms(1), of "int n"]
    by (simp add: take_Suc_conv_app_nth add.commute)
qed simp

lemma combined_elements:
  "vec_ok v \<Longrightarrow> combined (lift_op f) (Some e) (data v) (len v) = Some (foldl f e (elements v))"
  using combined_take [of v "nat (len v)" f e] by (simp add: vec_ok_def elements_def)

text \<open>
  The shape the unrolled functions share: a loop that takes \<open>k\<close> elements at a time up to \<open>lim\<close>, one that
  takes the rest one by one, and an expression that brings the accumulators together. If that
  expression is the combined prefix at every iteration, the result is the combination of all.
\<close>

lemma unrolled:
  assumes "0 < k" "0 \<le> n" and lim: "\<And>i. 0 \<le> i \<Longrightarrow> k dvd i \<Longrightarrow> i < lim \<Longrightarrow> i + k \<le> n"
    and init: "res s0 = combined OP e d 0"
    and main: "\<And>i s. 0 \<le> i \<Longrightarrow> combined OP e d i = res s \<Longrightarrow> res (body i s) = combined OP e d (i + k)"
    and rest: "\<And>i s. 0 \<le> i \<Longrightarrow> combined OP e d i = res s \<Longrightarrow> res (tail i s) = combined OP e d (i + 1)"
  shows "(case for_up 0 lim k body s0 of (i, s) \<Rightarrow> case for_up i n 1 tail s of (i, s) \<Rightarrow> res s) = combined OP e d n"
proof -
  obtain i s where 1: "for_up 0 lim k body s0 = (i, s)" by force
  obtain j t where 2: "for_up i n 1 tail s = (j, t)" by force
  have "0 \<le> i \<and> i \<le> n \<and> k dvd i \<and> res s = combined OP e d i"
    using for_up_rule [of "\<lambda>i s. 0 \<le> i \<and> i \<le> n \<and> k dvd i \<and> res s = combined OP e d i" 0 s0 k lim body] assms
    unfolding 1 by force
  then have "0 \<le> j \<and> j \<le> n \<and> res t = combined OP e d j \<and> \<not> j < n"
    using for_up_rule [of "\<lambda>i s. 0 \<le> i \<and> i \<le> n \<and> res s = combined OP e d i" i s 1 n tail] rest
    unfolding 2 by force
  then have "j = n" "res t = combined OP e d j" by simp_all
  then show ?thesis by (simp add: 1 2)
qed

text \<open>One loop only.\<close>

lemma one_loop:
  assumes "0 \<le> n" and init: "res s0 = combined OP e d 0"
    and rest: "\<And>i s. 0 \<le> i \<Longrightarrow> i < n \<Longrightarrow> combined OP e d i = res s \<Longrightarrow> res (body i s) = combined OP e d (i + 1)"
  shows "(case for_up 0 n 1 body s0 of (i, s) \<Rightarrow> res s) = combined OP e d n"
proof -
  obtain j t where 2: "for_up 0 n 1 body s0 = (j, t)" by force
  have "0 \<le> j \<and> j \<le> n \<and> res t = combined OP e d j \<and> \<not> j < n"
    using for_up_rule [of "\<lambda>i s. 0 \<le> i \<and> i \<le> n \<and> res s = combined OP e d i" 0 s0 1 n body] assms
    unfolding 2 by force
  then have "j = n" "res t = combined OP e d j" by simp_all
  then show ?thesis by (simp add: 2)
qed

text \<open>
  A loop over pointers that reads through the null pointer: one of the accumulators is unreadable from the
  first iteration on, and the loop over the rest has nothing to do.
\<close>

lemma null_walk:
  assumes "0 < lim" "0 < k" "n \<le> 0" and body: "\<And>i s. acc (body i s) = None" and res: "\<And>s. acc s = None \<Longrightarrow> res s = None"
  shows "(case for_up 0 lim k body s0 of (i, s) \<Rightarrow> case for_up i n 1 tail s of (i, s) \<Rightarrow> res s) = None"
proof -
  obtain i s where 1: "for_up 0 lim k body s0 = (i, s)" by force
  have "(0 \<le> i \<and> (i = 0 \<or> acc s = None)) \<and> \<not> i < lim"
    using for_up_rule [of "\<lambda>i s. 0 \<le> i \<and> (i = 0 \<or> acc s = None)" 0 s0 k lim body] assms(2) body unfolding 1 by force
  then show ?thesis using assms(1,3) res by (auto simp: 1)
qed

section \<open>Laws of the operation\<close>

text \<open>An associative operation with a neutral element: what reassociating the loop body relies on.\<close>

locale assoc_op =
  fixes OP :: "'a option \<Rightarrow> 'a option \<Rightarrow> 'a option" and e :: "'a option"
  assumes assoc: "OP (OP a b) c = OP a (OP b c)"
    and left_neutral: "OP e a = a"
    and right_neutral: "OP a e = a"
begin

lemma combined_segment:
  assumes "0 \<le> i" "0 \<le> k"
  shows "combined OP e d (i + k) = OP (combined OP e d i) (segment OP e d i k)"
  using assms(2)
proof (induction k rule: int_ge_induct)
  case (step k)
  then show ?case using assms(1) combined_1 [of "i + k" OP e d] segment_1 [of k OP e d i]
    by (simp add: add.assoc [symmetric] assoc)
qed (simp add: right_neutral)

end

text \<open>What several accumulators rely on: the order does not matter either.\<close>

locale comm_op = assoc_op +
  assumes commute: "OP a b = OP b a"
begin

lemma left_commute: "OP a (OP b c) = OP b (OP a c)"
  by (metis assoc commute)

lemmas ac = assoc commute left_commute left_neutral right_neutral

end

text \<open>Sums and products of machine integers of any width.\<close>

interpretation sum_op: comm_op "lift_op ((+) :: 'a::len word \<Rightarrow> _)" "Some 0"
  by unfold_locales (auto simp: lift_op_def ac_simps split: option.splits)

interpretation product_op: comm_op "lift_op ((*) :: 'a::len word \<Rightarrow> _)" "Some 1"
  by unfold_locales (auto simp: lift_op_def ac_simps split: option.splits)

end
