(* ===== verification/Combine_Loops.thy ===== *)
theory Combine_Loops
  imports Combine_Vec
begin

text \<open>
  The combining functions of \<open>code_example_textbook/opt/combine.c\<close> that are plain C loops, in the order
  of the laws they rely on: those that combine the elements in order, those that reassociate, those
  that work on the two halves of the vector and those with several accumulators. A pointer into the
  vector is its distance from the first cell; the loops over pointers and over indices are both
  \<open>for_up\<close>. Each function is shown equal to the combination of all elements from left to right; those
  that form a pointer before the first cell need a vector with cells, and read through the null pointer
  otherwise.
\<close>

section \<open>Functions that keep the order of the elements\<close>

text \<open>
  The first functions accumulate in \<open>*dest\<close>, which may point into the vector: \<open>Apart\<close> is a cell of its
  own, \<open>Elem k\<close> the cell of element \<open>k\<close>. The store is the vector and the cell of its own.
\<close>

datatype dest = Apart | Elem int

type_synonym 'a store = "'a vec_rec \<times> 'a option"

definition get_dest :: "dest \<Rightarrow> 'a store \<Rightarrow> 'a option" where
  "get_dest dest s = (case dest of Apart \<Rightarrow> snd s | Elem k \<Rightarrow> at (data (fst s)) k)"

definition put_dest :: "dest \<Rightarrow> 'a option \<Rightarrow> 'a store \<Rightarrow> 'a store" where
  "put_dest dest x s =
     (case dest of Apart \<Rightarrow> (fst s, x) | Elem k \<Rightarrow> ((fst s)\<lparr>data := (data (fst s))[nat k := x]\<rparr>, snd s))"

lemma len_put_dest [simp]: "len (fst (put_dest dest x s)) = len (fst s)"
  by (simp add: put_dest_def split: dest.split)

text \<open>\<open>combine1\<close> asks for the length before every iteration.\<close>

function combine1_loop :: "dest \<Rightarrow> ('a option \<Rightarrow> 'a option \<Rightarrow> 'a option) \<Rightarrow> int \<Rightarrow> 'a store \<Rightarrow> 'a store" where
  "combine1_loop dest OP i s =
     (if i < vec_length (fst s) then
        let (ok, val) = get_vec_element (fst s) i None
        in combine1_loop dest OP (i + 1) (put_dest dest (OP (get_dest dest s) val) s)
      else s)"
  by pat_completeness auto
termination
  by (relation "measure (\<lambda>(dest, OP, i, s). nat (len (fst s) - i))") (auto simp: vec_length_def)

declare combine1_loop.simps [simp del]

definition combine1 :: "dest \<Rightarrow> 'a combiner" where
  "combine1 dest OP IDENT v = get_dest dest (combine1_loop dest OP 0 (put_dest dest IDENT (v, None)))"

definition combine2 :: "dest \<Rightarrow> 'a combiner" where
  "combine2 dest OP IDENT v =
     (let length = vec_length v;
          s = put_dest dest IDENT (v, None);
          (i, s) = for_up 0 length 1 (\<lambda>i s.
            let (ok, val) = get_vec_element (fst s) i None
            in put_dest dest (OP (get_dest dest s) val) s) s
      in get_dest dest s)"

definition combine3 :: "dest \<Rightarrow> 'a combiner" where
  "combine3 dest OP IDENT v =
     (let length = vec_length v;
          s = put_dest dest IDENT (v, None);
          (i, s) = for_up 0 length 1 (\<lambda>i s.
            put_dest dest (OP (get_dest dest s) (at (get_vec_start (fst s)) i)) s) s
      in get_dest dest s)"

definition combine3w :: "dest \<Rightarrow> 'a combiner" where
  "combine3w dest OP IDENT v =
     (let length = vec_length v;
          acc = IDENT;
          s = put_dest dest acc (v, None);
          (i, acc, s) = for_up 0 length 1 (\<lambda>i (acc, s).
            let acc = OP acc (at (get_vec_start (fst s)) i)
            in (acc, put_dest dest acc s)) (acc, s)
      in get_dest dest s)"

definition combine4b :: "'a combiner" where
  "combine4b OP IDENT v =
     (let length = vec_length v;
          acc = IDENT;
          (i, acc) = for_up 0 length 1 (\<lambda>i acc.
            if i \<ge> 0 \<and> i < len v then OP acc (at (data v) i) else acc) acc
      in acc)"

definition unroll2aw_combine :: "'a combiner" where
  "unroll2aw_combine OP IDENT v =
     (let length = vec_length v;
      limit = length - 1;
      data = get_vec_start v;
      acc = IDENT;
      (i, acc) = for_up 0 limit 2 (\<lambda>i acc.
        let acc = OP acc (at data i);
            i = i + 2;
            acc = OP acc (at data (i - 1))
        in acc) acc;
      (i, acc) = for_up i length 1 (\<lambda>i acc.
        let acc = OP acc (at data i)
        in acc) acc
      in acc)"

definition combine4 :: "'a combiner" where
  "combine4 OP IDENT v =
     (let length = vec_length v;
      data = get_vec_start v;
      acc = IDENT;
      (i, acc) = for_up 0 length 1 (\<lambda>i acc.
        let acc = OP acc (at data i)
        in acc) acc
      in acc)"

definition combine4p :: "'a combiner" where
  "combine4p OP IDENT v =
     (let length = vec_length v;
      arr = get_vec_start v;
      data = 0;
      dend = data + length;
      acc = IDENT;
      (data, acc) = for_up data dend 1 (\<lambda>data acc.
        let acc = OP acc (at arr data)
        in acc) acc
      in acc)"

definition combine5 :: "'a combiner" where
  "combine5 OP IDENT v =
     (let length = vec_length v;
      limit = length - 1;
      data = get_vec_start v;
      acc = IDENT;
      (i, acc) = for_up 0 limit 2 (\<lambda>i acc.
        let acc = OP (OP acc (at data i)) (at data (i + 1))
        in acc) acc;
      (i, acc) = for_up i length 1 (\<lambda>i acc.
        let acc = OP acc (at data i)
        in acc) acc
      in acc)"

definition unroll3a_combine :: "'a combiner" where
  "unroll3a_combine OP IDENT v =
     (let length = vec_length v;
      limit = length - 2;
      data = get_vec_start v;
      acc = IDENT;
      (i, acc) = for_up 0 limit 3 (\<lambda>i acc.
        let acc = OP acc (at data i);
            acc = OP acc (at data (i + 1));
            acc = OP acc (at data (i + 2))
        in acc) acc;
      (i, acc) = for_up i length 1 (\<lambda>i acc.
        let acc = OP acc (at data i)
        in acc) acc
      in acc)"

definition combine5p :: "'a combiner" where
  "combine5p OP IDENT v =
     (let arr = get_vec_start v;
      data = 0;
      dend = ptr_add arr data (vec_length v);
      dlimit = ptr_add arr dend (- 1);
      acc = IDENT;
      (data, acc) = for_up data dlimit 2 (\<lambda>data acc.
        let acc = OP (OP acc (at arr data)) (at arr (data + 1))
        in acc) acc;
      (data, acc) = for_up data dend 1 (\<lambda>data acc.
        let acc = OP acc (at arr data)
        in acc) acc
      in acc)"

definition unroll4a_combine :: "'a combiner" where
  "unroll4a_combine OP IDENT v =
     (let length = vec_length v;
      limit = length - 3;
      data = get_vec_start v;
      acc = IDENT;
      (i, acc) = for_up 0 limit 4 (\<lambda>i acc.
        let acc = OP (OP acc (at data i)) (at data (i + 1));
            acc = OP (OP acc (at data (i + 2))) (at data (i + 3))
        in acc) acc;
      (i, acc) = for_up i length 1 (\<lambda>i acc.
        let acc = OP acc (at data i)
        in acc) acc
      in acc)"

definition unroll5a_combine :: "'a combiner" where
  "unroll5a_combine OP IDENT v =
     (let length = vec_length v;
      limit = length - 4;
      data = get_vec_start v;
      acc = IDENT;
      (i, acc) = for_up 0 limit 5 (\<lambda>i acc.
        let acc = OP (OP acc (at data i)) (at data (i + 1));
            acc = OP (OP acc (at data (i + 2))) (at data (i + 3));
            acc = OP acc (at data (i + 4))
        in acc) acc;
      (i, acc) = for_up i length 1 (\<lambda>i acc.
        let acc = OP acc (at data i)
        in acc) acc
      in acc)"

definition unroll6a_combine :: "'a combiner" where
  "unroll6a_combine OP IDENT v =
     (let length = vec_length v;
      limit = length - 5;
      data = get_vec_start v;
      acc = IDENT;
      (i, acc) = for_up 0 limit 6 (\<lambda>i acc.
        let acc = OP (OP acc (at data i)) (at data (i + 1));
            acc = OP (OP acc (at data (i + 2))) (at data (i + 3));
            acc = OP (OP acc (at data (i + 4))) (at data (i + 5))
        in acc) acc;
      (i, acc) = for_up i length 1 (\<lambda>i acc.
        let acc = OP acc (at data i)
        in acc) acc
      in acc)"

definition unroll7a_combine :: "'a combiner" where
  "unroll7a_combine OP IDENT v =
     (let length = vec_length v;
      limit = length - 6;
      data = get_vec_start v;
      acc = IDENT;
      (i, acc) = for_up 0 limit 7 (\<lambda>i acc.
        let acc = OP (OP acc (at data i)) (at data (i + 1));
            acc = OP (OP acc (at data (i + 2))) (at data (i + 3));
            acc = OP (OP acc (at data (i + 4))) (at data (i + 5));
            acc = OP acc (at data (i + 6))
        in acc) acc;
      (i, acc) = for_up i length 1 (\<lambda>i acc.
        let acc = OP acc (at data i)
        in acc) acc
      in acc)"

definition unroll8a_combine :: "'a combiner" where
  "unroll8a_combine OP IDENT v =
     (let length = vec_length v;
      limit = length - 7;
      data = get_vec_start v;
      acc = IDENT;
      (i, acc) = for_up 0 limit 8 (\<lambda>i acc.
        let acc = OP (OP acc (at data i)) (at data (i + 1));
            acc = OP (OP acc (at data (i + 2))) (at data (i + 3));
            acc = OP (OP acc (at data (i + 4))) (at data (i + 5));
            acc = OP (OP acc (at data (i + 6))) (at data (i + 7))
        in acc) acc;
      (i, acc) = for_up i length 1 (\<lambda>i acc.
        let acc = OP acc (at data i)
        in acc) acc
      in acc)"

definition unroll9a_combine :: "'a combiner" where
  "unroll9a_combine OP IDENT v =
     (let length = vec_length v;
      limit = length - 8;
      data = get_vec_start v;
      acc = IDENT;
      (i, acc) = for_up 0 limit 9 (\<lambda>i acc.
        let acc = OP (OP acc (at data i)) (at data (i + 1));
            acc = OP (OP acc (at data (i + 2))) (at data (i + 3));
            acc = OP (OP acc (at data (i + 4))) (at data (i + 5));
            acc = OP (OP acc (at data (i + 6))) (at data (i + 7));
            acc = OP acc (at data (i + 8))
        in acc) acc;
      (i, acc) = for_up i length 1 (\<lambda>i acc.
        let acc = OP acc (at data i)
        in acc) acc
      in acc)"

definition unroll10a_combine :: "'a combiner" where
  "unroll10a_combine OP IDENT v =
     (let length = vec_length v;
      limit = length - 9;
      data = get_vec_start v;
      acc = IDENT;
      (i, acc) = for_up 0 limit 10 (\<lambda>i acc.
        let acc = OP (OP acc (at data i)) (at data (i + 1));
            acc = OP (OP acc (at data (i + 2))) (at data (i + 3));
            acc = OP (OP acc (at data (i + 4))) (at data (i + 5));
            acc = OP (OP acc (at data (i + 6))) (at data (i + 7));
            acc = OP (OP acc (at data (i + 8))) (at data (i + 9))
        in acc) acc;
      (i, acc) = for_up i length 1 (\<lambda>i acc.
        let acc = OP acc (at data i)
        in acc) acc
      in acc)"

definition unroll16a_combine :: "'a combiner" where
  "unroll16a_combine OP IDENT v =
     (let length = vec_length v;
      limit = length - 15;
      data = get_vec_start v;
      acc = IDENT;
      (i, acc) = for_up 0 limit 16 (\<lambda>i acc.
        let acc = OP (OP acc (at data i)) (at data (i + 1));
            acc = OP (OP acc (at data (i + 2))) (at data (i + 3));
            acc = OP (OP acc (at data (i + 4))) (at data (i + 5));
            acc = OP (OP acc (at data (i + 6))) (at data (i + 7));
            acc = OP (OP acc (at data (i + 8))) (at data (i + 9));
            acc = OP (OP acc (at data (i + 10))) (at data (i + 11));
            acc = OP (OP acc (at data (i + 12))) (at data (i + 13));
            acc = OP (OP acc (at data (i + 14))) (at data (i + 15))
        in acc) acc;
      (i, acc) = for_up i length 1 (\<lambda>i acc.
        let acc = OP acc (at data i)
        in acc) acc
      in acc)"

definition unroll2_combine :: "'a combiner" where
  "unroll2_combine OP IDENT v =
     (let length = vec_length v;
      arr = get_vec_start v;
      data = 0;
      over = length mod 2;
      dend = data + length - over;
      acc = IDENT;
      (data, acc) = for_up data dend 2 (\<lambda>data acc.
        let acc = OP acc (at arr data);
            acc = OP acc (at arr (data + 1))
        in acc) acc;
      dend = dend + over;
      (data, acc) = for_up data dend 1 (\<lambda>data acc.
        let acc = OP acc (at arr data)
        in acc) acc
      in acc)"

definition unroll3_combine :: "'a combiner" where
  "unroll3_combine OP IDENT v =
     (let length = vec_length v;
      arr = get_vec_start v;
      data = 0;
      dend = ptr_add arr (ptr_add arr data length) (- 2);
      acc = IDENT;
      (data, acc) = for_up data dend 3 (\<lambda>data acc.
        let acc = OP acc (at arr data);
            acc = OP acc (at arr (data + 1));
            acc = OP acc (at arr (data + 2))
        in acc) acc;
      dend = ptr_add arr dend 2;
      (data, acc) = for_up data dend 1 (\<lambda>data acc.
        let acc = OP acc (at arr data)
        in acc) acc
      in acc)"

definition unroll4_combine :: "'a combiner" where
  "unroll4_combine OP IDENT v =
     (let length = vec_length v;
      arr = get_vec_start v;
      data = 0;
      dend = ptr_add arr (ptr_add arr data length) (- 3);
      acc = IDENT;
      (data, acc) = for_up data dend 4 (\<lambda>data acc.
        let acc = OP acc (at arr data);
            acc = OP acc (at arr (data + 1));
            acc = OP acc (at arr (data + 2));
            acc = OP acc (at arr (data + 3))
        in acc) acc;
      dend = ptr_add arr dend 3;
      (data, acc) = for_up data dend 1 (\<lambda>data acc.
        let acc = OP acc (at arr data)
        in acc) acc
      in acc)"

definition unroll8_combine :: "'a combiner" where
  "unroll8_combine OP IDENT v =
     (let length = vec_length v;
      arr = get_vec_start v;
      data = 0;
      over = length mod 8;
      dend = data + length - over;
      acc = IDENT;
      (data, acc) = for_up data dend 8 (\<lambda>data acc.
        let acc = OP acc (at arr data);
            acc = OP acc (at arr (data + 1));
            acc = OP acc (at arr (data + 2));
            acc = OP acc (at arr (data + 3));
            acc = OP acc (at arr (data + 4));
            acc = OP acc (at arr (data + 5));
            acc = OP acc (at arr (data + 6));
            acc = OP acc (at arr (data + 7))
        in acc) acc;
      dend = dend + over;
      (data, acc) = for_up data dend 1 (\<lambda>data acc.
        let acc = OP acc (at arr data)
        in acc) acc
      in acc)"

definition unroll16_combine :: "'a combiner" where
  "unroll16_combine OP IDENT v =
     (let length = vec_length v;
      arr = get_vec_start v;
      data = 0;
      over = length mod 16;
      dend = data + length - over;
      acc = IDENT;
      (data, acc) = for_up data dend 16 (\<lambda>data acc.
        let acc = OP acc (at arr data);
            acc = OP acc (at arr (data + 1));
            acc = OP acc (at arr (data + 2));
            acc = OP acc (at arr (data + 3));
            acc = OP acc (at arr (data + 4));
            acc = OP acc (at arr (data + 5));
            acc = OP acc (at arr (data + 6));
            acc = OP acc (at arr (data + 7));
            acc = OP acc (at arr (data + 8));
            acc = OP acc (at arr (data + 9));
            acc = OP acc (at arr (data + 10));
            acc = OP acc (at arr (data + 11));
            acc = OP acc (at arr (data + 12));
            acc = OP acc (at arr (data + 13));
            acc = OP acc (at arr (data + 14));
            acc = OP acc (at arr (data + 15))
        in acc) acc;
      dend = dend + over;
      (data, acc) = for_up data dend 1 (\<lambda>data acc.
        let acc = OP acc (at arr data)
        in acc) acc
      in acc)"

text \<open>No law is needed: whatever the operator, the loop invariant is equality with the combined prefix.\<close>

lemmas loop_defs = vec_length_def get_vec_start_def Let_def diff_add_cancel add_0

lemma there_and_back: "n + - k + k = (n :: int)"
  by simp

lemmas pointer_defs = loop_defs ptr_add_cells there_and_back

lemma whole_blocks: "0 \<le> n \<Longrightarrow> 0 < k \<Longrightarrow> k dvd i \<Longrightarrow> i < n - n mod k \<Longrightarrow> i + k \<le> n" for n k i :: int
proof -
  assume a: "0 \<le> n" "0 < k" "k dvd i" "i < n - n mod k"
  then have "k dvd (n - n mod k) - i" by (simp add: dvd_diff)
  with a(4) have "k \<le> (n - n mod k) - i" by (intro zdvd_imp_le) auto
  with pos_mod_sign [OF a(2), of n] show ?thesis by linarith
qed

text \<open>
  The functions that accumulate in \<open>*dest\<close> compute the same when it is a cell of its own. When it is
  element \<open>k\<close>, they read there what they have accumulated by then.
\<close>

definition aliased :: "dest \<Rightarrow> ('a option \<Rightarrow> 'a option \<Rightarrow> 'a option) \<Rightarrow> 'a option \<Rightarrow> 'a vec_rec \<Rightarrow> 'a option list" where
  "aliased dest OP e v =
     (case dest of Apart \<Rightarrow> data v | Elem k \<Rightarrow> (data v)[nat k := combined OP e (data v) k])"

definition dest_ok :: "dest \<Rightarrow> 'a vec_rec \<Rightarrow> bool" where
  "dest_ok dest v = (case dest of Apart \<Rightarrow> True | Elem k \<Rightarrow> 0 \<le> k \<and> k < int (length (data v)))"

lemma get_put_dest: "dest_ok dest v \<Longrightarrow> get_dest dest (put_dest dest x (v, c)) = x"
  by (auto simp: dest_ok_def get_dest_def put_dest_def at_def split: dest.splits)

lemma put_put_dest: "put_dest dest y (put_dest dest x s) = put_dest dest y s"
  by (auto simp: put_dest_def split: dest.splits)

lemma combined_cong: "(\<And>j. 0 \<le> j \<Longrightarrow> j < n \<Longrightarrow> at d j = at d' j) \<Longrightarrow> combined OP e d n = combined OP e d' n"
  unfolding combined_def by (rule arg_cong [where f = "foldl OP e"], rule map_cong) auto

lemma at_dest:
  assumes "dest_ok dest v" "0 \<le> i"
  shows "at (data (fst (put_dest dest (combined OP e (aliased dest OP e v) i) (v, c)))) i = at (aliased dest OP e v) i"
proof (cases dest)
  case (Elem k)
  then have k: "0 \<le> k" "k < int (length (data v))" using assms by (simp_all add: dest_ok_def)
  have "combined OP e ((data v)[nat k := x]) k = combined OP e (data v) k" for x
    by (rule combined_cong) (simp add: at_def k nth_list_update_neq)
  then show ?thesis using assms k by (cases "i = k") (auto simp: Elem put_dest_def aliased_def at_def nth_list_update)
qed (simp add: put_dest_def aliased_def)

lemma dest_step:
  assumes "dest_ok dest v" "0 \<le> i" and s: "s = put_dest dest (combined OP e (aliased dest OP e v) i) (v, None)"
  shows "put_dest dest (OP (get_dest dest s) (at (data (fst s)) i)) s = put_dest dest (combined OP e (aliased dest OP e v) (i + 1)) (v, None)"
    and "OP (combined OP e (aliased dest OP e v) i) (at (data (fst s)) i) = combined OP e (aliased dest OP e v) (i + 1)"
  using at_dest [OF assms(1,2), of OP e None] by (simp_all add: s get_put_dest [OF assms(1)] put_put_dest combined_1 assms(2))

lemma dest_loop:
  assumes v: "vec_ok v" "dest_ok dest v"
    and body: "\<And>i s. 0 \<le> i \<Longrightarrow> i < len v \<Longrightarrow> len (fst s) = len v \<Longrightarrow>
      body i s = put_dest dest (OP (get_dest dest s) (at (data (fst s)) i)) s"
  shows "(case for_up 0 (len v) 1 body (put_dest dest e (v, None)) of (i, s) \<Rightarrow> get_dest dest s) = combined OP e (aliased dest OP e v) (len v)"
proof -
  obtain i s where r: "for_up 0 (len v) 1 body (put_dest dest e (v, None)) = (i, s)" by (rule prod.exhaust)
  let ?s = "\<lambda>i. put_dest dest (combined OP e (aliased dest OP e v) i) (v, None)"
  have "body i (?s i) = ?s (i + 1)" if "0 \<le> i" "i < len v" for i
    using that dest_step(1) [OF v(2) that(1) refl] by (simp add: body)
  then have "0 \<le> i \<and> i \<le> len v \<and> s = ?s i \<and> \<not> i < len v"
    using for_up_rule [of "\<lambda>i s. 0 \<le> i \<and> i \<le> len v \<and> s = ?s i" 0 "put_dest dest e (v, None)" 1 "len v" body] v(1)
    unfolding r vec_ok_def by force
  then have "i = len v" "s = ?s i" by simp_all
  then show ?thesis by (simp add: r get_put_dest [OF v(2)])
qed

lemma combine2_eq: "vec_ok v \<Longrightarrow> dest_ok dest v \<Longrightarrow> combine2 dest OP e v = combined OP e (aliased dest OP e v) (len v)"
  unfolding combine2_def loop_defs by (rule dest_loop) (simp_all add: get_vec_element_def)

lemma combine3_eq: "vec_ok v \<Longrightarrow> dest_ok dest v \<Longrightarrow> combine3 dest OP e v = combined OP e (aliased dest OP e v) (len v)"
  unfolding combine3_def loop_defs by (rule dest_loop) simp_all

lemma combine3w_eq:
  assumes "vec_ok v" "dest_ok dest v"
  shows "combine3w dest OP e v = combined OP e (aliased dest OP e v) (len v)"
proof -
  let ?body = "\<lambda>i (acc, s). (OP acc (at (data (fst s)) i), put_dest dest (OP acc (at (data (fst s)) i)) s)"
  let ?c = "combined OP e (aliased dest OP e v)"
  obtain i a s where r: "for_up 0 (len v) 1 ?body (e, put_dest dest e (v, None)) = (i, a, s)" by (cases "for_up 0 (len v) 1 ?body (e, put_dest dest e (v, None))")
  have "0 \<le> i \<and> i \<le> len v \<and> (a, s) = (?c i, put_dest dest (?c i) (v, None)) \<and> \<not> i < len v"
    using for_up_rule [of "\<lambda>i s. 0 \<le> i \<and> i \<le> len v \<and> s = (?c i, put_dest dest (?c i) (v, None))"
        0 "(e, put_dest dest e (v, None))" 1 "len v" ?body] dest_step(2) [OF assms(2) _ refl] assms(1)
    unfolding r vec_ok_def by (force simp: put_put_dest)
  then have "i = len v" "s = put_dest dest (?c i) (v, None)" by simp_all
  then show ?thesis by (simp add: combine3w_def loop_defs r get_put_dest [OF assms(2)])
qed

text \<open>Within the bounds \<open>get_vec_element\<close> reads what the direct access reads.\<close>

lemma combine1_loop_eq:
  assumes "dest_ok dest v" "0 \<le> i" "i \<le> len v"
  shows "combine1_loop dest OP i (put_dest dest (combined OP e (aliased dest OP e v) i) (v, None))
    = put_dest dest (combined OP e (aliased dest OP e v) (len v)) (v, None)"
  using assms(2,3)
proof (induction "nat (len v - i)" arbitrary: i)
  case 0
  then show ?case by (subst combine1_loop.simps) (simp add: vec_length_def)
next
  case (Suc n)
  let ?s = "put_dest dest (combined OP e (aliased dest OP e v) i) (v, None)"
  have lt: "i < len v" using Suc by simp
  have "combine1_loop dest OP i ?s = combine1_loop dest OP (i + 1) (put_dest dest (OP (get_dest dest ?s) (at (data (fst ?s)) i)) ?s)"
    by (subst combine1_loop.simps) (use lt Suc.prems in \<open>simp add: vec_length_def get_vec_element_def\<close>)
  also have "\<dots> = combine1_loop dest OP (i + 1) (put_dest dest (combined OP e (aliased dest OP e v) (i + 1)) (v, None))"
    by (simp only: dest_step(1) [OF assms(1) Suc.prems(1) refl])
  also have "\<dots> = put_dest dest (combined OP e (aliased dest OP e v) (len v)) (v, None)"
    by (rule Suc.hyps(1)) (use Suc.hyps(2) Suc.prems lt in simp_all)
  finally show ?case .
qed

lemma combine1_eq:
  assumes "vec_ok v" "dest_ok dest v"
  shows "combine1 dest OP e v = combined OP e (aliased dest OP e v) (len v)"
  using combine1_loop_eq [OF assms(2), of 0 OP e] assms by (simp add: combine1_def vec_ok_def get_put_dest)

lemma combine4b_eq: "0 \<le> len v \<Longrightarrow> combine4b OP e v = combined OP e (data v) (len v)"
  unfolding combine4b_def loop_defs
  by (rule one_loop) (simp_all add: combined_simps)

lemma unroll2aw_combine_eq: "0 \<le> len v \<Longrightarrow> unroll2aw_combine OP e v = combined OP e (data v) (len v)"
  unfolding unroll2aw_combine_def loop_defs
  by (rule unrolled) (simp_all add: combined_simps add.commute [of 1])

lemma combine4_eq: "0 \<le> len v \<Longrightarrow> combine4 OP e v = combined OP e (data v) (len v)"
  unfolding combine4_def loop_defs
  by (rule one_loop) (simp_all add: combined_simps)

lemma combine4p_eq: "0 \<le> len v \<Longrightarrow> combine4p OP e v = combined OP e (data v) (len v)"
  unfolding combine4p_def loop_defs
  by (rule one_loop) (simp_all add: combined_simps)

lemma combine5_eq: "0 \<le> len v \<Longrightarrow> combine5 OP e v = combined OP e (data v) (len v)"
  unfolding combine5_def loop_defs
  by (rule unrolled) (simp_all add: combined_simps)

lemma unroll3a_combine_eq: "0 \<le> len v \<Longrightarrow> unroll3a_combine OP e v = combined OP e (data v) (len v)"
  unfolding unroll3a_combine_def loop_defs
  by (rule unrolled) (simp_all add: combined_simps)

lemma combine5p_eq:
  assumes "0 \<le> len v" "data v \<noteq> []" shows "combine5p OP e v = combined OP e (data v) (len v)"
  unfolding combine5p_def loop_defs ptr_add_cells [OF assms(2)] there_and_back add_0
  by (rule unrolled) (use assms(1) in \<open>simp_all add: combined_simps\<close>)

lemma unroll4a_combine_eq: "0 \<le> len v \<Longrightarrow> unroll4a_combine OP e v = combined OP e (data v) (len v)"
  unfolding unroll4a_combine_def loop_defs
  by (rule unrolled) (simp_all add: combined_simps)

lemma unroll5a_combine_eq: "0 \<le> len v \<Longrightarrow> unroll5a_combine OP e v = combined OP e (data v) (len v)"
  unfolding unroll5a_combine_def loop_defs
  by (rule unrolled) (simp_all add: combined_simps)

lemma unroll6a_combine_eq: "0 \<le> len v \<Longrightarrow> unroll6a_combine OP e v = combined OP e (data v) (len v)"
  unfolding unroll6a_combine_def loop_defs
  by (rule unrolled) (simp_all add: combined_simps)

lemma unroll7a_combine_eq: "0 \<le> len v \<Longrightarrow> unroll7a_combine OP e v = combined OP e (data v) (len v)"
  unfolding unroll7a_combine_def loop_defs
  by (rule unrolled) (simp_all add: combined_simps)

lemma unroll8a_combine_eq: "0 \<le> len v \<Longrightarrow> unroll8a_combine OP e v = combined OP e (data v) (len v)"
  unfolding unroll8a_combine_def loop_defs
  by (rule unrolled) (simp_all add: combined_simps)

lemma unroll9a_combine_eq: "0 \<le> len v \<Longrightarrow> unroll9a_combine OP e v = combined OP e (data v) (len v)"
  unfolding unroll9a_combine_def loop_defs
  by (rule unrolled) (simp_all add: combined_simps)

lemma unroll10a_combine_eq: "0 \<le> len v \<Longrightarrow> unroll10a_combine OP e v = combined OP e (data v) (len v)"
  unfolding unroll10a_combine_def loop_defs
  by (rule unrolled) (simp_all add: combined_simps)

lemma unroll16a_combine_eq: "0 \<le> len v \<Longrightarrow> unroll16a_combine OP e v = combined OP e (data v) (len v)"
  unfolding unroll16a_combine_def loop_defs
  by (rule unrolled) (simp_all add: combined_simps)

lemma unroll2_combine_eq: "0 \<le> len v \<Longrightarrow> unroll2_combine OP e v = combined OP e (data v) (len v)"
  unfolding unroll2_combine_def loop_defs
  by (rule unrolled) (simp_all add: combined_simps whole_blocks)

lemma unroll3_combine_eq:
  assumes "0 \<le> len v" "data v \<noteq> []" shows "unroll3_combine OP e v = combined OP e (data v) (len v)"
  unfolding unroll3_combine_def loop_defs ptr_add_cells [OF assms(2)] there_and_back add_0
  by (rule unrolled) (use assms(1) in \<open>simp_all add: combined_simps\<close>)

lemma unroll4_combine_eq:
  assumes "0 \<le> len v" "data v \<noteq> []" shows "unroll4_combine OP e v = combined OP e (data v) (len v)"
  unfolding unroll4_combine_def loop_defs ptr_add_cells [OF assms(2)] there_and_back add_0
  by (rule unrolled) (use assms(1) in \<open>simp_all add: combined_simps\<close>)

lemma unroll8_combine_eq: "0 \<le> len v \<Longrightarrow> unroll8_combine OP e v = combined OP e (data v) (len v)"
  unfolding unroll8_combine_def loop_defs
  by (rule unrolled) (simp_all add: combined_simps whole_blocks)

lemma unroll16_combine_eq: "0 \<le> len v \<Longrightarrow> unroll16_combine OP e v = combined OP e (data v) (len v)"
  unfolding unroll16_combine_def loop_defs
  by (rule unrolled) (simp_all add: combined_simps whole_blocks)

section \<open>Functions that reassociate\<close>

definition combine7 :: "'a combiner" where
  "combine7 OP IDENT v =
     (let length = vec_length v;
      limit = length - 1;
      data = get_vec_start v;
      acc = IDENT;
      (i, acc) = for_up 0 limit 2 (\<lambda>i acc.
        let acc = OP acc (OP (at data i) (at data (i + 1)))
        in acc) acc;
      (i, acc) = for_up i length 1 (\<lambda>i acc.
        let acc = OP acc (at data i)
        in acc) acc
      in acc)"

definition unroll3aa_combine :: "'a combiner" where
  "unroll3aa_combine OP IDENT v =
     (let length = vec_length v;
      limit = length - 2;
      data = get_vec_start v;
      acc = IDENT;
      (i, acc) = for_up 0 limit 3 (\<lambda>i acc.
        let acc = OP acc (OP (OP (at data i) (at data (i + 1))) (at data (i + 2)))
        in acc) acc;
      (i, acc) = for_up i length 1 (\<lambda>i acc.
        let acc = OP acc (at data i)
        in acc) acc
      in acc)"

definition unroll4aa_combine :: "'a combiner" where
  "unroll4aa_combine OP IDENT v =
     (let length = vec_length v;
      limit = length - 3;
      data = get_vec_start v;
      acc = IDENT;
      (i, acc) = for_up 0 limit 4 (\<lambda>i acc.
        let t1 = OP (at data i) (at data (i + 1));
            t2 = OP (at data (i + 2)) (at data (i + 3));
            acc = OP acc (OP t1 t2)
        in acc) acc;
      (i, acc) = for_up i length 1 (\<lambda>i acc.
        let acc = OP acc (at data i)
        in acc) acc
      in acc)"

definition unroll5aa_combine :: "'a combiner" where
  "unroll5aa_combine OP IDENT v =
     (let length = vec_length v;
      limit = length - 4;
      data = get_vec_start v;
      acc = IDENT;
      (i, acc) = for_up 0 limit 5 (\<lambda>i acc.
        let t1 = OP (at data i) (at data (i + 1));
            t2 = OP (at data (i + 2)) (at data (i + 3));
            t3 = at data (i + 4);
            acc = OP acc (OP (OP t1 t2) t3)
        in acc) acc;
      (i, acc) = for_up i length 1 (\<lambda>i acc.
        let acc = OP acc (at data i)
        in acc) acc
      in acc)"

definition unroll6aa_combine :: "'a combiner" where
  "unroll6aa_combine OP IDENT v =
     (let length = vec_length v;
      limit = length - 5;
      data = get_vec_start v;
      acc = IDENT;
      (i, acc) = for_up 0 limit 6 (\<lambda>i acc.
        let t1 = OP (at data i) (at data (i + 1));
            t2 = OP (at data (i + 2)) (at data (i + 3));
            t3 = OP (at data (i + 4)) (at data (i + 5));
            acc = OP acc (OP (OP t1 t2) t3)
        in acc) acc;
      (i, acc) = for_up i length 1 (\<lambda>i acc.
        let acc = OP acc (at data i)
        in acc) acc
      in acc)"

definition unroll7aa_combine :: "'a combiner" where
  "unroll7aa_combine OP IDENT v =
     (let length = vec_length v;
      limit = length - 6;
      data = get_vec_start v;
      acc = IDENT;
      (i, acc) = for_up 0 limit 7 (\<lambda>i acc.
        let t1 = OP (at data i) (at data (i + 1));
            t2 = OP (at data (i + 2)) (at data (i + 3));
            u1 = OP t1 t2;
            t3 = OP (at data (i + 4)) (at data (i + 5));
            t4 = at data (i + 6);
            u2 = OP t3 t4;
            acc = OP acc (OP u1 u2)
        in acc) acc;
      (i, acc) = for_up i length 1 (\<lambda>i acc.
        let acc = OP acc (at data i)
        in acc) acc
      in acc)"

definition unroll8aa_combine :: "'a combiner" where
  "unroll8aa_combine OP IDENT v =
     (let length = vec_length v;
      limit = length - 7;
      data = get_vec_start v;
      acc = IDENT;
      (i, acc) = for_up 0 limit 8 (\<lambda>i acc.
        let t1 = OP (at data i) (at data (i + 1));
            t2 = OP (at data (i + 2)) (at data (i + 3));
            u1 = OP t1 t2;
            t3 = OP (at data (i + 4)) (at data (i + 5));
            t4 = OP (at data (i + 6)) (at data (i + 7));
            u2 = OP t3 t4;
            acc = OP acc (OP u1 u2)
        in acc) acc;
      (i, acc) = for_up i length 1 (\<lambda>i acc.
        let acc = OP acc (at data i)
        in acc) acc
      in acc)"

definition unroll9aa_combine :: "'a combiner" where
  "unroll9aa_combine OP IDENT v =
     (let length = vec_length v;
      limit = length - 8;
      data = get_vec_start v;
      acc = IDENT;
      (i, acc) = for_up 0 limit 9 (\<lambda>i acc.
        let t1 = OP (at data i) (at data (i + 1));
            t2 = OP (at data (i + 2)) (at data (i + 3));
            u1 = OP t1 t2;
            t3 = OP (at data (i + 4)) (at data (i + 5));
            t4 = OP (at data (i + 6)) (at data (i + 7));
            t5 = at data (i + 8);
            u2 = OP (OP t3 t4) t5;
            acc = OP acc (OP u1 u2)
        in acc) acc;
      (i, acc) = for_up i length 1 (\<lambda>i acc.
        let acc = OP acc (at data i)
        in acc) acc
      in acc)"

definition unroll10aa_combine :: "'a combiner" where
  "unroll10aa_combine OP IDENT v =
     (let length = vec_length v;
      limit = length - 9;
      data = get_vec_start v;
      acc = IDENT;
      (i, acc) = for_up 0 limit 10 (\<lambda>i acc.
        let t1 = OP (at data i) (at data (i + 1));
            t2 = OP (at data (i + 2)) (at data (i + 3));
            u1 = OP t1 t2;
            t3 = OP (at data (i + 4)) (at data (i + 5));
            t4 = OP (at data (i + 6)) (at data (i + 7));
            t5 = OP (at data (i + 8)) (at data (i + 9));
            u2 = OP (OP t3 t4) t5;
            acc = OP acc (OP u1 u2)
        in acc) acc;
      (i, acc) = for_up i length 1 (\<lambda>i acc.
        let acc = OP acc (at data i)
        in acc) acc
      in acc)"

definition unroll12aa_combine :: "'a combiner" where
  "unroll12aa_combine OP IDENT v =
     (let length = vec_length v;
      limit = length - 11;
      data = get_vec_start v;
      acc = IDENT;
      (i, acc) = for_up 0 limit 12 (\<lambda>i acc.
        let t1 = OP (at data i) (at data (i + 1));
            t2 = OP (at data (i + 2)) (at data (i + 3));
            u1 = OP t1 t2;
            t3 = OP (at data (i + 4)) (at data (i + 5));
            t4 = OP (at data (i + 6)) (at data (i + 7));
            u2 = OP t3 t4;
            t5 = OP (at data (i + 8)) (at data (i + 9));
            t6 = OP (at data (i + 10)) (at data (i + 11));
            u3 = OP t5 t6;
            acc = OP acc (OP (OP u1 u2) u3)
        in acc) acc;
      (i, acc) = for_up i length 1 (\<lambda>i acc.
        let acc = OP acc (at data i)
        in acc) acc
      in acc)"

context assoc_op
begin

lemma combine7_eq: "0 \<le> len v \<Longrightarrow> combine7 OP e v = combined OP e (data v) (len v)"
  unfolding combine7_def loop_defs
  by (rule unrolled) (simp_all add: combined_simps assoc)

lemma unroll3aa_combine_eq: "0 \<le> len v \<Longrightarrow> unroll3aa_combine OP e v = combined OP e (data v) (len v)"
  unfolding unroll3aa_combine_def loop_defs
  by (rule unrolled) (simp_all add: combined_simps assoc)

lemma unroll4aa_combine_eq: "0 \<le> len v \<Longrightarrow> unroll4aa_combine OP e v = combined OP e (data v) (len v)"
  unfolding unroll4aa_combine_def loop_defs
  by (rule unrolled) (simp_all add: combined_simps assoc)

lemma unroll5aa_combine_eq: "0 \<le> len v \<Longrightarrow> unroll5aa_combine OP e v = combined OP e (data v) (len v)"
  unfolding unroll5aa_combine_def loop_defs
  by (rule unrolled) (simp_all add: combined_simps assoc)

lemma unroll6aa_combine_eq: "0 \<le> len v \<Longrightarrow> unroll6aa_combine OP e v = combined OP e (data v) (len v)"
  unfolding unroll6aa_combine_def loop_defs
  by (rule unrolled) (simp_all add: combined_simps assoc)

lemma unroll7aa_combine_eq: "0 \<le> len v \<Longrightarrow> unroll7aa_combine OP e v = combined OP e (data v) (len v)"
  unfolding unroll7aa_combine_def loop_defs
  by (rule unrolled) (simp_all add: combined_simps assoc)

lemma unroll8aa_combine_eq: "0 \<le> len v \<Longrightarrow> unroll8aa_combine OP e v = combined OP e (data v) (len v)"
  unfolding unroll8aa_combine_def loop_defs
  by (rule unrolled) (simp_all add: combined_simps assoc)

lemma unroll9aa_combine_eq: "0 \<le> len v \<Longrightarrow> unroll9aa_combine OP e v = combined OP e (data v) (len v)"
  unfolding unroll9aa_combine_def loop_defs
  by (rule unrolled) (simp_all add: combined_simps assoc)

lemma unroll10aa_combine_eq: "0 \<le> len v \<Longrightarrow> unroll10aa_combine OP e v = combined OP e (data v) (len v)"
  unfolding unroll10aa_combine_def loop_defs
  by (rule unrolled) (simp_all add: combined_simps assoc)

lemma unroll12aa_combine_eq: "0 \<le> len v \<Longrightarrow> unroll12aa_combine OP e v = combined OP e (data v) (len v)"
  unfolding unroll12aa_combine_def loop_defs
  by (rule unrolled) (simp_all add: combined_simps assoc)

end

section \<open>Functions that combine the halves of the vector\<close>

definition unrollx2as_combine :: "'a combiner" where
  "unrollx2as_combine OP IDENT v =
     (let length = vec_length v;
      limit = length div 2;
      data = get_vec_start v;
      accs = (IDENT, IDENT);
      (i, accs) = for_up 0 limit 1 (\<lambda>i (acc0, acc1).
        let acc0 = OP acc0 (at data i);
            acc1 = OP acc1 (at data (limit + i))
        in (acc0, acc1)) accs;
      (i, accs) = for_up (limit * 2) length 1 (\<lambda>i (acc0, acc1).
        let acc1 = OP acc1 (at data i)
        in (acc0, acc1)) accs;
      (acc0, acc1) = accs
      in OP acc0 acc1)"

definition unroll4x2as_combine :: "'a combiner" where
  "unroll4x2as_combine OP IDENT v =
     (let length = vec_length v;
      limit = length div 2;
      data = get_vec_start v;
      accs = (IDENT, IDENT);
      (i, accs) = for_up 0 limit 1 (\<lambda>i (acc0, acc1).
        let acc0 = OP acc0 (at data i);
            acc1 = OP acc1 (at data (limit + i))
        in (acc0, acc1)) accs;
      (i, accs) = for_up (limit * 2) length 1 (\<lambda>i (acc0, acc1).
        let acc1 = OP acc1 (at data i)
        in (acc0, acc1)) accs;
      (acc0, acc1) = accs
      in OP acc0 acc1)"

text \<open>The second accumulator holds a segment of the vector, so that associativity is enough.\<close>

context assoc_op
begin

lemma unrollx2as_combine_eq:
  assumes "0 \<le> len v"
  shows "unrollx2as_combine OP e v = combined OP e (data v) (len v)"
proof -
  let ?d = "data v" and ?l = "len v div 2"
  let ?b1 = "\<lambda>i (acc0, acc1). (OP acc0 (at ?d i), OP acc1 (at ?d (?l + i)))"
  let ?b2 = "\<lambda>i (acc0, acc1). (acc0, OP acc1 (at ?d i))"
  obtain i s where 1: "for_up 0 ?l 1 ?b1 (e, e) = (i, s)" by (rule prod.exhaust)
  obtain j t where 2: "for_up (?l * 2) (len v) 1 ?b2 s = (j, t)" by (rule prod.exhaust)
  have "(0 \<le> i \<and> i \<le> ?l \<and> s = (combined OP e ?d i, segment OP e ?d ?l i)) \<and> \<not> i < ?l"
    by (rule for_up_inv [OF 1]) (use assms in \<open>auto simp: combined_1 segment_1\<close>)
  then have s: "s = (combined OP e ?d ?l, segment OP e ?d ?l ?l)" by auto
  have step: "segment OP e ?d ?l (k + 1 - ?l) = OP (segment OP e ?d ?l (k - ?l)) (at ?d k)" if "?l \<le> k" for k
    using segment_1 [of "k - ?l" OP e ?d ?l] that by (simp add: algebra_simps)
  have "(?l * 2 \<le> j \<and> j \<le> len v \<and> t = (combined OP e ?d ?l, segment OP e ?d ?l (j - ?l))) \<and> \<not> j < len v"
    by (rule for_up_inv [OF 2]) (use assms in \<open>auto simp: s step\<close>)
  then have "t = (combined OP e ?d ?l, segment OP e ?d ?l (len v - ?l))" by auto
  moreover have "combined OP e ?d (len v) = OP (combined OP e ?d ?l) (segment OP e ?d ?l (len v - ?l))"
    using combined_segment [of ?l "len v - ?l" ?d] assms by simp
  ultimately show ?thesis by (simp add: unrollx2as_combine_def loop_defs 1 2)
qed

lemma unroll4x2as_combine_eq: "0 \<le> len v \<Longrightarrow> unroll4x2as_combine OP e v = combined OP e (data v) (len v)"
  using unrollx2as_combine_eq by (simp add: unroll4x2as_combine_def unrollx2as_combine_def)

end

section \<open>Functions with several accumulators\<close>

definition combine6 :: "'a combiner" where
  "combine6 OP IDENT v =
     (let length = vec_length v;
      limit = length - 1;
      data = get_vec_start v;
      accs = (IDENT, IDENT);
      (i, accs) = for_up 0 limit 2 (\<lambda>i (acc0, acc1).
        let acc0 = OP acc0 (at data i);
            acc1 = OP acc1 (at data (i + 1))
        in (acc0, acc1)) accs;
      (i, accs) = for_up i length 1 (\<lambda>i (acc0, acc1).
        let acc0 = OP acc0 (at data i)
        in (acc0, acc1)) accs;
      (acc0, acc1) = accs
      in OP acc0 acc1)"

definition unroll4x2a_combine :: "'a combiner" where
  "unroll4x2a_combine OP IDENT v =
     (let length = vec_length v;
      limit = length - 3;
      data = get_vec_start v;
      accs = (IDENT, IDENT);
      (i, accs) = for_up 0 limit 4 (\<lambda>i (acc0, acc1).
        let acc0 = OP acc0 (at data i);
            acc1 = OP acc1 (at data (i + 1));
            acc0 = OP acc0 (at data (i + 2));
            acc1 = OP acc1 (at data (i + 3))
        in (acc0, acc1)) accs;
      (i, accs) = for_up i length 1 (\<lambda>i (acc0, acc1).
        let acc0 = OP acc0 (at data i)
        in (acc0, acc1)) accs;
      (acc0, acc1) = accs
      in OP acc0 acc1)"

definition unroll8x2a_combine :: "'a combiner" where
  "unroll8x2a_combine OP IDENT v =
     (let length = vec_length v;
      limit = length - 7;
      data = get_vec_start v;
      accs = (IDENT, IDENT);
      (i, accs) = for_up 0 limit 8 (\<lambda>i (acc0, acc1).
        let acc0 = OP acc0 (at data i);
            acc1 = OP acc1 (at data (i + 1));
            acc0 = OP acc0 (at data (i + 2));
            acc1 = OP acc1 (at data (i + 3));
            acc0 = OP acc0 (at data (i + 4));
            acc1 = OP acc1 (at data (i + 5));
            acc0 = OP acc0 (at data (i + 6));
            acc1 = OP acc1 (at data (i + 7))
        in (acc0, acc1)) accs;
      (i, accs) = for_up i length 1 (\<lambda>i (acc0, acc1).
        let acc0 = OP acc0 (at data i)
        in (acc0, acc1)) accs;
      (acc0, acc1) = accs
      in OP acc0 acc1)"

definition unroll3x3a_combine :: "'a combiner" where
  "unroll3x3a_combine OP IDENT v =
     (let length = vec_length v;
      limit = length - 2;
      data = get_vec_start v;
      accs = (IDENT, IDENT, IDENT);
      (i, accs) = for_up 0 limit 3 (\<lambda>i (acc0, acc1, acc2).
        let acc0 = OP acc0 (at data i);
            acc1 = OP acc1 (at data (i + 1));
            acc2 = OP acc2 (at data (i + 2))
        in (acc0, acc1, acc2)) accs;
      (i, accs) = for_up i length 1 (\<lambda>i (acc0, acc1, acc2).
        let acc0 = OP acc0 (at data i)
        in (acc0, acc1, acc2)) accs;
      (acc0, acc1, acc2) = accs
      in OP (OP acc0 acc1) acc2)"

definition unroll4x4a_combine :: "'a combiner" where
  "unroll4x4a_combine OP IDENT v =
     (let length = vec_length v;
      limit = length - 3;
      data = get_vec_start v;
      accs = (IDENT, IDENT, IDENT, IDENT);
      (i, accs) = for_up 0 limit 4 (\<lambda>i (acc0, acc1, acc2, acc3).
        let acc0 = OP acc0 (at data i);
            acc1 = OP acc1 (at data (i + 1));
            acc2 = OP acc2 (at data (i + 2));
            acc3 = OP acc3 (at data (i + 3))
        in (acc0, acc1, acc2, acc3)) accs;
      (i, accs) = for_up i length 1 (\<lambda>i (acc0, acc1, acc2, acc3).
        let acc0 = OP acc0 (at data i)
        in (acc0, acc1, acc2, acc3)) accs;
      (acc0, acc1, acc2, acc3) = accs
      in OP (OP acc0 acc1) (OP acc2 acc3))"

definition unroll8x4a_combine :: "'a combiner" where
  "unroll8x4a_combine OP IDENT v =
     (let length = vec_length v;
      limit = length - 7;
      data = get_vec_start v;
      accs = (IDENT, IDENT, IDENT, IDENT);
      (i, accs) = for_up 0 limit 8 (\<lambda>i (acc0, acc1, acc2, acc3).
        let acc0 = OP acc0 (at data i);
            acc1 = OP acc1 (at data (i + 1));
            acc2 = OP acc2 (at data (i + 2));
            acc3 = OP acc3 (at data (i + 3));
            acc0 = OP acc0 (at data (i + 4));
            acc1 = OP acc1 (at data (i + 5));
            acc2 = OP acc2 (at data (i + 6));
            acc3 = OP acc3 (at data (i + 7))
        in (acc0, acc1, acc2, acc3)) accs;
      (i, accs) = for_up i length 1 (\<lambda>i (acc0, acc1, acc2, acc3).
        let acc0 = OP acc0 (at data i)
        in (acc0, acc1, acc2, acc3)) accs;
      (acc0, acc1, acc2, acc3) = accs
      in OP (OP (OP acc0 acc1) acc2) acc3)"

definition unroll12x6a_combine :: "'a combiner" where
  "unroll12x6a_combine OP IDENT v =
     (let length = vec_length v;
      limit = length - 11;
      data = get_vec_start v;
      accs = (IDENT, IDENT, IDENT, IDENT, IDENT, IDENT);
      (i, accs) = for_up 0 limit 12 (\<lambda>i (acc0, acc1, acc2, acc3, acc4, acc5).
        let acc0 = OP acc0 (at data i);
            acc0 = OP acc0 (at data (i + 6));
            acc1 = OP acc1 (at data (i + 1));
            acc1 = OP acc1 (at data (i + 7));
            acc2 = OP acc2 (at data (i + 2));
            acc2 = OP acc2 (at data (i + 8));
            acc3 = OP acc3 (at data (i + 3));
            acc3 = OP acc3 (at data (i + 9));
            acc4 = OP acc4 (at data (i + 4));
            acc4 = OP acc4 (at data (i + 10));
            acc5 = OP acc5 (at data (i + 5));
            acc5 = OP acc5 (at data (i + 11))
        in (acc0, acc1, acc2, acc3, acc4, acc5)) accs;
      (i, accs) = for_up i length 1 (\<lambda>i (acc0, acc1, acc2, acc3, acc4, acc5).
        let acc0 = OP acc0 (at data i)
        in (acc0, acc1, acc2, acc3, acc4, acc5)) accs;
      (acc0, acc1, acc2, acc3, acc4, acc5) = accs
      in OP (OP (OP acc0 acc1) (OP acc2 acc3)) (OP acc4 acc5))"

definition unroll12x12a_combine :: "'a combiner" where
  "unroll12x12a_combine OP IDENT v =
     (let length = vec_length v;
      limit = length - 11;
      data = get_vec_start v;
      accs = (IDENT, IDENT, IDENT, IDENT, IDENT, IDENT, IDENT, IDENT, IDENT, IDENT, IDENT, IDENT);
      (i, accs) = for_up 0 limit 12 (\<lambda>i (acc0, acc1, acc2, acc3, acc4, acc5, acc6, acc7, acc8, acc9, acc10, acc11).
        let acc0 = OP acc0 (at data i);
            acc6 = OP acc6 (at data (i + 6));
            acc1 = OP acc1 (at data (i + 1));
            acc7 = OP acc7 (at data (i + 7));
            acc2 = OP acc2 (at data (i + 2));
            acc8 = OP acc8 (at data (i + 8));
            acc3 = OP acc3 (at data (i + 3));
            acc9 = OP acc9 (at data (i + 9));
            acc4 = OP acc4 (at data (i + 4));
            acc10 = OP acc10 (at data (i + 10));
            acc5 = OP acc5 (at data (i + 5));
            acc11 = OP acc11 (at data (i + 11))
        in (acc0, acc1, acc2, acc3, acc4, acc5, acc6, acc7, acc8, acc9, acc10, acc11)) accs;
      (i, accs) = for_up i length 1 (\<lambda>i (acc0, acc1, acc2, acc3, acc4, acc5, acc6, acc7, acc8, acc9, acc10, acc11).
        let acc0 = OP acc0 (at data i)
        in (acc0, acc1, acc2, acc3, acc4, acc5, acc6, acc7, acc8, acc9, acc10, acc11)) accs;
      (acc0, acc1, acc2, acc3, acc4, acc5, acc6, acc7, acc8, acc9, acc10, acc11) = accs
      in OP (OP (OP (OP (OP (OP acc0 acc1) (OP acc2 acc3)) (OP acc4 acc5)) (OP acc6 acc7)) (OP acc8 acc9)) (OP acc10 acc11))"

definition unroll16x16a_combine :: "'a combiner" where
  "unroll16x16a_combine OP IDENT v =
     (let length = vec_length v;
      limit = length - 15;
      data = get_vec_start v;
      accs = (IDENT, IDENT, IDENT, IDENT, IDENT, IDENT, IDENT, IDENT, IDENT, IDENT, IDENT, IDENT, IDENT, IDENT, IDENT, IDENT);
      (i, accs) = for_up 0 limit 16 (\<lambda>i (acc0, acc1, acc2, acc3, acc4, acc5, acc6, acc7, acc8, acc9, acc10, acc11, acc12, acc13, acc14, acc15).
        let acc0 = OP acc0 (at data i);
            acc6 = OP acc6 (at data (i + 6));
            acc1 = OP acc1 (at data (i + 1));
            acc7 = OP acc7 (at data (i + 7));
            acc2 = OP acc2 (at data (i + 2));
            acc8 = OP acc8 (at data (i + 8));
            acc3 = OP acc3 (at data (i + 3));
            acc9 = OP acc9 (at data (i + 9));
            acc4 = OP acc4 (at data (i + 4));
            acc10 = OP acc10 (at data (i + 10));
            acc5 = OP acc5 (at data (i + 5));
            acc11 = OP acc11 (at data (i + 11));
            acc12 = OP acc12 (at data (i + 12));
            acc13 = OP acc13 (at data (i + 13));
            acc14 = OP acc14 (at data (i + 14));
            acc15 = OP acc15 (at data (i + 15))
        in (acc0, acc1, acc2, acc3, acc4, acc5, acc6, acc7, acc8, acc9, acc10, acc11, acc12, acc13, acc14, acc15)) accs;
      (i, accs) = for_up i length 1 (\<lambda>i (acc0, acc1, acc2, acc3, acc4, acc5, acc6, acc7, acc8, acc9, acc10, acc11, acc12, acc13, acc14, acc15).
        let acc0 = OP acc0 (at data i)
        in (acc0, acc1, acc2, acc3, acc4, acc5, acc6, acc7, acc8, acc9, acc10, acc11, acc12, acc13, acc14, acc15)) accs;
      (acc0, acc1, acc2, acc3, acc4, acc5, acc6, acc7, acc8, acc9, acc10, acc11, acc12, acc13, acc14, acc15) = accs
      in OP (OP (OP (OP (OP acc0 acc1) (OP acc2 acc3)) (OP acc4 acc5)) (OP (OP (OP acc6 acc7) (OP acc8 acc9)) (OP acc10 acc11))) (OP (OP acc12 acc13) (OP acc14 acc15)))"

definition unroll20x20a_combine :: "'a combiner" where
  "unroll20x20a_combine OP IDENT v =
     (let length = vec_length v;
      limit = length - 19;
      data = get_vec_start v;
      accs = (IDENT, IDENT, IDENT, IDENT, IDENT, IDENT, IDENT, IDENT, IDENT, IDENT, IDENT, IDENT, IDENT, IDENT, IDENT, IDENT, IDENT, IDENT, IDENT, IDENT);
      (i, accs) = for_up 0 limit 20 (\<lambda>i (acc0, acc1, acc2, acc3, acc4, acc5, acc6, acc7, acc8, acc9, acc10, acc11, acc12, acc13, acc14, acc15, acc16, acc17, acc18, acc19).
        let acc0 = OP acc0 (at data i);
            acc6 = OP acc6 (at data (i + 6));
            acc1 = OP acc1 (at data (i + 1));
            acc7 = OP acc7 (at data (i + 7));
            acc2 = OP acc2 (at data (i + 2));
            acc8 = OP acc8 (at data (i + 8));
            acc3 = OP acc3 (at data (i + 3));
            acc9 = OP acc9 (at data (i + 9));
            acc4 = OP acc4 (at data (i + 4));
            acc10 = OP acc10 (at data (i + 10));
            acc5 = OP acc5 (at data (i + 5));
            acc11 = OP acc11 (at data (i + 11));
            acc12 = OP acc12 (at data (i + 12));
            acc13 = OP acc13 (at data (i + 13));
            acc14 = OP acc14 (at data (i + 14));
            acc15 = OP acc15 (at data (i + 15));
            acc16 = OP acc16 (at data (i + 16));
            acc17 = OP acc17 (at data (i + 17));
            acc18 = OP acc18 (at data (i + 18));
            acc19 = OP acc19 (at data (i + 19))
        in (acc0, acc1, acc2, acc3, acc4, acc5, acc6, acc7, acc8, acc9, acc10, acc11, acc12, acc13, acc14, acc15, acc16, acc17, acc18, acc19)) accs;
      (i, accs) = for_up i length 1 (\<lambda>i (acc0, acc1, acc2, acc3, acc4, acc5, acc6, acc7, acc8, acc9, acc10, acc11, acc12, acc13, acc14, acc15, acc16, acc17, acc18, acc19).
        let acc0 = OP acc0 (at data i)
        in (acc0, acc1, acc2, acc3, acc4, acc5, acc6, acc7, acc8, acc9, acc10, acc11, acc12, acc13, acc14, acc15, acc16, acc17, acc18, acc19)) accs;
      (acc0, acc1, acc2, acc3, acc4, acc5, acc6, acc7, acc8, acc9, acc10, acc11, acc12, acc13, acc14, acc15, acc16, acc17, acc18, acc19) = accs
      in OP (OP (OP (OP (OP acc0 acc1) (OP acc2 acc3)) (OP acc4 acc5)) (OP (OP (OP acc6 acc7) (OP acc8 acc9)) (OP acc10 acc11))) (OP (OP (OP acc12 acc13) (OP acc14 acc15)) (OP (OP acc16 acc17) (OP acc18 acc19))))"

definition unroll5x5a_combine :: "'a combiner" where
  "unroll5x5a_combine OP IDENT v =
     (let length = vec_length v;
      limit = length - 4;
      data = get_vec_start v;
      accs = (IDENT, IDENT, IDENT, IDENT, IDENT);
      (i, accs) = for_up 0 limit 5 (\<lambda>i (acc0, acc1, acc2, acc3, acc4).
        let acc0 = OP acc0 (at data i);
            acc1 = OP acc1 (at data (i + 1));
            acc2 = OP acc2 (at data (i + 2));
            acc3 = OP acc3 (at data (i + 3));
            acc4 = OP acc4 (at data (i + 4))
        in (acc0, acc1, acc2, acc3, acc4)) accs;
      (i, accs) = for_up i length 1 (\<lambda>i (acc0, acc1, acc2, acc3, acc4).
        let acc0 = OP acc0 (at data i)
        in (acc0, acc1, acc2, acc3, acc4)) accs;
      (acc0, acc1, acc2, acc3, acc4) = accs
      in OP (OP acc0 acc1) (OP (OP acc2 acc3) acc4))"

definition unroll6x6a_combine :: "'a combiner" where
  "unroll6x6a_combine OP IDENT v =
     (let length = vec_length v;
      limit = length - 5;
      data = get_vec_start v;
      accs = (IDENT, IDENT, IDENT, IDENT, IDENT, IDENT);
      (i, accs) = for_up 0 limit 6 (\<lambda>i (acc0, acc1, acc2, acc3, acc4, acc5).
        let acc0 = OP acc0 (at data i);
            acc1 = OP acc1 (at data (i + 1));
            acc2 = OP acc2 (at data (i + 2));
            acc3 = OP acc3 (at data (i + 3));
            acc4 = OP acc4 (at data (i + 4));
            acc5 = OP acc5 (at data (i + 5))
        in (acc0, acc1, acc2, acc3, acc4, acc5)) accs;
      (i, accs) = for_up i length 1 (\<lambda>i (acc0, acc1, acc2, acc3, acc4, acc5).
        let acc0 = OP acc0 (at data i)
        in (acc0, acc1, acc2, acc3, acc4, acc5)) accs;
      (acc0, acc1, acc2, acc3, acc4, acc5) = accs
      in OP (OP (OP acc0 acc1) (OP acc2 acc3)) (OP acc4 acc5))"

definition unroll7x7a_combine :: "'a combiner" where
  "unroll7x7a_combine OP IDENT v =
     (let length = vec_length v;
      limit = length - 6;
      data = get_vec_start v;
      accs = (IDENT, IDENT, IDENT, IDENT, IDENT, IDENT, IDENT);
      (i, accs) = for_up 0 limit 7 (\<lambda>i (acc0, acc1, acc2, acc3, acc4, acc5, acc6).
        let acc0 = OP acc0 (at data i);
            acc1 = OP acc1 (at data (i + 1));
            acc2 = OP acc2 (at data (i + 2));
            acc3 = OP acc3 (at data (i + 3));
            acc4 = OP acc4 (at data (i + 4));
            acc5 = OP acc5 (at data (i + 5));
            acc6 = OP acc6 (at data (i + 6))
        in (acc0, acc1, acc2, acc3, acc4, acc5, acc6)) accs;
      (i, accs) = for_up i length 1 (\<lambda>i (acc0, acc1, acc2, acc3, acc4, acc5, acc6).
        let acc0 = OP acc0 (at data i)
        in (acc0, acc1, acc2, acc3, acc4, acc5, acc6)) accs;
      (acc0, acc1, acc2, acc3, acc4, acc5, acc6) = accs
      in OP (OP (OP acc0 acc1) (OP acc2 acc3)) (OP (OP acc4 acc5) acc6))"

definition unroll8x8a_combine :: "'a combiner" where
  "unroll8x8a_combine OP IDENT v =
     (let length = vec_length v;
      limit = length - 7;
      data = get_vec_start v;
      accs = (IDENT, IDENT, IDENT, IDENT, IDENT, IDENT, IDENT, IDENT);
      (i, accs) = for_up 0 limit 8 (\<lambda>i (acc0, acc1, acc2, acc3, acc4, acc5, acc6, acc7).
        let acc0 = OP acc0 (at data i);
            acc1 = OP acc1 (at data (i + 1));
            acc2 = OP acc2 (at data (i + 2));
            acc3 = OP acc3 (at data (i + 3));
            acc4 = OP acc4 (at data (i + 4));
            acc5 = OP acc5 (at data (i + 5));
            acc6 = OP acc6 (at data (i + 6));
            acc7 = OP acc7 (at data (i + 7))
        in (acc0, acc1, acc2, acc3, acc4, acc5, acc6, acc7)) accs;
      (i, accs) = for_up i length 1 (\<lambda>i (acc0, acc1, acc2, acc3, acc4, acc5, acc6, acc7).
        let acc0 = OP acc0 (at data i)
        in (acc0, acc1, acc2, acc3, acc4, acc5, acc6, acc7)) accs;
      (acc0, acc1, acc2, acc3, acc4, acc5, acc6, acc7) = accs
      in OP (OP (OP acc0 acc1) (OP acc2 acc3)) (OP (OP acc4 acc5) (OP acc6 acc7)))"

definition unroll9x9a_combine :: "'a combiner" where
  "unroll9x9a_combine OP IDENT v =
     (let length = vec_length v;
      limit = length - 8;
      data = get_vec_start v;
      accs = (IDENT, IDENT, IDENT, IDENT, IDENT, IDENT, IDENT, IDENT, IDENT);
      (i, accs) = for_up 0 limit 9 (\<lambda>i (acc0, acc1, acc2, acc3, acc4, acc5, acc6, acc7, acc8).
        let acc0 = OP acc0 (at data i);
            acc1 = OP acc1 (at data (i + 1));
            acc2 = OP acc2 (at data (i + 2));
            acc3 = OP acc3 (at data (i + 3));
            acc4 = OP acc4 (at data (i + 4));
            acc5 = OP acc5 (at data (i + 5));
            acc6 = OP acc6 (at data (i + 6));
            acc7 = OP acc7 (at data (i + 7));
            acc8 = OP acc8 (at data (i + 8))
        in (acc0, acc1, acc2, acc3, acc4, acc5, acc6, acc7, acc8)) accs;
      (i, accs) = for_up i length 1 (\<lambda>i (acc0, acc1, acc2, acc3, acc4, acc5, acc6, acc7, acc8).
        let acc0 = OP acc0 (at data i)
        in (acc0, acc1, acc2, acc3, acc4, acc5, acc6, acc7, acc8)) accs;
      (acc0, acc1, acc2, acc3, acc4, acc5, acc6, acc7, acc8) = accs
      in OP (OP (OP acc0 acc1) (OP acc2 acc3)) (OP (OP (OP acc4 acc5) (OP acc6 acc7)) acc8))"

definition unroll10x10a_combine :: "'a combiner" where
  "unroll10x10a_combine OP IDENT v =
     (let length = vec_length v;
      limit = length - 9;
      data = get_vec_start v;
      accs = (IDENT, IDENT, IDENT, IDENT, IDENT, IDENT, IDENT, IDENT, IDENT, IDENT);
      (i, accs) = for_up 0 limit 10 (\<lambda>i (acc0, acc1, acc2, acc3, acc4, acc5, acc6, acc7, acc8, acc9).
        let acc0 = OP acc0 (at data i);
            acc1 = OP acc1 (at data (i + 1));
            acc2 = OP acc2 (at data (i + 2));
            acc3 = OP acc3 (at data (i + 3));
            acc4 = OP acc4 (at data (i + 4));
            acc5 = OP acc5 (at data (i + 5));
            acc6 = OP acc6 (at data (i + 6));
            acc7 = OP acc7 (at data (i + 7));
            acc8 = OP acc8 (at data (i + 8));
            acc9 = OP acc9 (at data (i + 9))
        in (acc0, acc1, acc2, acc3, acc4, acc5, acc6, acc7, acc8, acc9)) accs;
      (i, accs) = for_up i length 1 (\<lambda>i (acc0, acc1, acc2, acc3, acc4, acc5, acc6, acc7, acc8, acc9).
        let acc0 = OP acc0 (at data i)
        in (acc0, acc1, acc2, acc3, acc4, acc5, acc6, acc7, acc8, acc9)) accs;
      (acc0, acc1, acc2, acc3, acc4, acc5, acc6, acc7, acc8, acc9) = accs
      in OP (OP (OP (OP acc0 acc1) (OP acc2 acc3)) (OP (OP acc4 acc5) (OP acc6 acc7))) (OP acc8 acc9))"

definition unroll8x2_combine :: "'a combiner" where
  "unroll8x2_combine OP IDENT v =
     (let length = vec_length v;
      arr = get_vec_start v;
      data = 0;
      dend = ptr_add arr (ptr_add arr data length) (- 7);
      accs = (IDENT, IDENT);
      (data, accs) = for_up data dend 8 (\<lambda>data (acc0, acc1).
        let acc0 = OP acc0 (at arr data);
            acc1 = OP acc1 (at arr (data + 1));
            acc0 = OP acc0 (at arr (data + 2));
            acc1 = OP acc1 (at arr (data + 3));
            acc0 = OP acc0 (at arr (data + 4));
            acc1 = OP acc1 (at arr (data + 5));
            acc0 = OP acc0 (at arr (data + 6));
            acc1 = OP acc1 (at arr (data + 7))
        in (acc0, acc1)) accs;
      dend = ptr_add arr dend 7;
      (data, accs) = for_up data dend 1 (\<lambda>data (acc0, acc1).
        let acc0 = OP acc0 (at arr data)
        in (acc0, acc1)) accs;
      (acc0, acc1) = accs
      in OP acc0 acc1)"

definition unroll9x3_combine :: "'a combiner" where
  "unroll9x3_combine OP IDENT v =
     (let length = vec_length v;
      arr = get_vec_start v;
      data = 0;
      dend = ptr_add arr (ptr_add arr data length) (- 8);
      accs = (IDENT, IDENT, IDENT);
      (data, accs) = for_up data dend 9 (\<lambda>data (acc0, acc1, acc2).
        let acc0 = OP acc0 (at arr data);
            acc1 = OP acc1 (at arr (data + 1));
            acc2 = OP acc2 (at arr (data + 2));
            acc0 = OP acc0 (at arr (data + 3));
            acc1 = OP acc1 (at arr (data + 4));
            acc2 = OP acc2 (at arr (data + 5));
            acc0 = OP acc0 (at arr (data + 6));
            acc1 = OP acc1 (at arr (data + 7));
            acc2 = OP acc2 (at arr (data + 8))
        in (acc0, acc1, acc2)) accs;
      dend = ptr_add arr dend 8;
      (data, accs) = for_up data dend 1 (\<lambda>data (acc0, acc1, acc2).
        let acc0 = OP acc0 (at arr data)
        in (acc0, acc1, acc2)) accs;
      (acc0, acc1, acc2) = accs
      in OP (OP acc0 acc1) acc2)"

definition unroll8x4_combine :: "'a combiner" where
  "unroll8x4_combine OP IDENT v =
     (let length = vec_length v;
      arr = get_vec_start v;
      data = 0;
      dend = ptr_add arr (ptr_add arr data length) (- 7);
      accs = (IDENT, IDENT, IDENT, IDENT);
      (data, accs) = for_up data dend 8 (\<lambda>data (acc0, acc1, acc2, acc3).
        let acc0 = OP acc0 (at arr data);
            acc1 = OP acc1 (at arr (data + 1));
            acc2 = OP acc2 (at arr (data + 2));
            acc3 = OP acc3 (at arr (data + 3));
            acc0 = OP acc0 (at arr (data + 4));
            acc1 = OP acc1 (at arr (data + 5));
            acc2 = OP acc2 (at arr (data + 6));
            acc3 = OP acc3 (at arr (data + 7))
        in (acc0, acc1, acc2, acc3)) accs;
      dend = ptr_add arr dend 7;
      (data, accs) = for_up data dend 1 (\<lambda>data (acc0, acc1, acc2, acc3).
        let acc3 = OP acc3 (at arr data)
        in (acc0, acc1, acc2, acc3)) accs;
      (acc0, acc1, acc2, acc3) = accs
      in OP (OP (OP acc3 acc0) acc1) acc2)"

definition unroll8x8_combine :: "'a combiner" where
  "unroll8x8_combine OP IDENT v =
     (let length = vec_length v;
      arr = get_vec_start v;
      data = 0;
      dend = ptr_add arr (ptr_add arr data length) (- 7);
      accs = (IDENT, IDENT, IDENT, IDENT, IDENT, IDENT, IDENT, IDENT);
      (data, accs) = for_up data dend 8 (\<lambda>data (acc0, acc1, acc2, acc3, acc4, acc5, acc6, acc7).
        let acc0 = OP acc0 (at arr data);
            acc1 = OP acc1 (at arr (data + 1));
            acc2 = OP acc2 (at arr (data + 2));
            acc3 = OP acc3 (at arr (data + 3));
            acc4 = OP acc4 (at arr (data + 4));
            acc5 = OP acc5 (at arr (data + 5));
            acc6 = OP acc6 (at arr (data + 6));
            acc7 = OP acc7 (at arr (data + 7))
        in (acc0, acc1, acc2, acc3, acc4, acc5, acc6, acc7)) accs;
      dend = ptr_add arr dend 7;
      (data, accs) = for_up data dend 1 (\<lambda>data (acc0, acc1, acc2, acc3, acc4, acc5, acc6, acc7).
        let acc0 = OP acc0 (at arr data)
        in (acc0, acc1, acc2, acc3, acc4, acc5, acc6, acc7)) accs;
      (acc0, acc1, acc2, acc3, acc4, acc5, acc6, acc7) = accs
      in OP (OP (OP (OP (OP (OP (OP acc0 acc1) acc2) acc3) acc4) acc5) acc6) acc7)"

context comm_op
begin

lemma combine6_eq: "0 \<le> len v \<Longrightarrow> combine6 OP e v = combined OP e (data v) (len v)"
  unfolding combine6_def loop_defs
  by (rule unrolled) (auto simp: combined_simps ac)

lemma unroll4x2a_combine_eq: "0 \<le> len v \<Longrightarrow> unroll4x2a_combine OP e v = combined OP e (data v) (len v)"
  unfolding unroll4x2a_combine_def loop_defs
  by (rule unrolled) (auto simp: combined_simps ac)

lemma unroll8x2a_combine_eq: "0 \<le> len v \<Longrightarrow> unroll8x2a_combine OP e v = combined OP e (data v) (len v)"
  unfolding unroll8x2a_combine_def loop_defs
  by (rule unrolled) (auto simp: combined_simps ac)

lemma unroll3x3a_combine_eq: "0 \<le> len v \<Longrightarrow> unroll3x3a_combine OP e v = combined OP e (data v) (len v)"
  unfolding unroll3x3a_combine_def loop_defs
  by (rule unrolled) (auto simp: combined_simps ac)

lemma unroll4x4a_combine_eq: "0 \<le> len v \<Longrightarrow> unroll4x4a_combine OP e v = combined OP e (data v) (len v)"
  unfolding unroll4x4a_combine_def loop_defs
  by (rule unrolled) (auto simp: combined_simps ac)

lemma unroll8x4a_combine_eq: "0 \<le> len v \<Longrightarrow> unroll8x4a_combine OP e v = combined OP e (data v) (len v)"
  unfolding unroll8x4a_combine_def loop_defs
  by (rule unrolled) (auto simp: combined_simps ac)

lemma unroll12x6a_combine_eq: "0 \<le> len v \<Longrightarrow> unroll12x6a_combine OP e v = combined OP e (data v) (len v)"
  unfolding unroll12x6a_combine_def loop_defs
  by (rule unrolled) (auto simp: combined_simps ac)

lemma unroll12x12a_combine_eq: "0 \<le> len v \<Longrightarrow> unroll12x12a_combine OP e v = combined OP e (data v) (len v)"
  unfolding unroll12x12a_combine_def loop_defs
  by (rule unrolled) (auto simp: combined_simps ac)

lemma unroll16x16a_combine_eq: "0 \<le> len v \<Longrightarrow> unroll16x16a_combine OP e v = combined OP e (data v) (len v)"
  unfolding unroll16x16a_combine_def loop_defs
  by (rule unrolled) (auto simp: combined_simps ac)

lemma unroll20x20a_combine_eq: "0 \<le> len v \<Longrightarrow> unroll20x20a_combine OP e v = combined OP e (data v) (len v)"
  unfolding unroll20x20a_combine_def loop_defs
  by (rule unrolled) (auto simp: combined_simps ac)

lemma unroll5x5a_combine_eq: "0 \<le> len v \<Longrightarrow> unroll5x5a_combine OP e v = combined OP e (data v) (len v)"
  unfolding unroll5x5a_combine_def loop_defs
  by (rule unrolled) (auto simp: combined_simps ac)

lemma unroll6x6a_combine_eq: "0 \<le> len v \<Longrightarrow> unroll6x6a_combine OP e v = combined OP e (data v) (len v)"
  unfolding unroll6x6a_combine_def loop_defs
  by (rule unrolled) (auto simp: combined_simps ac)

lemma unroll7x7a_combine_eq: "0 \<le> len v \<Longrightarrow> unroll7x7a_combine OP e v = combined OP e (data v) (len v)"
  unfolding unroll7x7a_combine_def loop_defs
  by (rule unrolled) (auto simp: combined_simps ac)

lemma unroll8x8a_combine_eq: "0 \<le> len v \<Longrightarrow> unroll8x8a_combine OP e v = combined OP e (data v) (len v)"
  unfolding unroll8x8a_combine_def loop_defs
  by (rule unrolled) (auto simp: combined_simps ac)

lemma unroll9x9a_combine_eq: "0 \<le> len v \<Longrightarrow> unroll9x9a_combine OP e v = combined OP e (data v) (len v)"
  unfolding unroll9x9a_combine_def loop_defs
  by (rule unrolled) (auto simp: combined_simps ac)

lemma unroll10x10a_combine_eq: "0 \<le> len v \<Longrightarrow> unroll10x10a_combine OP e v = combined OP e (data v) (len v)"
  unfolding unroll10x10a_combine_def loop_defs
  by (rule unrolled) (auto simp: combined_simps ac)

lemma unroll8x2_combine_eq:
  assumes "0 \<le> len v" "data v \<noteq> []" shows "unroll8x2_combine OP e v = combined OP e (data v) (len v)"
  unfolding unroll8x2_combine_def loop_defs ptr_add_cells [OF assms(2)] there_and_back add_0
  by (rule unrolled) (use assms(1) in \<open>auto simp: combined_simps ac\<close>)

lemma unroll9x3_combine_eq:
  assumes "0 \<le> len v" "data v \<noteq> []" shows "unroll9x3_combine OP e v = combined OP e (data v) (len v)"
  unfolding unroll9x3_combine_def loop_defs ptr_add_cells [OF assms(2)] there_and_back add_0
  by (rule unrolled) (use assms(1) in \<open>auto simp: combined_simps ac\<close>)

lemma unroll8x4_combine_eq:
  assumes "0 \<le> len v" "data v \<noteq> []" shows "unroll8x4_combine OP e v = combined OP e (data v) (len v)"
  unfolding unroll8x4_combine_def loop_defs ptr_add_cells [OF assms(2)] there_and_back add_0
  by (rule unrolled) (use assms(1) in \<open>auto simp: combined_simps ac\<close>)

lemma unroll8x8_combine_eq:
  assumes "0 \<le> len v" "data v \<noteq> []" shows "unroll8x8_combine OP e v = combined OP e (data v) (len v)"
  unfolding unroll8x8_combine_def loop_defs ptr_add_cells [OF assms(2)] there_and_back add_0
  by (rule unrolled) (use assms(1) in \<open>auto simp: combined_simps ac\<close>)

end

section \<open>Reading through the null pointer\<close>

text \<open>The functions that compare with a pointer before the first cell.\<close>

definition null_readers :: "'a combiner list" where
  "null_readers = [combine5p, unroll3_combine, unroll4_combine, unroll8x2_combine, unroll9x3_combine,
     unroll8x4_combine, unroll8x8_combine]"

lemma combine5p_null: "data v = [] \<Longrightarrow> len v = 0 \<Longrightarrow> combine5p (lift_op f) e v = None"
  unfolding combine5p_def loop_defs by (simp add: ptr_add_def, rule null_walk [where acc = "\<lambda>s. s"]) auto

lemma unroll3_combine_null: "data v = [] \<Longrightarrow> len v = 0 \<Longrightarrow> unroll3_combine (lift_op f) e v = None"
  unfolding unroll3_combine_def loop_defs by (simp add: ptr_add_def, rule null_walk [where acc = "\<lambda>s. s"]) auto

lemma unroll4_combine_null: "data v = [] \<Longrightarrow> len v = 0 \<Longrightarrow> unroll4_combine (lift_op f) e v = None"
  unfolding unroll4_combine_def loop_defs by (simp add: ptr_add_def, rule null_walk [where acc = "\<lambda>s. s"]) auto

lemma unroll8x2_combine_null: "data v = [] \<Longrightarrow> len v = 0 \<Longrightarrow> unroll8x2_combine (lift_op f) e v = None"
  unfolding unroll8x2_combine_def loop_defs by (simp add: ptr_add_def, rule null_walk [where acc = "fst"]) auto

lemma unroll9x3_combine_null: "data v = [] \<Longrightarrow> len v = 0 \<Longrightarrow> unroll9x3_combine (lift_op f) e v = None"
  unfolding unroll9x3_combine_def loop_defs by (simp add: ptr_add_def, rule null_walk [where acc = "fst"]) auto

lemma unroll8x4_combine_null: "data v = [] \<Longrightarrow> len v = 0 \<Longrightarrow> unroll8x4_combine (lift_op f) e v = None"
  unfolding unroll8x4_combine_def loop_defs by (simp add: ptr_add_def, rule null_walk [where acc = "fst"]) auto

lemma unroll8x8_combine_null: "data v = [] \<Longrightarrow> len v = 0 \<Longrightarrow> unroll8x8_combine (lift_op f) e v = None"
  unfolding unroll8x8_combine_def loop_defs by (simp add: ptr_add_def, rule null_walk [where acc = "fst"]) auto

lemma null_readers_null:
  "data v = [] \<Longrightarrow> len v = 0 \<Longrightarrow> c \<in> set null_readers \<Longrightarrow> c (lift_op f) e v = None"
  unfolding null_readers_def
  by (auto simp: combine5p_null unroll3_combine_null unroll4_combine_null unroll8x2_combine_null unroll9x3_combine_null
    unroll8x4_combine_null unroll8x8_combine_null)

end
