(* ===== verification/Combine_Simd.thy ===== *)
theory Combine_Simd
  imports Combine_Loops
begin

text \<open>
  The combining functions of \<open>combine.c\<close> on 32-byte vectors, the table of all combining functions and the
  comparison of \<open>benchmark.c\<close>. The parameters \<open>base\<close> and \<open>es\<close> are the address of the vector's storage and
  the size of an element. The count of elements left is an \<open>int\<close>, so a length of \<open>2 ^ 32\<close> or more is
  cut off; where it is negative the comparison with the unsigned \<open>VSIZE\<close> converts it, and counting down
  wraps around.
\<close>

section \<open>Vector registers\<close>

definition VBYTES :: int where
  "VBYTES = 32"

definition VSIZE :: "int \<Rightarrow> int" where
  "VSIZE es = VBYTES div es"

text \<open>The chunk at a pointer, and the operator on all lanes.\<close>

definition load :: "int \<Rightarrow> 'a option list \<Rightarrow> int \<Rightarrow> 'a option list" where
  "load es arr p = map (\<lambda>j. at arr (p + int j)) [0..<nat (VSIZE es)]"

definition vop :: "('a option \<Rightarrow> 'a option \<Rightarrow> 'a option) \<Rightarrow> 'a option list \<Rightarrow> 'a option list \<Rightarrow> 'a option list" where
  "vop OP a b = map2 OP a b"

text \<open>The loop that combines single elements, until the count is 0 or the pointer is where it should be.\<close>

function single :: "(int \<Rightarrow> bool) \<Rightarrow> ('a option \<Rightarrow> 'a option \<Rightarrow> 'a option) \<Rightarrow> 'a option list \<Rightarrow>
    int \<times> c_int \<times> 'a option \<Rightarrow> int \<times> c_int \<times> 'a option" where
  "single stop OP arr (p, cnt, result) =
     (if \<not> stop p \<and> cnt \<noteq> 0 then single stop OP arr (p + 1, cnt - 1, OP result (at arr p))
      else (p, cnt, result))"
  by pat_completeness auto
termination
  by (relation "measure (\<lambda>(stop, OP, arr, p, cnt, result). unat cnt)") (auto simp: measure_unat)

declare single.simps [simp del]

text \<open>The loop that takes \<open>K\<close> elements at a time; \<open>K\<close> is a positive \<open>size_t\<close> below \<open>2 ^ 31\<close>.\<close>

lemma uint_small: "0 < K \<Longrightarrow> K < 2 ^ 31 \<Longrightarrow> uint (word_of_int K :: c_int) = K"
proof -
  assume K: "0 < K" "K < 2 ^ 31"
  have "uint (word_of_int K :: c_int) = K mod 2 ^ 32" by (simp only: uint_word_of_int) simp
  also have "\<dots> = K" by (rule mod_pos_pos_trivial) (use K in simp_all)
  finally show ?thesis .
qed

lemma uint_scast: "uint (scast cnt :: c_ulong) = uint cnt \<or> 2 ^ 31 \<le> uint cnt" for cnt :: c_int
proof (cases "2 ^ 31 \<le> uint cnt")
  case False
  then have "sint cnt = uint cnt"
    by (subst sint_uint) (rule signed_take_bit_int_eq_self; simp add: order_trans [OF _ unsigned_greater_eq])
  then have "uint (scast cnt :: c_ulong) = uint cnt mod 2 ^ 64"
    by (simp only: scast_eq uint_word_of_int) simp
  moreover have "uint cnt mod 2 ^ 64 = uint cnt"
    using False by (intro mod_pos_pos_trivial) simp_all
  ultimately show ?thesis by simp
qed simp

lemma count_down:
  fixes cnt :: c_int
  assumes "0 < K" "K < 2 ^ 31" "K \<le> uint (scast cnt :: c_ulong)"
  shows "uint (cnt - word_of_int K) = uint cnt - K"
proof -
  have "K \<le> uint cnt" using uint_scast [of cnt] assms(2,3) by linarith
  then show ?thesis
    using uint_sub_lem [of "word_of_int K" cnt] by (simp only: uint_small [OF assms(1,2)])
qed

function chunks :: "int \<Rightarrow> (int \<Rightarrow> 's \<Rightarrow> 's) \<Rightarrow> int \<times> c_int \<times> 's \<Rightarrow> int \<times> c_int \<times> 's" where
  "chunks K body (p, cnt, s) =
     (if 0 < K \<and> K < 2 ^ 31 \<and> K \<le> uint (scast cnt :: c_ulong)
      then chunks K body (p + K, cnt - word_of_int K, body p s) else (p, cnt, s))"
  by pat_completeness auto
termination
proof (relation "measure (\<lambda>(K, body, p, cnt, s). unat cnt)")
  fix K :: int and body :: "int \<Rightarrow> 's \<Rightarrow> 's" and p cnt s
  assume "0 < K \<and> K < 2 ^ 31 \<and> K \<le> uint (scast (cnt :: c_int) :: c_ulong)"
  then have "uint (cnt - word_of_int K) < uint cnt" using count_down [of K cnt] by simp
  then have "unat (cnt - word_of_int K) < unat cnt" by (simp only: word_less_def [symmetric] word_less_nat_alt)
  then show "((K, body, p + K, cnt - word_of_int K, body p s), K, body, p, cnt, s)
      \<in> measure (\<lambda>(K, body, p, cnt, s). unat cnt)"
    by (simp only: in_measure prod.case)
qed (rule wf_measure)

declare chunks.simps [simp del]

definition simd_v1_combine :: "int \<Rightarrow> int \<Rightarrow> 'a combiner" where
  "simd_v1_combine base es OP IDENT v =
     (let arr = get_vec_start v;
      cnt = word_of_int (vec_length v) :: c_int;
      result = IDENT;
      accum = replicate (nat (VSIZE es)) IDENT;
      (data, cnt, result) = single (\<lambda>data. (base + es * data) mod VBYTES = 0) OP arr (0, cnt, result);
      (data, cnt, accum) = chunks (VSIZE es) (\<lambda>data accum.
        let chunk = load es arr data;
            accum = vop OP accum chunk
        in accum) (data, cnt, accum);
      (data, cnt, result) = single (\<lambda>data. False) OP arr (data, cnt, result);
      (i, result) = for_up 0 (VSIZE es) 1 (\<lambda>i result. OP result (accum ! nat i)) result
      in result)"

definition simd_v2_combine :: "int \<Rightarrow> int \<Rightarrow> 'a combiner" where
  "simd_v2_combine base es OP IDENT v =
     (let arr = get_vec_start v;
      cnt = word_of_int (vec_length v) :: c_int;
      result = IDENT;
      accum0 = replicate (nat (VSIZE es)) IDENT;
      accums = (accum0, accum0);
      (data, cnt, result) = single (\<lambda>data. (base + es * data) mod VBYTES = 0) OP arr (0, cnt, result);
      (data, cnt, accums) = chunks (2 * VBYTES div es) (\<lambda>data (accum0, accum1).
        let chunk0 = load es arr data;
            chunk1 = load es arr (data + VSIZE es);
            accum0 = vop OP accum0 chunk0;
            accum1 = vop OP accum1 chunk1
        in (accum0, accum1)) (data, cnt, accums);
      (data, cnt, result) = single (\<lambda>data. False) OP arr (data, cnt, result);
      (accum0, accum1) = accums;
      accum0 = vop OP accum0 accum1;
      (i, result) = for_up 0 (VSIZE es) 1 (\<lambda>i result. OP result (accum0 ! nat i)) result
      in result)"

definition simd_v4_combine :: "int \<Rightarrow> int \<Rightarrow> 'a combiner" where
  "simd_v4_combine base es OP IDENT v =
     (let arr = get_vec_start v;
      cnt = word_of_int (vec_length v) :: c_int;
      result = IDENT;
      accum0 = replicate (nat (VSIZE es)) IDENT;
      accums = (accum0, accum0, accum0, accum0);
      (data, cnt, result) = single (\<lambda>data. (base + es * data) mod VBYTES = 0) OP arr (0, cnt, result);
      (data, cnt, accums) = chunks (4 * VBYTES div es) (\<lambda>data (accum0, accum1, accum2, accum3).
        let chunk0 = load es arr data;
            chunk1 = load es arr (data + VSIZE es);
            chunk2 = load es arr (data + 2 * VBYTES div es);
            chunk3 = load es arr (data + 3 * VBYTES div es);
            accum0 = vop OP accum0 chunk0;
            accum1 = vop OP accum1 chunk1;
            accum2 = vop OP accum2 chunk2;
            accum3 = vop OP accum3 chunk3
        in (accum0, accum1, accum2, accum3)) (data, cnt, accums);
      (data, cnt, result) = single (\<lambda>data. False) OP arr (data, cnt, result);
      (accum0, accum1, accum2, accum3) = accums;
      accum0 = vop OP (vop OP accum0 accum1) (vop OP accum2 accum3);
      (i, result) = for_up 0 (VSIZE es) 1 (\<lambda>i result. OP result (accum0 ! nat i)) result
      in result)"

definition simd_v8_combine :: "int \<Rightarrow> int \<Rightarrow> 'a combiner" where
  "simd_v8_combine base es OP IDENT v =
     (let arr = get_vec_start v;
      cnt = word_of_int (vec_length v) :: c_int;
      result = IDENT;
      accum0 = replicate (nat (VSIZE es)) IDENT;
      accums = (accum0, accum0, accum0, accum0, accum0, accum0, accum0, accum0);
      (data, cnt, result) = single (\<lambda>data. (base + es * data) mod VBYTES = 0) OP arr (0, cnt, result);
      (data, cnt, accums) = chunks (8 * VBYTES div es) (\<lambda>data (accum0, accum1, accum2, accum3, accum4, accum5, accum6, accum7).
        let chunk0 = load es arr data;
            chunk1 = load es arr (data + VSIZE es);
            chunk2 = load es arr (data + 2 * VBYTES div es);
            chunk3 = load es arr (data + 3 * VBYTES div es);
            chunk4 = load es arr (data + 4 * VBYTES div es);
            chunk5 = load es arr (data + 5 * VBYTES div es);
            chunk6 = load es arr (data + 6 * VBYTES div es);
            chunk7 = load es arr (data + 7 * VBYTES div es);
            accum0 = vop OP accum0 chunk0;
            accum1 = vop OP accum1 chunk1;
            accum2 = vop OP accum2 chunk2;
            accum3 = vop OP accum3 chunk3;
            accum4 = vop OP accum4 chunk4;
            accum5 = vop OP accum5 chunk5;
            accum6 = vop OP accum6 chunk6;
            accum7 = vop OP accum7 chunk7
        in (accum0, accum1, accum2, accum3, accum4, accum5, accum6, accum7)) (data, cnt, accums);
      (data, cnt, result) = single (\<lambda>data. False) OP arr (data, cnt, result);
      (accum0, accum1, accum2, accum3, accum4, accum5, accum6, accum7) = accums;
      accum0 = vop OP (vop OP accum0 accum1) (vop OP accum2 accum3);
      accum0 = vop OP (vop OP accum0 (vop OP accum4 accum5)) (vop OP accum6 accum7);
      (i, result) = for_up 0 (VSIZE es) 1 (\<lambda>i result. OP result (accum0 ! nat i)) result
      in result)"

definition simd_v10_combine :: "int \<Rightarrow> int \<Rightarrow> 'a combiner" where
  "simd_v10_combine base es OP IDENT v =
     (let arr = get_vec_start v;
      cnt = word_of_int (vec_length v) :: c_int;
      result = IDENT;
      accum0 = replicate (nat (VSIZE es)) IDENT;
      accums = (accum0, accum0, accum0, accum0, accum0, accum0, accum0, accum0, accum0, accum0);
      (data, cnt, result) = single (\<lambda>data. (base + es * data) mod VBYTES = 0) OP arr (0, cnt, result);
      (data, cnt, accums) = chunks (10 * VBYTES div es) (\<lambda>data (accum0, accum1, accum2, accum3, accum4, accum5, accum6, accum7, accum8, accum9).
        let chunk0 = load es arr data;
            chunk1 = load es arr (data + VSIZE es);
            chunk2 = load es arr (data + 2 * VBYTES div es);
            chunk3 = load es arr (data + 3 * VBYTES div es);
            chunk4 = load es arr (data + 4 * VBYTES div es);
            chunk5 = load es arr (data + 5 * VBYTES div es);
            chunk6 = load es arr (data + 6 * VBYTES div es);
            chunk7 = load es arr (data + 7 * VBYTES div es);
            chunk8 = load es arr (data + 8 * VBYTES div es);
            chunk9 = load es arr (data + 9 * VBYTES div es);
            accum0 = vop OP accum0 chunk0;
            accum1 = vop OP accum1 chunk1;
            accum2 = vop OP accum2 chunk2;
            accum3 = vop OP accum3 chunk3;
            accum4 = vop OP accum4 chunk4;
            accum5 = vop OP accum5 chunk5;
            accum6 = vop OP accum6 chunk6;
            accum7 = vop OP accum7 chunk7;
            accum8 = vop OP accum8 chunk8;
            accum9 = vop OP accum9 chunk9
        in (accum0, accum1, accum2, accum3, accum4, accum5, accum6, accum7, accum8, accum9)) (data, cnt, accums);
      (data, cnt, result) = single (\<lambda>data. False) OP arr (data, cnt, result);
      (accum0, accum1, accum2, accum3, accum4, accum5, accum6, accum7, accum8, accum9) = accums;
      accum0 = vop OP (vop OP accum0 accum1) (vop OP accum2 accum3);
      accum0 = vop OP (vop OP accum0 (vop OP accum4 accum5)) (vop OP accum6 accum7);
      accum0 = vop OP accum0 (vop OP accum8 accum9);
      (i, result) = for_up 0 (VSIZE es) 1 (\<lambda>i result. OP result (accum0 ! nat i)) result
      in result)"

definition simd_v12_combine :: "int \<Rightarrow> int \<Rightarrow> 'a combiner" where
  "simd_v12_combine base es OP IDENT v =
     (let arr = get_vec_start v;
      cnt = word_of_int (vec_length v) :: c_int;
      result = IDENT;
      accum0 = replicate (nat (VSIZE es)) IDENT;
      accums = (accum0, accum0, accum0, accum0, accum0, accum0, accum0, accum0, accum0, accum0, accum0, accum0);
      (data, cnt, result) = single (\<lambda>data. (base + es * data) mod VBYTES = 0) OP arr (0, cnt, result);
      (data, cnt, accums) = chunks (12 * VBYTES div es) (\<lambda>data (accum0, accum1, accum2, accum3, accum4, accum5, accum6, accum7, accum8, accum9, accum10, accum11).
        let chunk0 = load es arr data;
            chunk1 = load es arr (data + VSIZE es);
            chunk2 = load es arr (data + 2 * VBYTES div es);
            chunk3 = load es arr (data + 3 * VBYTES div es);
            chunk4 = load es arr (data + 4 * VBYTES div es);
            chunk5 = load es arr (data + 5 * VBYTES div es);
            chunk6 = load es arr (data + 6 * VBYTES div es);
            chunk7 = load es arr (data + 7 * VBYTES div es);
            chunk8 = load es arr (data + 8 * VBYTES div es);
            chunk9 = load es arr (data + 9 * VBYTES div es);
            chunk10 = load es arr (data + 10 * VBYTES div es);
            chunk11 = load es arr (data + 11 * VBYTES div es);
            accum0 = vop OP accum0 chunk0;
            accum1 = vop OP accum1 chunk1;
            accum2 = vop OP accum2 chunk2;
            accum3 = vop OP accum3 chunk3;
            accum4 = vop OP accum4 chunk4;
            accum5 = vop OP accum5 chunk5;
            accum6 = vop OP accum6 chunk6;
            accum7 = vop OP accum7 chunk7;
            accum8 = vop OP accum8 chunk8;
            accum9 = vop OP accum9 chunk9;
            accum10 = vop OP accum10 chunk10;
            accum11 = vop OP accum11 chunk11
        in (accum0, accum1, accum2, accum3, accum4, accum5, accum6, accum7, accum8, accum9, accum10, accum11)) (data, cnt, accums);
      (data, cnt, result) = single (\<lambda>data. False) OP arr (data, cnt, result);
      (accum0, accum1, accum2, accum3, accum4, accum5, accum6, accum7, accum8, accum9, accum10, accum11) = accums;
      accum0 = vop OP (vop OP accum0 accum1) (vop OP accum2 accum3);
      accum0 = vop OP (vop OP accum0 (vop OP accum4 accum5)) (vop OP accum6 accum7);
      accum0 = vop OP (vop OP accum0 (vop OP accum8 accum9)) (vop OP accum10 accum11);
      (i, result) = for_up 0 (VSIZE es) 1 (\<lambda>i result. OP result (accum0 ! nat i)) result
      in result)"

definition simd_v2a_combine :: "int \<Rightarrow> int \<Rightarrow> 'a combiner" where
  "simd_v2a_combine base es OP IDENT v =
     (let arr = get_vec_start v;
      cnt = word_of_int (vec_length v) :: c_int;
      result = IDENT;
      accum = replicate (nat (VSIZE es)) IDENT;
      (data, cnt, result) = single (\<lambda>data. (base + es * data) mod VBYTES = 0) OP arr (0, cnt, result);
      (data, cnt, accum) = chunks (2 * VBYTES div es) (\<lambda>data accum.
        let chunk0 = load es arr data;
            chunk1 = load es arr (data + VSIZE es);
            accum = vop OP accum (vop OP chunk0 chunk1)
        in accum) (data, cnt, accum);
      (data, cnt, result) = single (\<lambda>data. False) OP arr (data, cnt, result);
      (i, result) = for_up 0 (VSIZE es) 1 (\<lambda>i result. OP result (accum ! nat i)) result
      in result)"

definition simd_v4a_combine :: "int \<Rightarrow> int \<Rightarrow> 'a combiner" where
  "simd_v4a_combine base es OP IDENT v =
     (let arr = get_vec_start v;
      cnt = word_of_int (vec_length v) :: c_int;
      result = IDENT;
      accum = replicate (nat (VSIZE es)) IDENT;
      (data, cnt, result) = single (\<lambda>data. (base + es * data) mod VBYTES = 0) OP arr (0, cnt, result);
      (data, cnt, accum) = chunks (4 * VBYTES div es) (\<lambda>data accum.
        let chunk0 = load es arr data;
            chunk1 = load es arr (data + VSIZE es);
            chunk2 = load es arr (data + 2 * VBYTES div es);
            chunk3 = load es arr (data + 3 * VBYTES div es);
            accum = vop OP accum (vop OP (vop OP chunk0 chunk1) (vop OP chunk2 chunk3))
        in accum) (data, cnt, accum);
      (data, cnt, result) = single (\<lambda>data. False) OP arr (data, cnt, result);
      (i, result) = for_up 0 (VSIZE es) 1 (\<lambda>i result. OP result (accum ! nat i)) result
      in result)"

definition simd_v8a_combine :: "int \<Rightarrow> int \<Rightarrow> 'a combiner" where
  "simd_v8a_combine base es OP IDENT v =
     (let arr = get_vec_start v;
      cnt = word_of_int (vec_length v) :: c_int;
      result = IDENT;
      accum = replicate (nat (VSIZE es)) IDENT;
      (data, cnt, result) = single (\<lambda>data. (base + es * data) mod VBYTES = 0) OP arr (0, cnt, result);
      (data, cnt, accum) = chunks (8 * VBYTES div es) (\<lambda>data accum.
        let chunk0 = load es arr data;
            chunk1 = load es arr (data + VSIZE es);
            chunk2 = load es arr (data + 2 * VBYTES div es);
            chunk3 = load es arr (data + 3 * VBYTES div es);
            chunk4 = load es arr (data + 4 * VBYTES div es);
            chunk5 = load es arr (data + 5 * VBYTES div es);
            chunk6 = load es arr (data + 6 * VBYTES div es);
            chunk7 = load es arr (data + 7 * VBYTES div es);
            accum = vop OP accum (vop OP (vop OP (vop OP chunk0 chunk1) (vop OP chunk2 chunk3)) (vop OP (vop OP chunk4 chunk5) (vop OP chunk6 chunk7)))
        in accum) (data, cnt, accum);
      (data, cnt, result) = single (\<lambda>data. False) OP arr (data, cnt, result);
      (i, result) = for_up 0 (VSIZE es) 1 (\<lambda>i result. OP result (accum ! nat i)) result
      in result)"

section \<open>Correctness\<close>

lemma for_up_nth:
  assumes "0 \<le> n" "length xs = nat n"
  shows "(case for_up 0 n 1 (\<lambda>i r. OP r (xs ! nat i)) r of (i, r) \<Rightarrow> r) = foldl OP r xs"
proof -
  obtain j t where l: "for_up 0 n 1 (\<lambda>i r. OP r (xs ! nat i)) r = (j, t)" by (rule prod.exhaust)
  have "(0 \<le> j \<and> j \<le> n \<and> t = foldl OP r (take (nat j) xs)) \<and> \<not> j < n"
  proof (rule for_up_inv [OF l])
    fix i s assume "0 \<le> i \<and> i \<le> n \<and> s = foldl OP r (take (nat i) xs)" "i < n"
    then show "0 \<le> i + 1 \<and> i + 1 \<le> n \<and> OP s (xs ! nat i) = foldl OP r (take (nat (i + 1)) xs)"
      using assms(2) by (simp add: nat_add_distrib take_Suc_conv_app_nth)
  qed (use assms in simp_all)
  then have "j = n" "t = foldl OP r (take (nat j) xs)" by simp_all
  then show ?thesis using assms by (simp add: l)
qed

lemma length_vop [simp]: "length (vop OP a b) = min (length a) (length b)"
  by (simp add: vop_def)

lemma length_load [simp]: "length (load es arr p) = nat (VSIZE es)"
  by (simp add: load_def)

text \<open>Sizes and offsets as multiples of the vector size.\<close>

lemma times_VSIZE: "es dvd VBYTES \<Longrightarrow> m * VBYTES div es = m * VSIZE es"
  by (simp add: VSIZE_def div_mult_swap)

lemma VSIZE_bounds: "0 < es \<Longrightarrow> es dvd VBYTES \<Longrightarrow> 0 < VSIZE es \<and> VSIZE es \<le> 32"
proof -
  assume e: "0 < es" "es dvd VBYTES"
  then obtain m where m: "32 = es * m" unfolding VBYTES_def dvd_def by blast
  then have d: "VSIZE es = m" using e(1) by (metis VSIZE_def VBYTES_def nonzero_mult_div_cancel_left less_irrefl)
  have "0 < m" using m e(1) by (metis zero_less_mult_pos zero_less_numeral)
  moreover have "m dvd es * m" by simp
  then have "m dvd 32" by (simp only: m)
  ultimately show ?thesis by (simp add: d zdvd_imp_le)
qed

context comm_op
begin

lemma fold_out: "foldl OP (OP a x) xs = OP a (foldl OP x xs)"
  by (induction xs arbitrary: x) (simp_all add: assoc)

lemma fold_start: "foldl OP a xs = OP a (foldl OP e xs)"
  using fold_out [of a e xs] by (simp add: right_neutral)

lemma fold_replicate: "foldl OP e (replicate n e) = e"
  by (induction n) (simp_all add: left_neutral)

lemma fold_vop: "length a = length b \<Longrightarrow> foldl OP e (vop OP a b) = OP (foldl OP e a) (foldl OP e b)"
proof (induction a b rule: list_induct2)
  case (Cons x xs y ys)
  then show ?case
    using fold_start [of x xs] fold_start [of y ys] fold_start [of "OP x y" "vop OP xs ys"]
    by (simp add: ac) (simp add: vop_def ac)
qed (simp add: vop_def left_neutral)

lemma segment_load: "foldl OP e (load es d i) = segment OP e d i (VSIZE es)"
proof -
  have "map (\<lambda>j. i + int j) [0..<n] = [i..i + int n - 1]" for n
    by (induction n) (simp_all add: upto_rec2 add.commute)
  from this [of "nat (VSIZE es)"] show ?thesis
    by (cases "0 \<le> VSIZE es") (simp_all add: load_def segment_def flip: map_map [unfolded comp_def, of "at d" "\<lambda>j. i + int j"])
qed

lemma segment_add:
  assumes "0 \<le> k" "0 \<le> l"
  shows "segment OP e d i (k + l) = OP (segment OP e d i k) (segment OP e d (i + k) l)"
  using assms(2)
proof (induction l rule: int_ge_induct)
  case (step l)
  then show ?case
    using assms(1) segment_1 [of "k + l" OP e d i] segment_1 [of l OP e d "i + k"]
    by (simp add: add.assoc [symmetric] assoc)
qed (simp add: right_neutral)

text \<open>A chunk of several registers is the combination of the registers.\<close>

lemma segment_chunk:
  assumes "0 \<le> VSIZE es"
  shows "segment OP e d i (numeral k * VSIZE es)
    = OP (segment OP e d i ((numeral k - 1) * VSIZE es)) (foldl OP e (load es d (i + (numeral k - 1) * VSIZE es)))"
proof -
  have "1 \<le> (numeral k :: int)" by (rule one_le_numeral)
  then have "0 \<le> (numeral k :: int) - 1" by linarith
  then have "0 \<le> (numeral k - 1) * VSIZE es" using assms by (rule mult_nonneg_nonneg)
  moreover have "(numeral k - 1) * VSIZE es + VSIZE es = numeral k * VSIZE es"
    by (simp only: left_diff_distrib mult_1 diff_add_cancel)
  ultimately show ?thesis using segment_add [of "(numeral k - 1) * VSIZE es" "VSIZE es" d i] assms
    by (simp only: segment_load)
qed

lemma single_inv:
  "single stop OP d (i, cnt, r) = (i', cnt', r') \<Longrightarrow> 0 \<le> i \<Longrightarrow> OP r t = combined OP e d i \<Longrightarrow>
     0 \<le> i' \<and> i' + uint cnt' = i + uint cnt \<and> OP r' t = combined OP e d i' \<and> (cnt' = 0 \<or> stop i')"
proof (induction "unat cnt" arbitrary: i cnt r rule: less_induct)
  case less
  show ?case
  proof (cases "\<not> stop i \<and> cnt \<noteq> 0")
    case True
    then have u: "uint (cnt - 1) = uint cnt - 1"
      using uint_sub_lem [of 1 cnt] unsigned_greater_eq [of cnt] by (simp add: int_one_le_iff_zero_less less_le uint_0_iff)
    have "OP (OP r (at d i)) t = combined OP e d (i + 1)"
      using less.prems(2,3) by (simp add: combined_1 ac flip: less.prems(3))
    moreover have "single stop OP d (i + 1, cnt - 1, OP r (at d i)) = (i', cnt', r')"
      using less.prems(1) True by (subst (asm) single.simps) simp
    moreover have "unat (cnt - 1) < unat cnt" using True by (simp add: measure_unat)
    ultimately show ?thesis using less.hyps [of "cnt - 1" "i + 1" "OP r (at d i)"] less.prems(2) u by auto
  next
    case False
    then show ?thesis using less.prems by (subst (asm) single.simps) auto
  qed
qed

lemma chunks_inv:
  assumes body: "\<And>i s. 0 \<le> i \<Longrightarrow> ok s \<Longrightarrow> ok (body i s) \<and> tot (body i s) = OP (tot s) (segment OP e d i K)"
  shows "chunks K body (i, cnt, s) = (i', cnt', s') \<Longrightarrow> 0 \<le> i \<Longrightarrow> ok s \<Longrightarrow> OP r (tot s) = combined OP e d i \<Longrightarrow>
    0 \<le> i' \<and> i' + uint cnt' = i + uint cnt \<and> ok s' \<and> OP r (tot s') = combined OP e d i'"
proof (induction "unat cnt" arbitrary: i cnt s rule: less_induct)
  case less
  show ?case
  proof (cases "0 < K \<and> K < 2 ^ 31 \<and> K \<le> uint (scast cnt :: c_ulong)")
    case True
    then have u: "uint (cnt - word_of_int K) = uint cnt - K" using count_down by blast
    then have "unat (cnt - word_of_int K) < unat cnt"
      using True unfolding word_less_nat_alt [symmetric] word_less_def by linarith
    moreover have "chunks K body (i + K, cnt - word_of_int K, body i s) = (i', cnt', s')"
      using less.prems(1) True by (subst (asm) chunks.simps) simp
    moreover have "OP r (tot (body i s)) = combined OP e d (i + K)"
      using body [OF less.prems(2,3)] less.prems(2,4) True by (simp add: combined_segment flip: assoc)
    ultimately show ?thesis
      using less.hyps [of "cnt - word_of_int K" "i + K" "body i s"] body [OF less.prems(2,3)] less.prems(2) True u by auto
  next
    case False
    then show ?thesis using less.prems by (subst (asm) chunks.simps) auto
  qed
qed

lemma lanes:
  assumes "0 \<le> n" "length xs = nat n"
  shows "(case for_up 0 n 1 (\<lambda>i r. OP r (xs ! nat i)) r of (i, r) \<Rightarrow> r) = OP r (foldl OP e xs)"
  using for_up_nth [OF assms, of OP r] fold_start [of r xs] by simp

text \<open>The shape the functions share. What is combined are the first \<open>len v mod 2 ^ 32\<close> elements.\<close>

lemma simd:
  assumes init: "ok s0" "tot s0 = e"
    and body: "\<And>i s. 0 \<le> i \<Longrightarrow> ok s \<Longrightarrow> ok (body i s) \<and> tot (body i s) = OP (tot s) (segment OP e d i K)"
    and fin: "\<And>r s. ok s \<Longrightarrow> fin r s = OP r (tot s)"
  shows "(case single stop OP d (0, word_of_int n, e) of (i, cnt, r) \<Rightarrow> case chunks K body (i, cnt, s0) of (i, cnt, s) \<Rightarrow>
      case single (\<lambda>i. False) OP d (i, cnt, r) of (i, cnt, r) \<Rightarrow> fin r s) = combined OP e d (n mod 2 ^ 32)"
proof -
  obtain i1 c1 r1 where 1: "single stop OP d (0, word_of_int n, e) = (i1, c1, r1)" by (rule prod_cases3)
  obtain i2 c2 s2 where 2: "chunks K body (i1, c1, s0) = (i2, c2, s2)" by (rule prod_cases3)
  obtain i3 c3 r3 where 3: "single (\<lambda>i. False) OP d (i2, c2, r1) = (i3, c3, r3)" by (rule prod_cases3)
  have s1: "0 \<le> i1 \<and> i1 + uint c1 = uint (word_of_int n :: c_int) \<and> OP r1 (tot s0) = combined OP e d i1"
    using single_inv [OF 1, of e] by (simp add: init right_neutral)
  then have s2: "0 \<le> i2 \<and> i2 + uint c2 = uint (word_of_int n :: c_int) \<and> ok s2 \<and> OP r1 (tot s2) = combined OP e d i2"
    using chunks_inv [of ok body tot d K, OF body 2, of r1] init by simp
  then have a: "0 \<le> i2" and b: "OP r1 (tot s2) = combined OP e d i2" and u: "i2 + uint c2 = uint (word_of_int n :: c_int)"
    by blast+
  have "i3 + uint c3 = i2 + uint c2" "OP r3 (tot s2) = combined OP e d i3" "c3 = 0"
    using single_inv [OF 3 a b] by blast+
  moreover have "uint (word_of_int n :: c_int) = n mod 2 ^ 32" by (simp only: uint_word_of_int) simp
  ultimately have "i3 = n mod 2 ^ 32" "OP r3 (tot s2) = combined OP e d i3" using u by simp_all
  then show ?thesis using s2 by (simp add: 1 2 3 fin)
qed

end

lemmas simd_defs = vec_length_def get_vec_start_def Let_def

context comm_op
begin

lemma simd_v1_combine_eq:
  assumes "0 < es" "es dvd VBYTES"
  shows "simd_v1_combine base es OP e v = combined OP e (data v) (len v mod 2 ^ 32)"
  unfolding simd_v1_combine_def simd_defs
  by (rule simd [where ok = "\<lambda>accum. list_all (\<lambda>a. length a = nat (VSIZE es)) [accum]"
        and tot = "\<lambda>accum. foldl OP e (accum)"])
    (use VSIZE_bounds [OF assms] in \<open>auto simp: lanes fold_replicate fold_vop times_VSIZE [OF assms(2)] segment_chunk segment_load [symmetric] ac\<close>)

lemma simd_v2_combine_eq:
  assumes "0 < es" "es dvd VBYTES"
  shows "simd_v2_combine base es OP e v = combined OP e (data v) (len v mod 2 ^ 32)"
  unfolding simd_v2_combine_def simd_defs
  by (rule simd [where ok = "\<lambda>(accum0, accum1). list_all (\<lambda>a. length a = nat (VSIZE es)) [accum0, accum1]"
        and tot = "\<lambda>(accum0, accum1). foldl OP e ((vop OP accum0 accum1))"])
    (use VSIZE_bounds [OF assms] in \<open>auto simp: lanes fold_replicate fold_vop times_VSIZE [OF assms(2)] segment_chunk segment_load [symmetric] ac\<close>)

lemma simd_v4_combine_eq:
  assumes "0 < es" "es dvd VBYTES"
  shows "simd_v4_combine base es OP e v = combined OP e (data v) (len v mod 2 ^ 32)"
  unfolding simd_v4_combine_def simd_defs
  by (rule simd [where ok = "\<lambda>(accum0, accum1, accum2, accum3). list_all (\<lambda>a. length a = nat (VSIZE es)) [accum0, accum1, accum2, accum3]"
        and tot = "\<lambda>(accum0, accum1, accum2, accum3). foldl OP e ((vop OP (vop OP accum0 accum1) (vop OP accum2 accum3)))"])
    (use VSIZE_bounds [OF assms] in \<open>auto simp: lanes fold_replicate fold_vop times_VSIZE [OF assms(2)] segment_chunk segment_load [symmetric] ac\<close>)

lemma simd_v8_combine_eq:
  assumes "0 < es" "es dvd VBYTES"
  shows "simd_v8_combine base es OP e v = combined OP e (data v) (len v mod 2 ^ 32)"
  unfolding simd_v8_combine_def simd_defs
  by (rule simd [where ok = "\<lambda>(accum0, accum1, accum2, accum3, accum4, accum5, accum6, accum7). list_all (\<lambda>a. length a = nat (VSIZE es)) [accum0, accum1, accum2, accum3, accum4, accum5, accum6, accum7]"
        and tot = "\<lambda>(accum0, accum1, accum2, accum3, accum4, accum5, accum6, accum7). foldl OP e ((vop OP (vop OP (vop OP (vop OP accum0 accum1) (vop OP accum2 accum3)) (vop OP accum4 accum5)) (vop OP accum6 accum7)))"])
    (use VSIZE_bounds [OF assms] in \<open>auto simp: lanes fold_replicate fold_vop times_VSIZE [OF assms(2)] segment_chunk segment_load [symmetric] ac\<close>)

lemma simd_v10_combine_eq:
  assumes "0 < es" "es dvd VBYTES"
  shows "simd_v10_combine base es OP e v = combined OP e (data v) (len v mod 2 ^ 32)"
  unfolding simd_v10_combine_def simd_defs
  by (rule simd [where ok = "\<lambda>(accum0, accum1, accum2, accum3, accum4, accum5, accum6, accum7, accum8, accum9). list_all (\<lambda>a. length a = nat (VSIZE es)) [accum0, accum1, accum2, accum3, accum4, accum5, accum6, accum7, accum8, accum9]"
        and tot = "\<lambda>(accum0, accum1, accum2, accum3, accum4, accum5, accum6, accum7, accum8, accum9). foldl OP e ((vop OP (vop OP (vop OP (vop OP (vop OP accum0 accum1) (vop OP accum2 accum3)) (vop OP accum4 accum5)) (vop OP accum6 accum7)) (vop OP accum8 accum9)))"])
    (use VSIZE_bounds [OF assms] in \<open>auto simp: lanes fold_replicate fold_vop times_VSIZE [OF assms(2)] segment_chunk segment_load [symmetric] ac\<close>)

lemma simd_v12_combine_eq:
  assumes "0 < es" "es dvd VBYTES"
  shows "simd_v12_combine base es OP e v = combined OP e (data v) (len v mod 2 ^ 32)"
  unfolding simd_v12_combine_def simd_defs
  by (rule simd [where ok = "\<lambda>(accum0, accum1, accum2, accum3, accum4, accum5, accum6, accum7, accum8, accum9, accum10, accum11). list_all (\<lambda>a. length a = nat (VSIZE es)) [accum0, accum1, accum2, accum3, accum4, accum5, accum6, accum7, accum8, accum9, accum10, accum11]"
        and tot = "\<lambda>(accum0, accum1, accum2, accum3, accum4, accum5, accum6, accum7, accum8, accum9, accum10, accum11). foldl OP e ((vop OP (vop OP (vop OP (vop OP (vop OP (vop OP accum0 accum1) (vop OP accum2 accum3)) (vop OP accum4 accum5)) (vop OP accum6 accum7)) (vop OP accum8 accum9)) (vop OP accum10 accum11)))"])
    (use VSIZE_bounds [OF assms] in \<open>auto simp: lanes fold_replicate fold_vop times_VSIZE [OF assms(2)] segment_chunk segment_load [symmetric] ac\<close>)

lemma simd_v2a_combine_eq:
  assumes "0 < es" "es dvd VBYTES"
  shows "simd_v2a_combine base es OP e v = combined OP e (data v) (len v mod 2 ^ 32)"
  unfolding simd_v2a_combine_def simd_defs
  by (rule simd [where ok = "\<lambda>accum. list_all (\<lambda>a. length a = nat (VSIZE es)) [accum]"
        and tot = "\<lambda>accum. foldl OP e (accum)"])
    (use VSIZE_bounds [OF assms] in \<open>auto simp: lanes fold_replicate fold_vop times_VSIZE [OF assms(2)] segment_chunk segment_load [symmetric] ac\<close>)

lemma simd_v4a_combine_eq:
  assumes "0 < es" "es dvd VBYTES"
  shows "simd_v4a_combine base es OP e v = combined OP e (data v) (len v mod 2 ^ 32)"
  unfolding simd_v4a_combine_def simd_defs
  by (rule simd [where ok = "\<lambda>accum. list_all (\<lambda>a. length a = nat (VSIZE es)) [accum]"
        and tot = "\<lambda>accum. foldl OP e (accum)"])
    (use VSIZE_bounds [OF assms] in \<open>auto simp: lanes fold_replicate fold_vop times_VSIZE [OF assms(2)] segment_chunk segment_load [symmetric] ac\<close>)

lemma simd_v8a_combine_eq:
  assumes "0 < es" "es dvd VBYTES"
  shows "simd_v8a_combine base es OP e v = combined OP e (data v) (len v mod 2 ^ 32)"
  unfolding simd_v8a_combine_def simd_defs
  by (rule simd [where ok = "\<lambda>accum. list_all (\<lambda>a. length a = nat (VSIZE es)) [accum]"
        and tot = "\<lambda>accum. foldl OP e (accum)"])
    (use VSIZE_bounds [OF assms] in \<open>auto simp: lanes fold_replicate fold_vop times_VSIZE [OF assms(2)] segment_chunk segment_load [symmetric] ac\<close>)

end

section \<open>The table of combining functions\<close>

text \<open>
  \<open>benchmarks\<close> of \<open>benchmark.c\<close>: every function with the one it is checked against. The result goes to the
  variable \<open>combine_result\<close>, outside the vector.
\<close>

record 'a benchmark =
  cfunct :: "'a combiner"
  checkfunct :: "'a combiner"
  description :: string

definition add_combiner :: "'a combiner \<Rightarrow> 'a combiner \<Rightarrow> string \<Rightarrow> 'a benchmark list \<Rightarrow> 'a benchmark list" where
  "add_combiner f fc descr benchmarks = benchmarks @ [\<lparr>cfunct = f, checkfunct = fc, description = descr\<rparr>]"

definition register_combiners :: "int \<Rightarrow> int \<Rightarrow> 'a benchmark list \<Rightarrow> 'a benchmark list" where
  "register_combiners base es =
     fold (\<lambda>(f, descr). add_combiner f (combine1 Apart) descr)
       [(combine1 Apart, ''combine1: Maximum use of data abstraction''),
        (combine2 Apart, ''combine2: Take vec_length() out of loop''),
        (combine3 Apart, ''combine3: Array reference to vector data''),
        (combine3w Apart, ''combine3w: Update *dest within loop only with write''),
        (combine4, ''combine4: Array reference, accumulate in temporary''),
        (combine4b, ''combine4b: Include bonds check in loop''),
        (combine4p, ''combine4p: Pointer reference, accumulate in temporary''),
        (combine5, ''combine5: Array code, unrolled by 2''),
        (combine5p, ''combine5p: Pointer code, unrolled by 2, for loop''),
        (unroll2aw_combine, ''unroll2aw: Array code, unrolled by 2, while loop''),
        (unroll3a_combine, ''unroll3a: Array code, unrolled by 3''),
        (unroll4a_combine, ''unroll4a: Array code, unrolled by 4''),
        (unroll5a_combine, ''unroll5a: Array code, unrolled by 5''),
        (unroll6a_combine, ''unroll6a: Array code, unrolled by 6''),
        (unroll7a_combine, ''unroll7a: Array code, unrolled by 7''),
        (unroll8a_combine, ''unroll8a: Array code, unrolled by 8''),
        (unroll9a_combine, ''unroll9a: Array code, unrolled by 9''),
        (unroll10a_combine, ''unroll10a: Array code, unrolled by 10''),
        (unroll16a_combine, ''unroll16a: Array code, unrolled by 16''),
        (unroll2_combine, ''unroll2: Pointer code, unrolled by 2''),
        (unroll3_combine, ''unroll3: Pointer code, unrolled by 3''),
        (unroll4_combine, ''unroll4: Pointer code, unrolled by 4''),
        (unroll8_combine, ''unroll8: Pointer code, unrolled by 8''),
        (unroll16_combine, ''unroll16: Pointer code, unrolled by 16''),
        (combine6, ''combine6: Array code, unrolled by 2, Superscalar x2''),
        (unroll4x2a_combine, ''unroll4x2a: Array code, unrolled by 4, Superscalar x2''),
        (unroll8x2a_combine, ''unroll8x2a: Array code, unrolled by 8, Superscalar x2''),
        (unroll3x3a_combine, ''unroll3x3a: Array code, unrolled by 3, Superscalar x3''),
        (unroll4x4a_combine, ''unroll4x4a: Array code, unrolled by 4, Superscalar x4''),
        (unroll5x5a_combine, ''unroll5x5a: Array code, unrolled by 5, Superscalar x5''),
        (unroll6x6a_combine, ''unroll6x6a: Array code, unrolled by 6, Superscalar x6''),
        (unroll7x7a_combine, ''unroll7x7a: Array code, unrolled by 7, Superscalar x7''),
        (unroll8x4a_combine, ''unroll8x4a: Array code, unrolled by 8, Superscalar x4''),
        (unroll8x8a_combine, ''unroll8x8a: Array code, unrolled by 8, Superscalar x8''),
        (unroll9x9a_combine, ''unroll9x9a: Array code, unrolled by 9, Superscalar x9''),
        (unroll10x10a_combine, ''unroll10x10a: Array code, unrolled by 10, Superscalar x10''),
        (unroll12x6a_combine, ''unroll2x6a: Array code, unrolled by 12, Superscalar x6''),
        (unroll12x12a_combine, ''unroll12x12a: Array code, unrolled by 12, Superscalar x12''),
        (unroll16x16a_combine, ''unroll16x16a: Array code, unrolled by 16, Superscalar x16''),
        (unroll20x20a_combine, ''unroll20x20a: Array code, unrolled by 20, Superscalar x20''),
        (unroll8x2_combine, ''unroll8x2: Pointer code, unrolled by 8, Superscalar x2''),
        (unroll8x4_combine, ''unroll8x4: Pointer code, unrolled by 8, Superscalar x4''),
        (unroll8x8_combine, ''unroll8x8: Pointer code, unrolled by 8, Superscalar x8''),
        (unroll9x3_combine, ''unroll9x3: Pointer code, unrolled by 9, Superscalar x3''),
        (unrollx2as_combine, ''unrollx2as: Array code, Unroll x2, Superscalar x2, noninterleaved''),
        (combine7, ''combine7: Array code, unrolled by 2, different associativity''),
        (unroll3aa_combine, ''unroll3aa: Array code, unrolled by 3, Different Associativity''),
        (unroll4aa_combine, ''unroll4aa: Array code, unrolled by 4, Different Associativity''),
        (unroll5aa_combine, ''unroll5aa: Array code, unrolled by 5, Different Associativity''),
        (unroll6aa_combine, ''unroll6aa: Array code, unrolled by 6, Different Associativity''),
        (unroll7aa_combine, ''unroll7aa: Array code, unrolled by 7, Different Associativity''),
        (unroll8aa_combine, ''unroll8aa: Array code, unrolled by 8, Different Associativity''),
        (unroll9aa_combine, ''unroll9aa: Array code, unrolled by 9, Different Associativity''),
        (unroll10aa_combine, ''unroll10aa: Array code, unrolled by 10, Different Associativity''),
        (unroll12aa_combine, ''unroll12aa: Array code, unrolled by 12, Different Associativity''),
        (simd_v1_combine base es, ''simd_v1: SSE code, 1*VSIZE-way parallelism''),
        (simd_v2_combine base es, ''simd_v2: SSE code, 2*VSIZE-way parallelism''),
        (simd_v4_combine base es, ''simd_v4: SSE code, 4*VSIZE-way parallelism''),
        (simd_v8_combine base es, ''simd_v8: SSE code, 8*VSIZE-way parallelism''),
        (simd_v10_combine base es, ''simd_v10: SSE code, 10*VSIZE-way parallelism''),
        (simd_v12_combine base es, ''simd_v12: SSE code, 12*VSIZE-way parallelism''),
        (simd_v2a_combine base es, ''simd_v2a: SSE code, 2*VSIZE-way parallelism, reassociate''),
        (simd_v4a_combine base es, ''simd_v4a: SSE code, 4*VSIZE-way parallelism, reassociate''),
        (simd_v8a_combine base es, ''simd_v8a: SSE code, 8*VSIZE-way parallelism, reassociate'')]"

text \<open>The comparison of \<open>run_test\<close>: whether it reports the function.\<close>

definition run_test_reports :: "('a option \<Rightarrow> 'a option \<Rightarrow> 'a option) \<Rightarrow> 'a option \<Rightarrow> 'a vec_rec \<Rightarrow> 'a benchmark \<Rightarrow> bool" where
  "run_test_reports OP IDENT v b =
     (let combine_result = cfunct b OP IDENT v;
          good_result = checkfunct b OP IDENT v
      in combine_result \<noteq> good_result)"

text \<open>The functions by the law they need.\<close>

definition in_order :: "'a combiner list" where
  "in_order =
    [combine1 Apart, combine2 Apart, combine3 Apart, combine3w Apart,
     combine4b, unroll2aw_combine, combine4, combine4p, combine5, unroll3a_combine, combine5p,
     unroll4a_combine, unroll5a_combine, unroll6a_combine, unroll7a_combine, unroll8a_combine,
     unroll9a_combine, unroll10a_combine, unroll16a_combine, unroll2_combine, unroll3_combine,
     unroll4_combine, unroll8_combine, unroll16_combine]"

definition reassociating :: "'a combiner list" where
  "reassociating =
    [unrollx2as_combine, unroll4x2as_combine, combine7, unroll3aa_combine, unroll4aa_combine,
     unroll5aa_combine, unroll6aa_combine, unroll7aa_combine, unroll8aa_combine, unroll9aa_combine,
     unroll10aa_combine, unroll12aa_combine]"

lemmas in_order_eqs = combine1_eq combine2_eq combine3_eq combine3w_eq combine4b_eq unroll2aw_combine_eq
  combine4_eq combine4p_eq combine5_eq unroll3a_combine_eq combine5p_eq unroll4a_combine_eq
  unroll5a_combine_eq unroll6a_combine_eq unroll7a_combine_eq unroll8a_combine_eq
  unroll9a_combine_eq unroll10a_combine_eq unroll16a_combine_eq unroll2_combine_eq
  unroll3_combine_eq unroll4_combine_eq unroll8_combine_eq unroll16_combine_eq

text \<open>A function may be used on a vector: the vector has cells, or the function does not need them.\<close>

definition usable :: "'a combiner \<Rightarrow> 'a vec_rec \<Rightarrow> bool" where
  "usable c v \<longleftrightarrow> (data v = [] \<longrightarrow> c \<notin> set null_readers)"

lemma in_order_ok:
  assumes "vec_ok v" "c \<in> set in_order" "usable c v"
  shows "c OP e v = combined OP e (data v) (len v)"
proof -
  have "0 \<le> len v" using assms(1) by (simp add: vec_ok_def)
  then show ?thesis using assms unfolding in_order_def
    by (cases "data v = []") (auto simp: in_order_eqs dest_ok_def aliased_def usable_def null_readers_def)
qed

context assoc_op
begin

lemmas reassociating_eqs =
  unrollx2as_combine_eq unroll4x2as_combine_eq combine7_eq unroll3aa_combine_eq
  unroll4aa_combine_eq unroll5aa_combine_eq unroll6aa_combine_eq unroll7aa_combine_eq
  unroll8aa_combine_eq unroll9aa_combine_eq unroll10aa_combine_eq unroll12aa_combine_eq

lemma reassociating_ok:
  assumes "vec_ok v" "c \<in> set reassociating"
  shows "c OP e v = combined OP e (data v) (len v)"
proof -
  have "0 \<le> len v" using assms(1) by (simp add: vec_ok_def)
  then show ?thesis using assms unfolding reassociating_def by (auto simp: reassociating_eqs)
qed

end

context comm_op
begin

lemmas several_eqs =
  combine6_eq unroll4x2a_combine_eq unroll8x2a_combine_eq unroll3x3a_combine_eq
  unroll4x4a_combine_eq unroll8x4a_combine_eq unroll12x6a_combine_eq unroll12x12a_combine_eq
  unroll16x16a_combine_eq unroll20x20a_combine_eq unroll5x5a_combine_eq unroll6x6a_combine_eq
  unroll7x7a_combine_eq unroll8x8a_combine_eq unroll9x9a_combine_eq unroll10x10a_combine_eq
  unroll8x2_combine_eq unroll9x3_combine_eq unroll8x4_combine_eq unroll8x8_combine_eq

lemmas simd_eqs =
  simd_v1_combine_eq simd_v2_combine_eq simd_v4_combine_eq simd_v8_combine_eq simd_v10_combine_eq
  simd_v12_combine_eq simd_v2a_combine_eq simd_v4a_combine_eq simd_v8a_combine_eq

lemma registered:
  assumes "vec_ok v" "len v < 2 ^ 32" "0 < es" "es dvd VBYTES" "b \<in> set (register_combiners base es [])" "usable (cfunct b) v"
  shows "cfunct b OP e v = combined OP e (data v) (len v) \<and> checkfunct b OP e v = combined OP e (data v) (len v)"
proof -
  have l: "0 \<le> len v" "len v mod 2 ^ 32 = len v" using assms(1,2) by (simp_all add: vec_ok_def)
  have d: "dest_ok Apart v" "aliased Apart OP e v = data v" by (simp_all add: dest_ok_def aliased_def)
  note eqs = in_order_eqs combine1_eq [OF assms(1) d(1)] combine2_eq [OF assms(1) d(1)] combine3_eq [OF assms(1) d(1)] combine3w_eq [OF assms(1) d(1)]
    reassociating_eqs several_eqs simd_eqs [OF assms(3,4)]
  show ?thesis
  proof (cases "data v = []")
    case True
    show ?thesis
      using assms(5,6) unfolding register_combiners_def add_combiner_def usable_def null_readers_def
      by (simp only: fold_simps id_apply o_apply prod.case append.simps set_simps insert_iff empty_iff True simp_thms)
        (elim disjE FalseE; simp only: benchmark.simps eqs l d True simp_thms)
  next
    case False
    note seven = combine5p_eq [OF l(1) False] unroll3_combine_eq [OF l(1) False] unroll4_combine_eq [OF l(1) False]
      unroll8x2_combine_eq [OF l(1) False] unroll9x3_combine_eq [OF l(1) False]
      unroll8x4_combine_eq [OF l(1) False] unroll8x8_combine_eq [OF l(1) False]
    show ?thesis
      using assms(5) unfolding register_combiners_def add_combiner_def
      by (simp only: fold_simps id_apply o_apply prod.case append.simps set_simps insert_iff empty_iff)
        (elim disjE FalseE; simp only: benchmark.simps seven eqs l d simp_thms)
  qed
qed

end

section \<open>Properties\<close>

text \<open>C17: The functions that only unroll combine the elements from left to right, whatever the operator:
  they may be used with floating point numbers. Those that compare with a pointer before the first cell
  are excepted on a vector without cells.\<close>

theorem in_order_combiners:
  assumes "vec_ok v" "c \<in> set in_order" "usable c v"
  shows "c (lift_op f) (Some e) v = Some (foldl f e (elements v))"
  using in_order_ok [OF assms] combined_elements [OF assms(1)] by simp

definition demo_vec :: "int vec_rec" where
  "demo_vec = \<lparr>len = 3, data = [Some 2, Some 3, Some 5], allocated_len = 3\<rparr>"

lemma demo_vec_ok: "vec_ok demo_vec" "elements demo_vec = [2, 3, 5]"
  by (simp_all add: demo_vec_def vec_ok_def elements_def)

lemma in_order_combiners_witness: "unroll2aw_combine (lift_op (-)) (Some 20) demo_vec = Some 10"
proof -
  have u: "usable unroll2aw_combine demo_vec" by (simp add: usable_def demo_vec_def)
  show ?thesis using in_order_combiners [OF demo_vec_ok(1) _ u, of "(-)" 20] by (simp add: in_order_def demo_vec_ok)
qed

text \<open>On the vector that \<open>new_vec\<close> makes for length 0, whose storage is the null pointer, the seven
  functions that compare with a pointer before the first cell read an element through the null pointer,
  whatever the operator.\<close>

theorem empty_vector_fault:
  assumes "new_vec True calloc_ok z 0 = Some v" "c \<in> set null_readers"
  shows "c (lift_op f) (Some e) v = None"
  by (rule null_readers_null [OF _ _ assms(2)]) (use assms(1) in \<open>auto simp: new_vec_def\<close>)

lemma empty_vector_fault_witness:
  "\<exists>v. new_vec True True 0 0 = Some v \<and> unroll8x8_combine (lift_op (+)) (Some 0) v = None \<and>
     combine4 (lift_op (+)) (Some (0 :: int)) v = Some 0"
proof -
  obtain v :: "int vec_rec" where v: "new_vec True True 0 0 = Some v" by (simp add: new_vec_def)
  then have "len v = 0" by (auto simp: new_vec_def)
  then have "combine4 (lift_op (+)) (Some 0) v = Some 0" by (simp add: combine4_eq)
  moreover have "unroll8x8_combine (lift_op (+)) (Some 0) v = None"
    by (rule empty_vector_fault [OF v]) (simp add: null_readers_def)
  ultimately show ?thesis using v by blast
qed

text \<open>C18: The functions that reassociate, and those that combine the halves, need an associative operator
  with a neutral element; it need not commute.\<close>

theorem reassociating_combiners:
  assumes "vec_ok v" "c \<in> set reassociating" "\<And>a b c. f (f a b) c = f a (f b c)" "\<And>a. f e a = a" "\<And>a. f a e = a"
  shows "c (lift_op f) (Some e) v = Some (foldl f e (elements v))"
proof -
  have "assoc_op (lift_op f) (Some e)"
    by unfold_locales (auto simp: lift_op_def assms(3-) split: option.splits)
  from assoc_op.reassociating_ok [OF this assms(1,2)] show ?thesis
    using combined_elements [OF assms(1)] by simp
qed

lemma reassociating_combiners_witness:
  "unrollx2as_combine (lift_op (@)) (Some []) \<lparr>len = 3, data = map Some [''ab'', ''c'', ''d''], allocated_len = 3\<rparr> = Some ''abcd''"
  by (subst reassociating_combiners) (simp_all add: vec_ok_def elements_def reassociating_def)

text \<open>C16: On machine integers, where sums and products wrap around, every registered function returns
  the sum or the product of the elements, on any vector of fewer than \<open>2 ^ 32\<close> elements and at any
  address, except that the seven functions that compare with a pointer before the first cell need a
  vector with cells; the benchmark never reports a function then.\<close>

theorem registered_combiners:
  fixes v :: "'a::len word vec_rec"
  assumes "vec_ok v" "len v < 2 ^ 32" "0 < es" "es dvd VBYTES" "b \<in> set (register_combiners base es [])" "usable (cfunct b) v"
  shows "cfunct b (lift_op (+)) (Some 0) v = Some (sum_list (elements v)) \<and>
    cfunct b (lift_op (*)) (Some 1) v = Some (prod_list (elements v)) \<and>
    \<not> run_test_reports (lift_op (+)) (Some 0) v b \<and> \<not> run_test_reports (lift_op (*)) (Some 1) v b"
proof -
  have s: "foldl (+) a xs = a + sum_list xs" for a :: "'a word" and xs by (induction xs arbitrary: a) (simp_all add: add.assoc)
  have p: "foldl (*) a xs = a * prod_list xs" for a :: "'a word" and xs by (induction xs arbitrary: a) (simp_all add: mult.assoc)
  show ?thesis
    using sum_op.registered [OF assms] product_op.registered [OF assms] combined_elements [OF assms(1)] s [of 0] p [of 1]
    by (simp add: run_test_reports_def)
qed

definition demo_words :: "32 word vec_rec" where
  "demo_words = \<lparr>len = 5, data = map Some [0xFFFFFFFF, 1, 2, 3, 4], allocated_len = 5\<rparr>"

lemma registered_combiners_witness: "simd_v12_combine 16 4 (lift_op (+)) (Some 0) demo_words = Some 9"
proof -
  let ?b = "\<lparr>cfunct = simd_v12_combine 16 4, checkfunct = combine1 Apart, description = ''simd_v12: SSE code, 12*VSIZE-way parallelism''\<rparr>"
  have v: "vec_ok demo_words" "elements demo_words = [0xFFFFFFFF, 1, 2, 3, 4]" "len demo_words < 2 ^ 32"
    by (simp_all add: demo_words_def vec_ok_def elements_def)
  have b: "?b \<in> set (register_combiners 16 4 [])"
    unfolding register_combiners_def add_combiner_def by simp
  have u: "usable (cfunct ?b) demo_words" by (simp add: usable_def demo_words_def)
  from registered_combiners [OF v(1,3) _ _ b u] show ?thesis by (simp add: v VBYTES_def)
qed

text \<open>When \<open>dest\<close> points to the last element of the vector, the functions that accumulate in memory
  read there what they have combined so far, and return its square instead of the product; the
  accumulator of \<open>combine4\<close> makes the difference.\<close>

theorem combine_aliasing:
  assumes "vec_ok v" "0 < len v" "c \<in> {combine1, combine2, combine3, combine3w}"
  shows "c (Elem (len v - 1)) (lift_op f) (Some e) v =
      (let p = foldl f e (butlast (elements v)) in Some (f p p)) \<and>
    combine4 (lift_op f) (Some e) v = Some (foldl f e (elements v))"
proof
  let ?k = "len v - 1" and ?C = "\<lambda>d. combined (lift_op f) (Some e) d"
  let ?a = "aliased (Elem ?k) (lift_op f) (Some e) v"
  have ok: "dest_ok (Elem ?k) v" using assms(1,2) by (simp add: dest_ok_def vec_ok_def)
  have "c (Elem ?k) (lift_op f) (Some e) v = ?C ?a (len v)"
    using assms(3) combine1_eq [OF assms(1) ok] combine2_eq [OF assms(1) ok] combine3_eq [OF assms(1) ok] combine3w_eq [OF assms(1) ok]
    by auto
  also have "\<dots> = lift_op f (?C ?a ?k) (at ?a ?k)" using combined_1 [of ?k _ _ ?a] assms(2) by simp
  also have "at ?a ?k = ?C (data v) ?k" using ok assms(2) by (simp add: aliased_def dest_ok_def at_def)
  also have "?C ?a ?k = ?C (data v) ?k"
    by (rule combined_cong) (simp add: aliased_def at_def nth_list_update_neq)
  also have "?C (data v) ?k = Some (foldl f e (butlast (elements v)))"
    using combined_take [OF assms(1), of "nat ?k" f e] assms(2)
    by (simp add: butlast_conv_take length_elements [OF assms(1)] nat_diff_distrib)
  finally show "c (Elem ?k) (lift_op f) (Some e) v = (let p = foldl f e (butlast (elements v)) in Some (f p p))"
    by (simp add: Let_def)
  show "combine4 (lift_op f) (Some e) v = Some (foldl f e (elements v))"
    using combine4_eq [of v "lift_op f" "Some e"] combined_elements [OF assms(1), of f e] assms(2) by simp
qed

lemma combine_aliasing_witness:
  "combine3 (Elem 2) (lift_op (*)) (Some 1) demo_vec = Some 36 \<and> combine4 (lift_op (*)) (Some 1) demo_vec = Some 30"
  using combine_aliasing [OF demo_vec_ok(1), of combine3 "(*)" 1] by (simp add: demo_vec_ok) (simp add: demo_vec_def)

text \<open>The functions on vector registers hold the length in an \<open>int\<close> and combine only the first
  \<open>len mod 2 ^ 32\<close> elements.\<close>

theorem simd_length_truncated:
  fixes v :: "'a::len word vec_rec"
  assumes "vec_ok v" "0 < es" "es dvd VBYTES"
  shows "simd_v8a_combine base es (lift_op (+)) (Some 0) v = Some (foldl (+) 0 (take (nat (len v mod 2 ^ 32)) (elements v)))"
proof -
  have "0 \<le> len v" using assms(1) by (simp add: vec_ok_def)
  then have "0 \<le> len v mod 2 ^ 32 \<and> len v mod 2 ^ 32 \<le> len v" by (simp add: zmod_le_nonneg_dividend)
  then show ?thesis
    using sum_op.simd_v8a_combine_eq [OF assms(2,3), of base v] combined_take [OF assms(1), of "nat (len v mod 2 ^ 32)" "(+)" 0] by simp
qed

lemma simd_length_truncated_witness:
  "\<exists>v :: 64 word vec_rec. vec_ok v \<and> elements v = replicate (nat (2 ^ 32)) 1 \<and> simd_v8a_combine 0 8 (lift_op (+)) (Some 0) v = Some 0"
proof -
  let ?v = "\<lparr>len = 2 ^ 32, data = replicate (nat (2 ^ 32)) (Some 1), allocated_len = 2 ^ 32\<rparr> :: 64 word vec_rec"
  have "vec_ok ?v" "elements ?v = replicate (nat (2 ^ 32)) 1" by (simp_all add: vec_ok_def elements_def)
  with simd_length_truncated [of ?v 8 0] show ?thesis
    by (intro exI [of _ ?v]) (simp add: VBYTES_def)
qed

end
