(* ===== verification/Tsh_Jobs.thy ===== *)
theory Tsh_Jobs
  imports Prelude
begin

text \<open>
  The job list of the shell \<open>shlab/tsh.c\<close>: the table \<open>jobs\<close> of \<open>MAXJOBS\<close> slots, a slot with process id 0
  being free, the counter \<open>nextjid\<close> and the helper routines on them. What the shell prints and the
  signals it sends are recorded in \<open>trace\<close>.
\<close>

section \<open>State\<close>

definition MAXJOBS :: int where
  "MAXJOBS = 16"

datatype jstate = UNDEF | FG | BG | ST

record job_t =
  pid :: int
  jid :: int
  state :: jstate
  cmdline :: string

datatype arg = Num int | Str string
datatype event = Printf string "arg list" | Kill int int

record shell =
  jobs :: "job_t list"
  nextjid :: int
  verbose :: bool
  trace :: "event list"

definition emit :: "event \<Rightarrow> shell \<Rightarrow> shell" where
  "emit e sh = sh\<lparr>trace := trace sh @ [e]\<rparr>"

section \<open>Helper routines\<close>

definition clearjob :: job_t where
  "clearjob = \<lparr>pid = 0, jid = 0, state = UNDEF, cmdline = []\<rparr>"

definition initjobs :: "shell \<Rightarrow> shell" where
  "initjobs sh = sh\<lparr>jobs := map (\<lambda>i. clearjob) [0..<nat MAXJOBS]\<rparr>"

definition maxjid :: "job_t list \<Rightarrow> int" where
  "maxjid js = snd (for_up 0 MAXJOBS 1 (\<lambda>i max. if jid (js ! nat i) > max then jid (js ! nat i) else max) 0)"

text \<open>The searches of the table stop at the first slot with a property.\<close>

definition find_slot :: "(job_t \<Rightarrow> bool) \<Rightarrow> job_t list \<Rightarrow> nat option" where
  "find_slot P js = for_ret 0 MAXJOBS (\<lambda>i. if P (js ! nat i) then Some (nat i) else None)"

definition addjob :: "int \<Rightarrow> jstate \<Rightarrow> string \<Rightarrow> shell \<Rightarrow> c_int \<times> shell" where
  "addjob p st cmd sh =
     (if p < 1 then (0, sh)
      else case find_slot (\<lambda>j. pid j = 0) (jobs sh) of
        Some i \<Rightarrow>
          let j = \<lparr>pid = p, jid = nextjid sh, state = st, cmdline = cmd\<rparr>;
              n = nextjid sh + 1;
              n = (if n > MAXJOBS then 1 else n);
              sh = sh\<lparr>jobs := (jobs sh)[i := j], nextjid := n\<rparr>;
              sh = (if verbose sh
                    then emit (Printf ''Added job [%d] %d %s'' [Num (jid j), Num p, Str cmd]) sh else sh)
          in (1, sh)
      | None \<Rightarrow> (0, emit (Printf ''Tried to create too many jobs'' []) sh))"

definition deletejob :: "int \<Rightarrow> shell \<Rightarrow> c_int \<times> shell" where
  "deletejob p sh =
     (if p < 1 then (0, sh)
      else case find_slot (\<lambda>j. pid j = p) (jobs sh) of
        Some i \<Rightarrow>
          let js = (jobs sh)[i := clearjob]
          in (1, sh\<lparr>jobs := js, nextjid := maxjid js + 1\<rparr>)
      | None \<Rightarrow> (0, sh))"

definition fgpid :: "job_t list \<Rightarrow> int" where
  "fgpid js = (case find_slot (\<lambda>j. state j = FG) js of Some i \<Rightarrow> pid (js ! i) | None \<Rightarrow> 0)"

definition getjobpid :: "job_t list \<Rightarrow> int \<Rightarrow> nat option" where
  "getjobpid js p = (if p < 1 then None else find_slot (\<lambda>j. pid j = p) js)"

definition getjobjid :: "job_t list \<Rightarrow> int \<Rightarrow> nat option" where
  "getjobjid js i = (if i < 1 then None else find_slot (\<lambda>j. jid j = i) js)"

definition pid2jid :: "job_t list \<Rightarrow> int \<Rightarrow> int" where
  "pid2jid js p =
     (if p < 1 then 0 else case find_slot (\<lambda>j. pid j = p) js of Some i \<Rightarrow> jid (js ! i) | None \<Rightarrow> 0)"

definition listjob :: "nat \<Rightarrow> job_t \<Rightarrow> event list" where
  "listjob i j =
     (if pid j \<noteq> 0 then
        [Printf ''[%d] (%d) '' [Num (jid j), Num (pid j)],
         case state j of
           BG \<Rightarrow> Printf ''Running '' []
         | FG \<Rightarrow> Printf ''Foreground '' []
         | ST \<Rightarrow> Printf ''Stopped '' []
         | UNDEF \<Rightarrow> Printf ''listjobs: Internal error: job[%d].state=%d '' [Num (int i), Num 0],
         Printf ''%s'' [Str (cmdline j)]]
      else [])"

definition listjobs :: "shell \<Rightarrow> shell" where
  "listjobs sh = snd (for_up 0 MAXJOBS 1 (\<lambda>i sh. sh\<lparr>trace := trace sh @ listjob (nat i) (jobs sh ! nat i)\<rparr>) sh)"

section \<open>The table as a map from process ids to jobs\<close>

definition pids :: "job_t list \<Rightarrow> int set" where
  "pids js = pid ` set js - {0}"

definition table :: "job_t list \<Rightarrow> int \<rightharpoonup> job_t" where
  "table js p = find (\<lambda>j. pid j = p \<and> p \<noteq> 0) js"

text \<open>The invariant: all slots are there, a free slot has no job id, and no process has two slots.\<close>

definition table_ok :: "job_t list \<Rightarrow> bool" where
  "table_ok js \<longleftrightarrow> int (length js) = MAXJOBS \<and> (\<forall>j \<in> set js. 0 \<le> pid j \<and> (pid j = 0 \<longrightarrow> jid j = 0)) \<and>
     (\<forall>i < length js. \<forall>k < length js. pid (js ! i) = pid (js ! k) \<and> pid (js ! i) \<noteq> 0 \<longrightarrow> i = k)"

lemma find_slot_None: "int (length js) = MAXJOBS \<Longrightarrow> find_slot P js = None \<longleftrightarrow> (\<forall>j \<in> set js. \<not> P j)"
proof -
  assume l: "int (length js) = MAXJOBS"
  have "find_slot P js = None \<longleftrightarrow> (\<forall>i. 0 \<le> i \<and> i < MAXJOBS \<longrightarrow> \<not> P (js ! nat i))"
    by (auto simp: find_slot_def for_ret_None_iff)
  also have "\<dots> \<longleftrightarrow> (\<forall>i < length js. \<not> P (js ! i))"
    using l by (metis nat_int of_nat_0_le_iff of_nat_less_iff zless_nat_eq_int_zless int_nat_eq nat_less_iff)
  also have "\<dots> \<longleftrightarrow> (\<forall>j \<in> set js. \<not> P j)" by (metis in_set_conv_nth)
  finally show ?thesis .
qed

lemma find_slot_Some:
  "find_slot P js = Some i \<Longrightarrow> int (length js) = MAXJOBS \<Longrightarrow>
     i < length js \<and> P (js ! i) \<and> (\<forall>k < i. \<not> P (js ! k))"
proof -
  assume f: "find_slot P js = Some i" and l: "int (length js) = MAXJOBS"
  obtain j where j: "0 \<le> j" "j < MAXJOBS" "(if P (js ! nat j) then Some (nat j) else None) = Some i"
    "\<forall>k. 0 \<le> k \<and> k < j \<longrightarrow> (if P (js ! nat k) then Some (nat k) else None) = None"
    using for_ret_SomeD [OF f [unfolded find_slot_def]] by blast
  then have "i = nat j" "P (js ! i)" by (auto split: if_splits)
  moreover have "\<not> P (js ! k)" if "k < i" for k
    using j(1) j(4)[rule_format, of "int k"] that \<open>i = nat j\<close> by (auto simp: zless_nat_eq_int_zless split: if_splits)
  ultimately show ?thesis using j l by auto
qed

section \<open>The operations keep the invariant and update the map\<close>

lemma nth_pid_unique:
  "table_ok js \<Longrightarrow> i < length js \<Longrightarrow> k < length js \<Longrightarrow> pid (js ! i) = pid (js ! k) \<Longrightarrow> pid (js ! i) \<noteq> 0 \<Longrightarrow> i = k"
  by (auto simp: table_ok_def)

lemma table_None_iff: "table js p = None \<longleftrightarrow> p \<notin> pids js"
  by (auto simp: table_def find_None_iff pids_def)

lemma dom_table: "dom (table js) = pids js"
  using table_None_iff by (auto simp: dom_def)

lemma table_Some_iff: "table_ok js \<Longrightarrow> table js p = Some j \<longleftrightarrow> j \<in> set js \<and> pid j = p \<and> p \<noteq> 0"
proof
  show "table js p = Some j \<Longrightarrow> j \<in> set js \<and> pid j = p \<and> p \<noteq> 0"
    by (auto simp: table_def find_Some_iff)
  assume ok: "table_ok js" and j: "j \<in> set js \<and> pid j = p \<and> p \<noteq> 0"
  then obtain j' where j': "table js p = Some j'" using table_None_iff [of js p] by (force simp: pids_def)
  then have "j' \<in> set js" "pid j' = p" by (auto simp: table_def find_Some_iff)
  with j ok have "j' = j" using nth_pid_unique [OF ok] by (metis in_set_conv_nth)
  with j' show "table js p = Some j" by simp
qed

text \<open>Writing a slot.\<close>

lemma table_update_ok:
  assumes ok: "table_ok js" and i: "i < length js" and j: "0 \<le> pid j" "pid j = 0 \<longrightarrow> jid j = 0"
    and new: "pid j = 0 \<or> pid j = pid (js ! i) \<or> pid j \<notin> pids js"
  shows "table_ok (js[i := j])"
proof -
  have "k = i" if k: "k < length js" "pid (js ! k) = pid j" "pid j \<noteq> 0" for k
  proof -
    have "pid j \<in> pids js" using k(1,3) nth_mem [OF k(1)] by (auto simp: pids_def simp flip: k(2))
    with new k(3) have "pid (js ! k) = pid (js ! i)" by (simp add: k(2))
    with k show ?thesis using nth_pid_unique [OF ok k(1) i] by simp
  qed
  moreover have "k = l" if "k < length js" "l < length js" "pid (js ! k) = pid (js ! l)" "pid (js ! k) \<noteq> 0" for k l
    using that nth_pid_unique [OF ok] by blast
  ultimately have "\<forall>k < length js. \<forall>l < length js. pid (js[i := j] ! k) = pid (js[i := j] ! l) \<and> pid (js[i := j] ! k) \<noteq> 0 \<longrightarrow> k = l"
    by (metis nth_list_update_eq nth_list_update_neq)
  moreover have "\<forall>x \<in> set (js[i := j]). 0 \<le> pid x \<and> (pid x = 0 \<longrightarrow> jid x = 0)"
    using ok j set_update_subset_insert [of js i j] by (auto simp: table_ok_def)
  ultimately show ?thesis using ok by (simp add: table_ok_def)
qed

lemma table_update:
  assumes ok: "table_ok js" and i: "i < length js" and j: "0 \<le> pid j" "pid j = 0 \<longrightarrow> jid j = 0"
    and new: "pid j = 0 \<or> pid j = pid (js ! i) \<or> pid j \<notin> pids js"
  shows "table (js[i := j]) p = (if p \<noteq> 0 \<and> p = pid j then Some j else if p = pid (js ! i) then None else table js p)"
proof -
  note ok' = table_update_ok [OF assms]
  have mem: "x \<in> set (js[i := j]) \<longleftrightarrow> x = j \<or> x \<in> set js \<and> pid x \<noteq> pid (js ! i)" if "pid x \<noteq> 0" for x
    using that i nth_pid_unique [OF ok _ i] by (metis in_set_conv_nth length_list_update nth_list_update_eq nth_list_update_neq)
  consider "p = 0" | "p \<noteq> 0" "p = pid j" | "p \<noteq> 0" "p \<noteq> pid j" "p = pid (js ! i)" | "p \<noteq> 0" "p \<noteq> pid j" "p \<noteq> pid (js ! i)" by blast
  then show ?thesis
  proof cases
    case 1
    have "find (\<lambda>j. False) xs = None" for xs :: "job_t list" by (induction xs) auto
    with 1 show ?thesis by (simp add: table_def)
  next
    case 2
    then show ?thesis using table_Some_iff [OF ok', of p j] mem [of j] by simp
  next
    case 3
    then have "p \<notin> pids (js[i := j])" using mem by (force simp: pids_def)
    with 3 show ?thesis by (simp add: table_None_iff)
  next
    case 4
    then show ?thesis
      using table_Some_iff [OF ok', of p] table_Some_iff [OF ok, of p] mem by (metis option.exhaust)
  qed
qed

text \<open>The jobs of the table, as the shell sees them.\<close>

abbreviation jobs_of :: "shell \<Rightarrow> int \<rightharpoonup> job_t" where
  "jobs_of sh \<equiv> table (jobs sh)"

lemma emit_simps [simp]: "jobs (emit e sh) = jobs sh" "nextjid (emit e sh) = nextjid sh" "verbose (emit e sh) = verbose sh"
  by (simp_all add: emit_def)

lemma table_okD: "table_ok js \<Longrightarrow> int (length js) = MAXJOBS"
  by (simp add: table_ok_def)

lemma full_table:
  assumes ok: "table_ok js"
  shows "find_slot (\<lambda>j. pid j = 0) js = None \<longleftrightarrow> card (pids js) = nat MAXJOBS"
proof -
  have l: "length js = nat MAXJOBS" using table_okD [OF ok] by (metis nat_int)
  let ?I = "{i. i < length js \<and> pid (js ! i) \<noteq> 0}"
  have "pids js \<subseteq> (\<lambda>i. pid (js ! i)) ` ?I"
  proof
    fix x assume "x \<in> pids js"
    then obtain i where "i < length js" "pid (js ! i) = x" "x \<noteq> 0" by (metis DiffE imageE in_set_conv_nth pids_def singletonI)
    then show "x \<in> (\<lambda>i. pid (js ! i)) ` ?I" by (intro image_eqI [of _ _ i]) simp_all
  qed
  moreover have "(\<lambda>i. pid (js ! i)) ` ?I \<subseteq> pids js"
    unfolding pids_def by (intro image_subsetI) simp
  ultimately have "pids js = (\<lambda>i. pid (js ! i)) ` ?I" by (rule subset_antisym)
  moreover have "inj_on (\<lambda>i. pid (js ! i)) ?I"
    using nth_pid_unique [OF ok] unfolding inj_on_def mem_Collect_eq by blast
  ultimately have c: "card (pids js) = card ?I" by (simp only: card_image)
  have sub: "?I \<subseteq> {..<length js}" by auto
  have "find_slot (\<lambda>j. pid j = 0) js = None \<longleftrightarrow> (\<forall>i < length js. pid (js ! i) \<noteq> 0)"
    by (simp add: find_slot_None [OF table_okD [OF ok]] all_set_conv_all_nth)
  also have "\<dots> \<longleftrightarrow> ?I = {..<length js}" by auto
  also have "\<dots> \<longleftrightarrow> card ?I = length js"
    by (rule iffI, simp only: card_lessThan, rule card_subset_eq [OF finite_lessThan sub], simp only: card_lessThan)
  finally show ?thesis by (simp only: c l)
qed

text \<open>Adding a job for a new process: it is entered unless all slots are taken.\<close>

lemma addjob_spec:
  assumes "table_ok (jobs sh)" "1 \<le> p" "p \<notin> pids (jobs sh)" "addjob p st cmd sh = (r, sh')"
  shows "table_ok (jobs sh') \<and>
    (if card (pids (jobs sh)) = nat MAXJOBS then r = 0 \<and> jobs sh' = jobs sh \<and> nextjid sh' = nextjid sh
     else r = 1 \<and> jobs_of sh' = (jobs_of sh)(p \<mapsto> \<lparr>pid = p, jid = nextjid sh, state = st, cmdline = cmd\<rparr>))"
proof (cases "find_slot (\<lambda>j. pid j = 0) (jobs sh)")
  case None
  then show ?thesis using assms full_table [OF assms(1)] by (auto simp: addjob_def)
next
  case (Some i)
  note i = find_slot_Some [OF Some table_okD [OF assms(1)]]
  let ?j = "\<lparr>pid = p, jid = nextjid sh, state = st, cmdline = cmd\<rparr>"
  have "jobs sh' = (jobs sh)[i := ?j]" "r = 1" using assms(2,4) Some by (auto simp: addjob_def Let_def split: if_splits)
  moreover have "card (pids (jobs sh)) \<noteq> nat MAXJOBS" using full_table [OF assms(1)] Some by simp
  ultimately show ?thesis
    using table_update_ok [OF assms(1), of i ?j] table_update [OF assms(1), of i ?j] i assms(2,3) table_None_iff [of "jobs sh" 0]
    by (auto simp: pids_def fun_eq_iff)
qed

lemma deletejob_spec:
  assumes "table_ok (jobs sh)" "1 \<le> p" "deletejob p sh = (r, sh')"
  shows "table_ok (jobs sh') \<and> jobs_of sh' = (jobs_of sh)(p := None) \<and> (r = 1 \<longleftrightarrow> p \<in> pids (jobs sh))"
proof (cases "find_slot (\<lambda>j. pid j = p) (jobs sh)")
  case None
  then have "p \<notin> pids (jobs sh)" using find_slot_None [OF table_okD [OF assms(1)]] by (auto simp: pids_def)
  then show ?thesis using None assms table_None_iff [of "jobs sh" p] by (auto simp: deletejob_def fun_eq_iff)
next
  case (Some i)
  note i = find_slot_Some [OF Some table_okD [OF assms(1)]]
  have "jobs sh' = (jobs sh)[i := clearjob]" "r = 1" using assms(2,3) Some by (auto simp: deletejob_def Let_def)
  moreover have "p \<in> pids (jobs sh)" using i assms(2) by (force simp: pids_def)
  ultimately show ?thesis
    using table_update_ok [OF assms(1), of i clearjob] table_update [OF assms(1), of i clearjob] i
    by (auto simp: clearjob_def fun_eq_iff)
qed

lemma pids_table: "jobs_of sh' = (jobs_of sh)(p \<mapsto> j) \<Longrightarrow> pids (jobs sh') = insert p (pids (jobs sh))"
  "jobs_of sh' = (jobs_of sh)(p := None) \<Longrightarrow> pids (jobs sh') = pids (jobs sh) - {p}"
  by (simp_all flip: dom_table)

text \<open>A change of a job's state, through the slot a search found.\<close>

definition set_state :: "nat \<Rightarrow> jstate \<Rightarrow> shell \<Rightarrow> shell" where
  "set_state i st sh = sh\<lparr>jobs := (jobs sh)[i := (jobs sh ! i)\<lparr>state := st\<rparr>]\<rparr>"

lemma set_state_spec:
  assumes "table_ok (jobs sh)" "i < length (jobs sh)"
  shows "table_ok (jobs (set_state i st sh)) \<and> pids (jobs (set_state i st sh)) = pids (jobs sh)"
proof -
  let ?j = "(jobs sh ! i)\<lparr>state := st\<rparr>"
  have "jobs sh ! i \<in> set (jobs sh)" using assms(2) by simp
  then have j: "0 \<le> pid ?j" "pid ?j = 0 \<longrightarrow> jid ?j = 0" using assms(1) by (auto simp: table_ok_def)
  have "map pid ((jobs sh)[i := ?j]) = map pid (jobs sh)"
    using assms(2) by (metis job_t.select_convs(1) job_t.surjective job_t.update_convs(3) list_update_id map_update)
  then have "pids ((jobs sh)[i := ?j]) = pids (jobs sh)" unfolding pids_def by (metis list.set_map)
  then show ?thesis using table_update_ok [OF assms(1,2) j] by (simp add: set_state_def)
qed

text \<open>The other searches.\<close>

lemma getjobpid_table:
  assumes "table_ok js" "1 \<le> p"
  shows "getjobpid js p = None \<longleftrightarrow> p \<notin> pids js"
    and "getjobpid js p = Some i \<Longrightarrow> i < length js \<and> pid (js ! i) = p \<and> table js p = Some (js ! i)"
proof -
  note l = table_okD [OF assms(1)]
  show "getjobpid js p = None \<longleftrightarrow> p \<notin> pids js"
    using assms(2) by (auto simp: getjobpid_def find_slot_None [OF l] pids_def)
  assume "getjobpid js p = Some i"
  then have "i < length js \<and> pid (js ! i) = p" using assms(2) find_slot_Some [OF _ l] by (auto simp: getjobpid_def)
  then show "i < length js \<and> pid (js ! i) = p \<and> table js p = Some (js ! i)"
    using table_Some_iff [OF assms(1)] assms(2) by auto
qed

lemma fgpid_table:
  assumes "table_ok js"
  shows "fgpid js = 0 \<and> (\<forall>j \<in> set js. state j \<noteq> FG \<or> (\<exists>k \<in> set js. state k = FG \<and> pid k = 0)) \<or>
    (\<exists>j \<in> set js. state j = FG \<and> pid j = fgpid js)"
  using find_slot_None [OF table_okD [OF assms], of "\<lambda>j. state j = FG"] find_slot_Some [OF _ table_okD [OF assms], of "\<lambda>j. state j = FG"]
  by (cases "find_slot (\<lambda>j. state j = FG) js") (auto simp: fgpid_def)

end
