(* ===== verification/Tsh_Parse.thy ===== *)
theory Tsh_Parse
  imports Prelude
begin

text \<open>
  The command line parser of \<open>shlab/tsh.c\<close>. A C string is the list of its characters before the NUL.
  A position in the copy of the command line is the rest of the line from there on; the character
  that the parser overwrites with NUL ends the argument before it. Writing outside \<open>argv\<close> or the copy
  is the result \<open>None\<close>.
\<close>

definition MAXLINE :: nat where
  "MAXLINE = 1024"

definition MAXARGS :: nat where
  "MAXARGS = 128"

section \<open>Parser\<close>

definition skip_spaces :: "string \<Rightarrow> string" where
  "skip_spaces buf = dropWhile (\<lambda>c. c = CHR '' '') buf"

text \<open>\<open>strchr\<close>: the characters before the first \<open>c\<close> and those behind it.\<close>

definition strchr :: "string \<Rightarrow> char \<Rightarrow> (string \<times> string) option" where
  "strchr buf c = (if c \<in> set buf then Some (takeWhile (\<lambda>x. x \<noteq> c) buf, tl (dropWhile (\<lambda>x. x \<noteq> c) buf)) else None)"

text \<open>The start of the next argument and what delimits it: a quote when it starts with one, else a space.\<close>

definition next_delim :: "string \<Rightarrow> (string \<times> string) option" where
  "next_delim buf =
     (case buf of c # rest \<Rightarrow> if c = CHR 0x27 then strchr rest (CHR 0x27) else strchr buf (CHR '' '')
      | [] \<Rightarrow> strchr buf (CHR '' ''))"

lemma strchr_shorter: "strchr buf c = Some (a, rest) \<Longrightarrow> length rest < length buf"
proof -
  assume a: "strchr buf c = Some (a, rest)"
  then have c: "c \<in> set buf" by (auto simp: strchr_def split: if_splits)
  then have "dropWhile (\<lambda>x. x \<noteq> c) buf \<noteq> []" by (auto simp: dropWhile_eq_Nil_conv)
  moreover have "length (dropWhile (\<lambda>x. x \<noteq> c) buf) \<le> length buf" by (rule length_dropWhile_le)
  ultimately show ?thesis using a c by (cases "dropWhile (\<lambda>x. x \<noteq> c) buf") (auto simp: strchr_def)
qed

lemma next_delim_shorter: "next_delim buf = Some (a, rest) \<Longrightarrow> length rest < length buf"
  using strchr_shorter by (fastforce simp: next_delim_def split: list.splits if_splits)

lemma skip_spaces_le: "length (skip_spaces buf) \<le> length buf"
  unfolding skip_spaces_def by (rule length_dropWhile_le)

text \<open>The loop: \<open>argv[argc++] = buf\<close> is out of bounds when \<open>argc\<close> has reached \<open>MAXARGS\<close>.\<close>

function parse_loop :: "string \<Rightarrow> string list \<Rightarrow> string list option" where
  "parse_loop buf argv =
     (case next_delim buf of
        None \<Rightarrow> Some argv
      | Some (arg, rest) \<Rightarrow>
          if length argv \<ge> MAXARGS then None
          else parse_loop (skip_spaces rest) (argv @ [arg]))"
  by pat_completeness auto
termination
proof (relation "measure (\<lambda>(buf, argv). length buf)")
  fix buf argv x arg rest
  assume "next_delim buf = Some x" "(arg, rest) = x"
  then show "((skip_spaces rest, argv @ [arg]), buf, argv) \<in> measure (\<lambda>(buf, argv). length buf)"
    using next_delim_shorter [of buf arg rest] skip_spaces_le [of rest] by auto
qed simp

declare parse_loop.simps [simp del]

text \<open>
  The result is whether the job is to run in the background, and the arguments. The empty command
  line has no last character to overwrite; the terminating \<open>argv[argc] = NULL\<close> needs an entry as well.
\<close>

definition parseline :: "string \<Rightarrow> (c_int \<times> string list) option" where
  "parseline cmdline =
     (if cmdline = [] \<or> length cmdline \<ge> MAXLINE then None
      else
        let buf = butlast cmdline @ [CHR '' ''];
            buf = skip_spaces buf
        in case parse_loop buf [] of
             None \<Rightarrow> None
           | Some argv \<Rightarrow>
               if length argv \<ge> MAXARGS then None
               else if argv = [] then Some (1, argv)
               else let bg = c_bool (last argv \<noteq> [] \<and> hd (last argv) = CHR ''&'')
                    in Some (bg, if bg \<noteq> 0 then butlast argv else argv))"

section \<open>Conversion of numbers\<close>

text \<open>
  \<open>atoi\<close>, as \<open>strtol\<close> converted to \<open>int\<close>: white space, a sign, digits; \<open>strtol\<close> stops at the ends of the
  range of \<open>long\<close>.
\<close>

definition is_space :: "char \<Rightarrow> bool" where
  "is_space c = (c = CHR '' '' \<or> (9 \<le> (of_char c :: nat) \<and> (of_char c :: nat) \<le> 13))"

definition is_digit :: "char \<Rightarrow> bool" where
  "is_digit c = (48 \<le> (of_char c :: nat) \<and> (of_char c :: nat) \<le> 57)"

definition digits_value :: "string \<Rightarrow> int" where
  "digits_value ds = foldl (\<lambda>n c. 10 * n + (of_char c - 48)) 0 ds"

definition atoi :: "string \<Rightarrow> int" where
  "atoi s =
     (let s = dropWhile is_space s;
          neg = (s \<noteq> [] \<and> hd s = CHR ''-'');
          s = (if s \<noteq> [] \<and> (hd s = CHR ''-'' \<or> hd s = CHR ''+'') then tl s else s);
          n = digits_value (takeWhile is_digit s);
          v = (if neg then max (- (2 ^ 63)) (- n) else min (2 ^ 63 - 1) n)
      in sint (word_of_int v :: c_int))"

section \<open>Printing and parsing\<close>

text \<open>
  How a user writes an argument that has no quote in it: as it stands when it is a word, between
  quotes otherwise.
\<close>

definition plain :: "string \<Rightarrow> bool" where
  "plain a \<longleftrightarrow> a \<noteq> [] \<and> CHR '' '' \<notin> set a"

definition render :: "string \<Rightarrow> string" where
  "render a = (if plain a then a else CHR 0x27 # a @ [CHR 0x27])"

definition render_line :: "string list \<Rightarrow> string" where
  "render_line argv = concat (map (\<lambda>a. render a @ '' '') argv)"

lemma strchr_append: "c \<notin> set a \<Longrightarrow> strchr (a @ c # rest) c = Some (a, rest)"
  by (simp add: strchr_def takeWhile_append dropWhile_append)

lemma next_delim_render:
  "CHR 0x27 \<notin> set a \<Longrightarrow> next_delim (render a @ CHR '' '' # rest) = Some (a, if plain a then rest else CHR '' '' # rest)"
proof (cases "plain a")
  case True
  assume q: "CHR 0x27 \<notin> set a"
  from True obtain c b where a: "a = c # b" by (cases a) (auto simp: plain_def)
  have "CHR '' '' \<notin> set a" using True by (simp add: plain_def)
  from strchr_append [OF this, of rest] show ?thesis using True q by (auto simp: render_def next_delim_def a)
qed (simp add: render_def next_delim_def strchr_append)

lemma skip_spaces_render: "skip_spaces (render a @ rest) = render a @ rest"
  by (cases a) (auto simp: skip_spaces_def render_def plain_def)

lemma skip_spaces_line: "skip_spaces (render_line argv) = render_line argv"
  by (cases argv) (auto simp: render_line_def skip_spaces_render skip_spaces_def [of "[]"])

lemma parse_loop_render:
  assumes "\<forall>a \<in> set args. CHR 0x27 \<notin> set a"
  shows "parse_loop (render_line args) argv = (if length argv + length args \<le> MAXARGS \<or> args = [] then Some (argv @ args) else None)"
  using assms
proof (induction args arbitrary: argv)
  case Nil
  then show ?case by (subst parse_loop.simps) (simp add: render_line_def next_delim_def strchr_def)
next
  case (Cons a args)
  have "next_delim (render_line (a # args)) = Some (a, if plain a then render_line args else CHR '' '' # render_line args)"
    using next_delim_render [of a "render_line args"] Cons.prems by (simp add: render_line_def)
  moreover have "skip_spaces (if plain a then render_line args else CHR '' '' # render_line args) = render_line args"
    using skip_spaces_line [of args] by (simp add: skip_spaces_def)
  ultimately show ?case using Cons by (subst parse_loop.simps) auto
qed

text \<open>A command line that fits: its text with a newline in the place of the last space.\<close>

definition command :: "string list \<Rightarrow> string" where
  "command argv = butlast (render_line argv) @ [CHR 0x0A]"

lemma parseline_command:
  assumes "args \<noteq> []" "\<forall>a \<in> set args. CHR 0x27 \<notin> set a" "length (command args) < MAXLINE"
  shows "parseline (command args) =
    (if length args < MAXARGS then
       Some (if last args \<noteq> [] \<and> hd (last args) = CHR ''&'' then (1, butlast args) else (0, args))
     else None)"
proof -
  have "last (render_line args) = CHR '' ''" using assms(1)
    by (induction args) (auto simp: render_line_def)
  moreover have "render_line args \<noteq> []" using assms(1) by (cases args) (auto simp: render_line_def)
  ultimately have l: "butlast (command args) @ [CHR '' ''] = render_line args"
    by (metis append_butlast_last_id butlast_snoc command_def)
  have "parseline (command args) = (case parse_loop (render_line args) [] of None \<Rightarrow> None
    | Some argv \<Rightarrow> if length argv \<ge> MAXARGS then None else if argv = [] then Some (1, argv)
        else let bg = c_bool (last argv \<noteq> [] \<and> hd (last argv) = CHR ''&'')
             in Some (bg, if bg \<noteq> 0 then butlast argv else argv))"
    using assms(3) unfolding parseline_def Let_def l skip_spaces_line by (simp add: command_def)
  then show ?thesis using assms(1,2) by (simp add: parse_loop_render Let_def)
qed

section \<open>Properties\<close>

text \<open>C23: The parser gives back the arguments of every command line that fits, quoted ones included; a last
  argument that starts with an ampersand is taken away and asks for the background.\<close>

theorem parseline_roundtrip:
  assumes "args \<noteq> []" "\<forall>a \<in> set args. CHR 0x27 \<notin> set a" "length args < MAXARGS" "length (command args) < MAXLINE"
  shows "parseline (command args) =
    Some (if last args \<noteq> [] \<and> hd (last args) = CHR ''&'' then (1, butlast args) else (0, args))"
  using parseline_command [OF assms(1,2,4)] assms(3) by simp

lemma parseline_roundtrip_witness:
  "parseline (command [''/bin/echo'', ''a b'', [], ''&'']) = Some (1, [''/bin/echo'', ''a b'', []])"
  by (subst parseline_roundtrip) (simp_all add: MAXARGS_def MAXLINE_def command_def render_line_def render_def plain_def)

text \<open>A line with \<open>MAXARGS\<close> arguments or more makes the parser write behind the end of \<open>argv\<close>; such lines
  are much shorter than \<open>MAXLINE\<close>.\<close>

theorem parseline_overflow:
  assumes "\<forall>a \<in> set args. CHR 0x27 \<notin> set a" "MAXARGS \<le> length args" "length (command args) < MAXLINE"
  shows "parseline (command args) = None"
proof -
  have "args \<noteq> []" using assms(2) by (auto simp: MAXARGS_def)
  then show ?thesis using parseline_command [OF _ assms(1,3)] assms(2) by simp
qed

lemma parseline_overflow_witness: "parseline (command (replicate 128 ''x'')) = None \<and> length (command (replicate 128 ''x'')) = 256"
proof -
  have "length (command (replicate 128 ''x'')) = 256"
    by (simp add: command_def render_line_def render_def plain_def length_concat sum_list_replicate)
  then show ?thesis by (intro conjI parseline_overflow) (simp_all add: MAXARGS_def MAXLINE_def)
qed

end
