(* ===== verification/Tsh.thy ===== *)
theory Tsh
  imports Tsh_Jobs Tsh_Parse
begin

text \<open>
  The shell \<open>shlab/tsh.c\<close>: built-in commands, signal handlers and the evaluation of command lines, as
  a transition system in which the main program, the kernel and the handlers interleave. A step of
  the main program runs from one point where \<open>SIGCHLD\<close> can come in, or where it matters that it
  cannot, to the next. Dereferencing a null pointer is the result \<open>None\<close>.
\<close>

section \<open>Built-in commands\<close>

definition SIGINT :: int where "SIGINT = 2"
definition SIGTSTP :: int where "SIGTSTP = 20"
definition SIGCONT :: int where "SIGCONT = 18"

text \<open>
  \<open>do_bgfg\<close> up to the search of the job. \<open>argv[1]+1\<close> skips one character; for an empty argument what
  \<open>atoi\<close> reads lies behind its end in the line, and is the parameter \<open>behind\<close>.
\<close>

definition do_bgfg_find :: "int \<Rightarrow> string list \<Rightarrow> shell \<Rightarrow> shell \<times> nat option" where
  "do_bgfg_find behind argv sh =
     (if length argv < 2 then
        (emit (Printf ''%s command requires PID or %%jobid argument\<newline>'' [Str (argv ! 0)]) sh, None)
      else
        let j = (if argv ! 1 = [] then behind else atoi (tl (argv ! 1)))
        in if j = 0 then (emit (Printf ''%s: argument must be a PID or %%jobid\<newline>'' [Str (argv ! 0)]) sh, None)
           else if j \<ge> 9999999 then (emit (Printf ''(%d): No such process\<newline>'' [Num j]) sh, None)
           else case getjobjid (jobs sh) j of
             None \<Rightarrow> (emit (Printf ''%s: No such job\<newline>'' [Str (argv ! 1)]) sh, None)
           | Some i \<Rightarrow> (sh, Some i))"

text \<open>The rest of it, on the slot found: the test of its state, and what is done when it holds.\<close>

definition do_bgfg_test :: "bool \<Rightarrow> nat \<Rightarrow> shell \<Rightarrow> bool" where
  "do_bgfg_test fg i sh =
     (let st = state (jobs sh ! i) in if fg then st = BG \<or> st = ST else st = FG \<or> st = ST)"

definition do_bgfg_set :: "bool \<Rightarrow> nat \<Rightarrow> int \<Rightarrow> shell \<Rightarrow> shell" where
  "do_bgfg_set fg i p sh =
     (if fg then emit (Kill (- p) SIGCONT) (set_state i FG sh)
      else
        let sh = set_state i BG sh;
            j = jobs sh ! i;
            sh = emit (Printf ''[%d] (%d) %s\<newline>'' [Num (jid j), Num (pid j), Str (cmdline j)]) sh
        in emit (Kill (- p) SIGCONT) sh)"

datatype builtin = Quit | Listed shell | Bgfg bool nat int shell | Message shell | External

definition builtin_cmd :: "int \<Rightarrow> string list \<Rightarrow> shell \<Rightarrow> builtin" where
  "builtin_cmd behind argv sh =
     (if argv ! 0 = ''quit'' then Quit
      else if argv ! 0 = ''jobs'' then Listed (listjobs sh)
      else if argv ! 0 = ''fg'' \<or> argv ! 0 = ''bg'' then
        (case do_bgfg_find behind argv sh of
           (sh', None) \<Rightarrow> Message sh'
         | (sh', Some i) \<Rightarrow> Bgfg (argv ! 0 = ''fg'') i (pid (jobs sh' ! i)) sh')
      else External)"

section \<open>Signal handlers\<close>

text \<open>What \<open>waitpid\<close> reports of a child.\<close>

datatype status = Exited int | Stopped int | Signaled int | Continued

definition sigchld_one :: "int \<Rightarrow> status \<Rightarrow> shell \<Rightarrow> shell option" where
  "sigchld_one p status sh =
     (case status of
        Exited n \<Rightarrow> Some (snd (deletejob p sh))
      | Stopped n \<Rightarrow>
          (case getjobpid (jobs sh) p of
             None \<Rightarrow> None
           | Some i \<Rightarrow> Some (set_state i ST (emit (Printf ''Job [%d] (%d) stopped by signal %d\<newline>''
                [Num (jid (jobs sh ! i)), Num p, Num n]) sh)))
      | Signaled n \<Rightarrow>
          (case getjobpid (jobs sh) p of
             None \<Rightarrow> None
           | Some i \<Rightarrow> Some (snd (deletejob p (emit (Printf ''Job [%d] (%d) terminated by signal %d\<newline>''
                [Num (jid (jobs sh ! i)), Num p, Num n]) sh))))
      | Continued \<Rightarrow> Some sh)"

text \<open>The handler takes what \<open>waitpid\<close> has, one child after the other.\<close>

fun sigchld_handler :: "(int \<times> status) list \<Rightarrow> shell \<Rightarrow> shell option" where
  "sigchld_handler [] sh = Some sh"
| "sigchld_handler ((p, status) # reports) sh =
     (case sigchld_one p status sh of None \<Rightarrow> None | Some sh' \<Rightarrow> sigchld_handler reports sh')"

definition sigint_handler :: "shell \<Rightarrow> shell" where
  "sigint_handler sh = (let p = fgpid (jobs sh) in if p > 0 then emit (Kill (- p) SIGINT) sh else sh)"

definition sigtstp_handler :: "shell \<Rightarrow> shell" where
  "sigtstp_handler sh = (let p = fgpid (jobs sh) in if p > 0 then emit (Kill (- p) SIGTSTP) sh else sh)"

section \<open>The transition system\<close>

text \<open>
  Where the main program is: at the prompt; behind \<open>fork\<close> in \<open>eval\<close>, with \<open>SIGCHLD\<close> blocked; in
  \<open>do_bgfg\<close>, with the slot and the process found, before and after the test of the state; in the loop
  of \<open>waitfg\<close>; gone; crashed.
\<close>

datatype pc = Prompt | Forked int bool string | Found bool nat int | Setting bool nat int | Waiting int | Gone | Crashed

record sys =
  shell :: shell
  pc :: pc
  kids :: "int list"
  reports :: "(int \<times> status) list"

text \<open>
  \<open>kids\<close> are the children not yet reaped, \<open>reports\<close> what the kernel has to tell about them. The
  actions: a command line, with the process id a \<open>fork\<close> would give and what lies behind an empty
  argument; the next step of the main program; a child changing its state; the signals.
\<close>

datatype action = Line string int int | Main | Child int status | Sigchld | Sigint | Sigtstp

definition initial :: sys where
  "initial = \<lparr>shell = initjobs \<lparr>jobs = [], nextjid = 1, verbose = False, trace = []\<rparr>, pc = Prompt, kids = [], reports = []\<rparr>"

text \<open>\<open>eval\<close> up to \<open>fork\<close>, or to the end of a built-in command.\<close>

definition eval_line :: "string \<Rightarrow> int \<Rightarrow> int \<Rightarrow> sys \<Rightarrow> sys" where
  "eval_line line p behind s =
     (case parseline line of
        None \<Rightarrow> s\<lparr>pc := Crashed\<rparr>
      | Some (bg, argv) \<Rightarrow>
          if argv = [] then s
          else case builtin_cmd behind argv (shell s) of
            Quit \<Rightarrow> s\<lparr>pc := Gone\<rparr>
          | Listed sh' \<Rightarrow> s\<lparr>shell := sh'\<rparr>
          | Message sh' \<Rightarrow> s\<lparr>shell := sh'\<rparr>
          | Bgfg fg i q sh' \<Rightarrow> s\<lparr>shell := sh', pc := Found fg i q\<rparr>
          | External \<Rightarrow> s\<lparr>pc := Forked p (bg \<noteq> 0) line, kids := p # kids s\<rparr>)"

text \<open>\<open>eval\<close> from \<open>addjob\<close> on.\<close>

definition eval_add :: "int \<Rightarrow> bool \<Rightarrow> string \<Rightarrow> sys \<Rightarrow> sys" where
  "eval_add p bg line s =
     (if \<not> bg then s\<lparr>shell := snd (addjob p FG line (shell s)), pc := Waiting p\<rparr>
      else let sh' = snd (addjob p BG line (shell s))
           in s\<lparr>shell := emit (Printf ''[%d] (%d) %s'' [Num (pid2jid (jobs sh') p), Num p, Str line]) sh', pc := Prompt\<rparr>)"

definition main_step :: "sys \<Rightarrow> sys option" where
  "main_step s =
     (case pc s of
        Forked p bg line \<Rightarrow> Some (eval_add p bg line s)
      | Found fg i p \<Rightarrow> Some (s\<lparr>pc := (if do_bgfg_test fg i (shell s) then Setting fg i p else Prompt)\<rparr>)
      | Setting fg i p \<Rightarrow> Some (s\<lparr>shell := do_bgfg_set fg i p (shell s), pc := (if fg then Waiting p else Prompt)\<rparr>)
      | Waiting p \<Rightarrow> if p = fgpid (jobs (shell s)) then Some s else Some (s\<lparr>pc := Prompt\<rparr>)
      | _ \<Rightarrow> None)"

fun ends :: "status \<Rightarrow> bool" where
  "ends (Exited n) = True"
| "ends (Signaled n) = True"
| "ends _ = False"

text \<open>
  The kernel: a process id that \<open>fork\<close> gives is positive and no child has it; a child that has ended
  does nothing any more; a report replaces the one before it of the same child, and \<open>waitpid\<close>, called
  without \<open>WCONTINUED\<close>, reports no continuation. \<open>SIGCHLD\<close> is not delivered while it is blocked.
\<close>

fun step :: "action \<Rightarrow> sys \<Rightarrow> sys option" where
  "step (Line line p behind) s =
     (if pc s = Prompt \<and> 1 \<le> p \<and> p \<notin> set (kids s) then Some (eval_line line p behind s) else None)"
| "step Main s = main_step s"
| "step (Child p status) s =
     (if p \<in> set (kids s) \<and> \<not> (\<exists>st \<in> set (map snd (filter (\<lambda>r. fst r = p) (reports s))). ends st) \<and> status \<noteq> Continued
      then Some (s\<lparr>reports := filter (\<lambda>r. fst r \<noteq> p) (reports s) @ [(p, status)]\<rparr>) else None)"
| "step Sigchld s =
     (case pc s of
        Forked p bg line \<Rightarrow> None
      | Gone \<Rightarrow> None
      | Crashed \<Rightarrow> None
      | _ \<Rightarrow>
          (case sigchld_handler (reports s) (shell s) of
             None \<Rightarrow> Some (s\<lparr>pc := Crashed\<rparr>)
           | Some sh' \<Rightarrow> Some (s\<lparr>shell := sh',
               kids := filter (\<lambda>p. \<not> (\<exists>r \<in> set (reports s). fst r = p \<and> ends (snd r))) (kids s), reports := []\<rparr>)))"
| "step Sigint s = (if pc s \<in> {Gone, Crashed} then None else Some (s\<lparr>shell := sigint_handler (shell s)\<rparr>))"
| "step Sigtstp s = (if pc s \<in> {Gone, Crashed} then None else Some (s\<lparr>shell := sigtstp_handler (shell s)\<rparr>))"

text \<open>
  The states reached when the environment keeps to a rule \<open>P\<close>, which is asked before every action.
\<close>

inductive reach :: "(action \<Rightarrow> sys \<Rightarrow> bool) \<Rightarrow> sys \<Rightarrow> bool" for P where
  start: "reach P initial"
| act: "reach P s \<Longrightarrow> P a s \<Longrightarrow> step a s = Some s' \<Longrightarrow> reach P s'"

fun run :: "action list \<Rightarrow> sys \<Rightarrow> sys option" where
  "run [] s = Some s"
| "run (a # as) s = (case step a s of None \<Rightarrow> None | Some s' \<Rightarrow> run as s')"

lemma reach_run: "reach (\<lambda>a s. True) s \<Longrightarrow> run as s = Some s' \<Longrightarrow> reach (\<lambda>a s. True) s'"
  by (induction "as" arbitrary: s) (auto split: option.splits intro: reach.act)

section \<open>Invariants\<close>

text \<open>
  The shell's books agree with the kernel's: every listed process is a child that has not been
  reaped, and every report is about one. Blocking \<open>SIGCHLD\<close> from \<open>fork\<close> to \<open>addjob\<close> is what keeps a
  dead child from being entered.
\<close>

definition books :: "sys \<Rightarrow> bool" where
  "books s \<longleftrightarrow> table_ok (jobs (shell s)) \<and> pids (jobs (shell s)) \<subseteq> set (kids s) \<and> distinct (kids s) \<and>
     (\<forall>p \<in> set (kids s). 1 \<le> p) \<and> fst ` set (reports s) \<subseteq> set (kids s) \<and> distinct (map fst (reports s)) \<and>
     (case pc s of
        Forked p bg line \<Rightarrow> p \<in> set (kids s) \<and> p \<notin> pids (jobs (shell s))
      | Found fg i p \<Rightarrow> i < length (jobs (shell s))
      | Setting fg i p \<Rightarrow> i < length (jobs (shell s))
      | _ \<Rightarrow> True)"

lemma listjobs_jobs [simp]: "jobs (listjobs sh) = jobs sh"
proof -
  obtain j t where l: "for_up 0 MAXJOBS 1 (\<lambda>i sh. sh\<lparr>trace := trace sh @ listjob (nat i) (jobs sh ! nat i)\<rparr>) sh = (j, t)"
    by (rule prod.exhaust)
  have "jobs t = jobs sh \<and> \<not> j < MAXJOBS" by (rule for_up_inv [OF l]) simp_all
  then show ?thesis by (simp add: listjobs_def l)
qed

lemma handlers_jobs [simp]: "jobs (sigint_handler sh) = jobs sh" "jobs (sigtstp_handler sh) = jobs sh"
  by (simp_all add: sigint_handler_def sigtstp_handler_def Let_def)

lemma do_bgfg_find_jobs: "do_bgfg_find b argv sh = (sh', r) \<Longrightarrow> jobs sh' = jobs sh \<and>
    (\<forall>i. r = Some i \<longrightarrow> sh' = sh \<and> (\<exists>k. 1 \<le> k \<and> find_slot (\<lambda>j. jid j = k) (jobs sh) = Some i))"
  by (auto simp: do_bgfg_find_def getjobjid_def Let_def split: if_splits option.splits) (metis not_less)+

lemma sigchld_one_spec:
  assumes "table_ok (jobs sh)" "1 \<le> p" "sigchld_one p st sh = Some sh'"
  shows "table_ok (jobs sh') \<and> pids (jobs sh') = (if ends st then pids (jobs sh) - {p} else pids (jobs sh))"
proof -
  have del: "table_ok (jobs (snd (deletejob p t))) \<and> pids (jobs (snd (deletejob p t))) = pids (jobs t) - {p}"
    if "table_ok (jobs t)" for t
    using deletejob_spec [OF that assms(2) prod.collapse [symmetric]] pids_table(2) by simp
  show ?thesis
  proof (cases st)
    case (Stopped n)
    then obtain i where i: "getjobpid (jobs sh) p = Some i" "jobs sh' = jobs (set_state i ST (emit (Printf ''Job [%d] (%d) stopped by signal %d\<newline>''
                [Num (jid (jobs sh ! i)), Num p, Num n]) sh))"
      using assms(3) by (auto simp: sigchld_one_def split: option.splits)
    then show ?thesis using set_state_spec [of "emit e sh" i ST for e] getjobpid_table(2) [OF assms(1,2) i(1)] assms(1) Stopped by simp
  qed (use assms del in \<open>auto simp: sigchld_one_def split: option.splits\<close>)
qed

lemma sigchld_handler_spec:
  assumes "table_ok (jobs sh)" "\<forall>r \<in> set rs. 1 \<le> fst r" "sigchld_handler rs sh = Some sh'"
  shows "table_ok (jobs sh') \<and> pids (jobs sh') = pids (jobs sh) - {p. \<exists>r \<in> set rs. fst r = p \<and> ends (snd r)}"
  using assms
proof (induction rs sh rule: sigchld_handler.induct)
  case (2 p st rs sh)
  then obtain sh1 where 1: "sigchld_one p st sh = Some sh1" "sigchld_handler rs sh1 = Some sh'"
    by (auto split: option.splits)
  from sigchld_one_spec [OF "2.prems"(1) _ 1(1)] "2.prems"(2) have "table_ok (jobs sh1)"
    "pids (jobs sh1) = (if ends st then pids (jobs sh) - {p} else pids (jobs sh))" by simp_all
  with "2.IH" [OF 1(1)] 1(2) "2.prems"(2) show ?case by auto
qed auto

lemma books_initial: "books initial"
  by (auto simp: books_def initial_def initjobs_def table_ok_def MAXJOBS_def clearjob_def pids_def)

lemma add_books:
  assumes "table_ok (jobs t)" "1 \<le> p" "p \<notin> pids (jobs t)"
  shows "table_ok (jobs (snd (addjob p st line t))) \<and> pids (jobs (snd (addjob p st line t))) \<subseteq> insert p (pids (jobs t))"
  using addjob_spec [OF assms prod.collapse [symmetric], of st line] pids_table(1)
  by (auto split: if_splits)

lemma builtin_cases:
  "builtin_cmd b argv t = Listed t' \<Longrightarrow> t' = listjobs t"
  "builtin_cmd b argv t = Message t' \<Longrightarrow> do_bgfg_find b argv t = (t', None)"
  "builtin_cmd b argv t = Bgfg fg i p t' \<Longrightarrow> do_bgfg_find b argv t = (t', Some i) \<and> p = pid (jobs t' ! i)"
  unfolding builtin_cmd_def by (simp_all split: if_splits prod.splits option.splits)

lemma builtin_books:
  "builtin_cmd b argv t = Listed t' \<Longrightarrow> jobs t' = jobs t"
  "builtin_cmd b argv t = Message t' \<Longrightarrow> jobs t' = jobs t"
  "builtin_cmd b argv t = Bgfg fg i p t' \<Longrightarrow> table_ok (jobs t) \<Longrightarrow>
     t' = t \<and> i < length (jobs t) \<and> p = pid (jobs t ! i) \<and> p \<noteq> 0"
proof -
  show "builtin_cmd b argv t = Listed t' \<Longrightarrow> jobs t' = jobs t" by (drule builtin_cases(1)) simp
  show "builtin_cmd b argv t = Message t' \<Longrightarrow> jobs t' = jobs t"
    using builtin_cases(2) do_bgfg_find_jobs by blast
  assume a: "builtin_cmd b argv t = Bgfg fg i p t'" and ok: "table_ok (jobs t)"
  from builtin_cases(3) [OF a] obtain k where k: "t' = t" "p = pid (jobs t ! i)" "1 \<le> k" "find_slot (\<lambda>j. jid j = k) (jobs t) = Some i"
    using do_bgfg_find_jobs by blast
  have i: "i < length (jobs t)" "jid (jobs t ! i) = k" using find_slot_Some [OF k(4) table_okD [OF ok]] by blast+
  then have "jobs t ! i \<in> set (jobs t)" by simp
  then have "p \<noteq> 0" using ok k(2,3) i(2) by (auto simp: table_ok_def)
  with k i show "t' = t \<and> i < length (jobs t) \<and> p = pid (jobs t ! i) \<and> p \<noteq> 0" by simp
qed

lemma eval_line_cases:
  obtains "eval_line line p b s = s\<lparr>pc := Crashed\<rparr>" "parseline line = None"
  | "eval_line line p b s = s" | "eval_line line p b s = s\<lparr>pc := Gone\<rparr>"
  | t where "eval_line line p b s = s\<lparr>shell := t\<rparr>" "jobs t = jobs (shell s)"
  | fg i q argv where "eval_line line p b s = s\<lparr>pc := Found fg i q\<rparr>" "builtin_cmd b argv (shell s) = Bgfg fg i q (shell s)"
  | bg where "eval_line line p b s = s\<lparr>pc := Forked p bg line, kids := p # kids s\<rparr>"
proof (cases "parseline line")
  case None
  then show thesis using that(1) by (simp add: eval_line_def)
next
  case (Some x)
  obtain bg argv where x: "parseline line = Some (bg, argv)" using Some by (cases x) auto
  show thesis
  proof (cases "argv = []")
    case True
    then show thesis using that(2) by (simp add: eval_line_def x)
  next
    case False
    show thesis
    proof (cases "builtin_cmd b argv (shell s)")
      case Quit
      then show thesis using that(3) False by (simp add: eval_line_def x)
    next
      case (Listed t)
      then show thesis using that(4) [of t] builtin_books(1) [OF Listed] False by (simp add: eval_line_def x)
    next
      case (Message t)
      then show thesis using that(4) [of t] builtin_books(2) [OF Message] False by (simp add: eval_line_def x)
    next
      case (Bgfg fg i q t)
      have "t = shell s" using builtin_cases(3) [OF Bgfg] do_bgfg_find_jobs by blast
      then show thesis using that(5) [of fg i q argv] Bgfg False by (simp add: eval_line_def x)
    next
      case External
      then show thesis using that(6) False by (simp add: eval_line_def x)
    qed
  qed
qed

lemma eval_line_books:
  assumes "books s" "pc s = Prompt" "1 \<le> p" "p \<notin> set (kids s)"
  shows "books (eval_line line p b s)"
proof (cases rule: eval_line_cases [of line p b s])
  case (5 fg i q argv)
  then show ?thesis using assms builtin_books(3) [OF 5(2)] by (auto simp: books_def)
qed (use assms in \<open>auto simp: books_def\<close>)

lemma books_reports:
  "books s \<Longrightarrow> fst ` set r \<subseteq> set (kids s) \<Longrightarrow> distinct (map fst r) \<Longrightarrow> books (s\<lparr>reports := r\<rparr>)"
  by (cases "pc s") (simp_all add: books_def)

lemma books_shell: "books s \<Longrightarrow> jobs t = jobs (shell s) \<Longrightarrow> books (s\<lparr>shell := t\<rparr>)"
  by (simp add: books_def cong: pc.case_cong)

lemma books_table:
  "books s \<Longrightarrow> table_ok (jobs t) \<Longrightarrow> pids (jobs t) \<subseteq> set (kids s) \<Longrightarrow> c \<in> {Prompt, Waiting p} \<Longrightarrow>
     books (s\<lparr>shell := t, pc := c\<rparr>)"
  by (auto simp: books_def)

lemma do_bgfg_set_books:
  assumes "table_ok (jobs t)" "i < length (jobs t)"
  shows "table_ok (jobs (do_bgfg_set fg i p t)) \<and> pids (jobs (do_bgfg_set fg i p t)) = pids (jobs t)"
  using set_state_spec [OF assms] by (simp add: do_bgfg_set_def Let_def)

lemma main_step_books:
  assumes b: "books s" and m: "main_step s = Some s'"
  shows "books s'"
proof (cases "pc s")
  case (Forked p bg line)
  then have p: "1 \<le> p" "p \<in> set (kids s)" "p \<notin> pids (jobs (shell s))" and ok: "table_ok (jobs (shell s))"
    and sub: "pids (jobs (shell s)) \<subseteq> set (kids s)"
    using b by (auto simp: books_def)
  have add: "table_ok (jobs (snd (addjob p st line (shell s))))" "pids (jobs (snd (addjob p st line (shell s)))) \<subseteq> set (kids s)" for st
    using add_books [OF ok p(1,3), of st line] p(2) sub by auto
  from Forked m have s': "s' = eval_add p bg line s" by (simp add: main_step_def)
  show ?thesis
  proof (cases bg)
    case True
    then show ?thesis unfolding s' eval_add_def Let_def using add [of BG]
      by (simp add: books_table [OF b])
  next
    case False
    then show ?thesis unfolding s' eval_add_def using add [of FG]
      by (simp add: books_table [OF b, of _ _ p])
  qed
next
  case (Found fg i p)
  then have "s' = s\<lparr>pc := (if do_bgfg_test fg i (shell s) then Setting fg i p else Prompt)\<rparr>"
    using m by (simp add: main_step_def)
  then show ?thesis using b Found by (simp add: books_def)
next
  case (Setting fg i p)
  then have "s' = s\<lparr>shell := do_bgfg_set fg i p (shell s), pc := (if fg then Waiting p else Prompt)\<rparr>"
    using m by (simp add: main_step_def)
  moreover have "table_ok (jobs (shell s))" "i < length (jobs (shell s))" "pids (jobs (shell s)) \<subseteq> set (kids s)"
    using b Setting by (simp_all add: books_def)
  ultimately show ?thesis using do_bgfg_set_books [of "shell s" i fg p] books_table [OF b, of _ _ p] by simp
next
  case (Waiting p)
  then have "s' = s \<or> s' = s\<lparr>pc := Prompt\<rparr>" using m by (auto simp: main_step_def split: if_splits)
  then show ?thesis using b by (elim disjE) (simp_all add: books_def)
qed (use m in \<open>simp_all add: main_step_def\<close>)

text \<open>What \<open>sigchld_handler\<close> leaves: the children that have ended are gone from the table and reaped.\<close>

definition reap :: "sys \<Rightarrow> int list" where
  "reap s = filter (\<lambda>p. \<not> (\<exists>r \<in> set (reports s). fst r = p \<and> ends (snd r))) (kids s)"

lemma sigchld_cases:
  assumes "step Sigchld s = Some s'"
  obtains "s' = s\<lparr>pc := Crashed\<rparr>" "sigchld_handler (reports s) (shell s) = None"
  | t where "sigchld_handler (reports s) (shell s) = Some t" "s' = s\<lparr>shell := t, kids := reap s, reports := []\<rparr>"
    "\<And>p bg line. pc s \<noteq> Forked p bg line"
  using assms by (cases "pc s"; cases "sigchld_handler (reports s) (shell s)") (simp_all add: reap_def)

lemma sigchld_books:
  assumes b: "books s" and st: "step Sigchld s = Some s'"
  shows "books s'"
  using st
proof (cases rule: sigchld_cases)
  case 1
  then show ?thesis using b by (simp add: books_def)
next
  case (2 t)
  have ok: "table_ok (jobs (shell s))" "\<forall>r \<in> set (reports s). 1 \<le> fst r" using b by (auto simp: books_def)
  note h = sigchld_handler_spec [OF ok 2(1)]
  have "length (jobs t) = length (jobs (shell s))" using table_okD [OF ok(1)] table_okD [of "jobs t"] h by simp
  moreover have "pids (jobs t) \<subseteq> set (reap s)" "distinct (reap s)" "\<forall>p \<in> set (reap s). 1 \<le> p"
    using b h by (auto simp: books_def reap_def)
  moreover obtain "pids (jobs t) \<subseteq> set (reap s)" "\<And>p bg line. pc s \<noteq> Forked p bg line" using calculation 2(3) by blast
  ultimately show ?thesis using b h unfolding 2(2) by (auto simp: books_def split: pc.splits)
qed

lemma books_step:
  assumes "books s" "step a s = Some s'"
  shows "books s'"
proof (cases a)
  case (Line line p b)
  then show ?thesis using assms eval_line_books [OF assms(1), of p line b] by (simp split: if_splits)
next
  case Main
  then show ?thesis using assms main_step_books by simp
next
  case Sigchld
  then show ?thesis using assms sigchld_books by simp
next
  case (Child p status)
  let ?r = "filter (\<lambda>r. fst r \<noteq> p) (reports s) @ [(p, status)]"
  have "s' = s\<lparr>reports := ?r\<rparr>" "p \<in> set (kids s)" using assms(2) Child by (simp_all split: if_splits)
  moreover have "fst ` set ?r \<subseteq> set (kids s)" "distinct (map fst ?r)"
    using assms(1) \<open>p \<in> set (kids s)\<close> by (auto simp: books_def distinct_map_filter)
  ultimately show ?thesis using books_reports [OF assms(1)] by simp
next
  case Sigint
  then have "s' = s\<lparr>shell := sigint_handler (shell s)\<rparr>" using assms(2) by (simp split: if_splits)
  then show ?thesis using books_shell [OF assms(1)] by simp
next
  case Sigtstp
  then have "s' = s\<lparr>shell := sigtstp_handler (shell s)\<rparr>" using assms(2) by (simp split: if_splits)
  then show ?thesis using books_shell [OF assms(1)] by simp
qed

lemma reach_books: "reach P s \<Longrightarrow> books s"
  by (induction rule: reach.induct) (auto intro: books_initial books_step)

section \<open>The foreground job\<close>

text \<open>What the handler of \<open>SIGCHLD\<close> does to the slots: it clears them or marks the job stopped.\<close>

definition demoted :: "job_t list \<Rightarrow> job_t list \<Rightarrow> bool" where
  "demoted js js' \<longleftrightarrow> length js' = length js \<and>
     (\<forall>k < length js. js' ! k = js ! k \<or> js' ! k = clearjob \<or> pid (js' ! k) = pid (js ! k) \<and> pid (js ! k) \<noteq> 0 \<and> state (js' ! k) = ST)"

lemma demoted_refl [simp]: "demoted js js"
  by (simp add: demoted_def)

lemma demoted_trans: "demoted js js1 \<Longrightarrow> demoted js1 js2 \<Longrightarrow> demoted js js2"
  unfolding demoted_def by (metis clearjob_def job_t.select_convs(1))

lemma demoted_update: "k < length js \<Longrightarrow> j = clearjob \<or> pid j = pid (js ! k) \<and> pid (js ! k) \<noteq> 0 \<and> state j = ST \<Longrightarrow> demoted js (js[k := j])"
  by (auto simp: demoted_def nth_list_update)

lemma demoted_deletejob: "table_ok (jobs t) \<Longrightarrow> demoted (jobs t) (jobs (snd (deletejob p t)))"
  using find_slot_Some [OF _ table_okD, of "\<lambda>j. pid j = p" "jobs t"]
  by (auto simp: deletejob_def Let_def split: option.splits intro!: demoted_update)

lemma demoted_stop: "table_ok (jobs t) \<Longrightarrow> 1 \<le> p \<Longrightarrow> getjobpid (jobs t) p = Some i \<Longrightarrow> demoted (jobs t) (jobs (set_state i ST t))"
  using getjobpid_table(2) [of "jobs t" p i] by (auto simp: set_state_def intro!: demoted_update)

lemma demoted_one: "table_ok (jobs t) \<Longrightarrow> 1 \<le> p \<Longrightarrow> sigchld_one p st t = Some t' \<Longrightarrow> demoted (jobs t) (jobs t')"
  using demoted_deletejob [of t p] demoted_deletejob [of "emit e t" p for e] demoted_stop [of "emit e t" p for e]
  by (auto simp: sigchld_one_def split: status.splits option.splits)

lemma demoted_handler:
  "sigchld_handler rs t = Some t' \<Longrightarrow> table_ok (jobs t) \<Longrightarrow> \<forall>r \<in> set rs. 1 \<le> fst r \<Longrightarrow> demoted (jobs t) (jobs t')"
proof (induction rs t rule: sigchld_handler.induct)
  case (2 p st rs t)
  then obtain t1 where 1: "sigchld_one p st t = Some t1" "sigchld_handler rs t1 = Some t'"
    by (auto split: option.splits)
  have "table_ok (jobs t1)" using sigchld_one_spec [OF "2.prems"(2) _ 1(1)] "2.prems"(3) by simp
  then show ?case using "2.IH" [OF 1(1,2)] demoted_one [OF "2.prems"(2) _ 1(1)] "2.prems"(3) demoted_trans by fastforce
qed simp

text \<open>
  The invariant: free slots have no state, and the foreground job, if there is one, is the one that
  \<open>waitfg\<close> waits for.
\<close>

definition fg_only :: "job_t list \<Rightarrow> int set \<Rightarrow> bool" where
  "fg_only js P \<longleftrightarrow> (\<forall>j \<in> set js. (pid j = 0 \<longleftrightarrow> state j = UNDEF) \<and> (state j = FG \<longrightarrow> pid j \<in> P))"

definition foreground :: "sys \<Rightarrow> bool" where
  "foreground s \<longleftrightarrow>
     (case pc s of
        Waiting p \<Rightarrow> fg_only (jobs (shell s)) {p}
      | Found fg i p \<Rightarrow> fg_only (jobs (shell s)) {} \<and> (pid (jobs (shell s) ! i) = p \<or> state (jobs (shell s) ! i) = UNDEF)
      | Setting fg i p \<Rightarrow> fg_only (jobs (shell s)) {} \<and> pid (jobs (shell s) ! i) = p \<and> p \<noteq> 0
      | Crashed \<Rightarrow> \<exists>p. fg_only (jobs (shell s)) {p}
      | _ \<Rightarrow> fg_only (jobs (shell s)) {})"

definition calm :: "action \<Rightarrow> sys \<Rightarrow> bool" where
  "calm a s \<longleftrightarrow> (case pc s of Setting fg i p \<Rightarrow> a \<noteq> Sigchld | _ \<Rightarrow> True)"

lemma fg_only_update: "fg_only js P \<Longrightarrow> (pid j = 0 \<longleftrightarrow> state j = UNDEF) \<Longrightarrow> (state j = FG \<longrightarrow> pid j \<in> Q) \<Longrightarrow> P \<subseteq> Q \<Longrightarrow> fg_only (js[i := j]) Q"
  using set_update_subset_insert [of js i j] by (force simp: fg_only_def)

lemma fg_only_mono: "fg_only js P \<Longrightarrow> P \<subseteq> Q \<Longrightarrow> fg_only js Q"
  by (auto simp: fg_only_def)

lemma fg_only_demoted: "fg_only js P \<Longrightarrow> demoted js js' \<Longrightarrow> fg_only js' P"
proof -
  assume f: "fg_only js P" and d: "demoted js js'"
  have "(pid (js' ! k) = 0 \<longleftrightarrow> state (js' ! k) = UNDEF) \<and> (state (js' ! k) = FG \<longrightarrow> pid (js' ! k) \<in> P)" if "k < length js'" for k
  proof -
    have k: "k < length js" using d that by (simp add: demoted_def)
    then have "js ! k \<in> set js" by simp
    then show ?thesis using f d k by (auto simp: demoted_def fg_only_def clearjob_def)
  qed
  then show ?thesis by (auto simp: fg_only_def in_set_conv_nth)
qed

lemma fg_only_addjob: "fg_only (jobs t) {} \<Longrightarrow> 1 \<le> p \<Longrightarrow> st \<noteq> UNDEF \<Longrightarrow> fg_only (jobs (snd (addjob p st line t))) (if st = FG then {p} else {})"
  by (auto simp: addjob_def Let_def split: option.splits intro!: fg_only_update intro: fg_only_mono)

lemma foreground_initial: "foreground initial"
  by (auto simp: foreground_def initial_def initjobs_def fg_only_def clearjob_def)

lemma foreground_shell: "foreground s \<Longrightarrow> jobs t = jobs (shell s) \<Longrightarrow> foreground (s\<lparr>shell := t\<rparr>)"
  by (cases "pc s") (simp_all add: foreground_def)

lemma foreground_kids: "foreground s \<Longrightarrow> foreground (s\<lparr>reports := r\<rparr>)"
  by (cases "pc s") (simp_all add: foreground_def)

lemma foreground_eval:
  assumes "books s" "foreground s" "pc s = Prompt"
  shows "foreground (eval_line line p b s)"
proof (cases rule: eval_line_cases [of line p b s])
  case 1
  then show ?thesis using assms fg_only_mono by (auto simp: foreground_def)
next
  case (5 fg i q argv)
  have "table_ok (jobs (shell s))" using assms(1) by (simp add: books_def)
  then show ?thesis using assms builtin_books(3) [OF 5(2)] 5(1) by (simp add: foreground_def)
qed (use assms in \<open>simp_all add: foreground_def\<close>)

lemma fg_only_set:
  assumes "fg_only (jobs t) {}" "i < length (jobs t)" "pid (jobs t ! i) = p" "p \<noteq> 0"
  shows "fg_only (jobs (do_bgfg_set fg i p t)) (if fg then {p} else {})"
proof -
  have "fg_only ((jobs t)[i := (jobs t ! i)\<lparr>state := st\<rparr>]) (if st = FG then {p} else {})"
    if "st \<noteq> UNDEF" for st
  proof -
    have "jobs t ! i \<in> set (jobs t)" using assms(2) by simp
    then show ?thesis using assms(1,3,4) that by (intro fg_only_update [OF assms(1)]) (auto simp: fg_only_def)
  qed
  from this [of FG] this [of BG] show ?thesis by (simp add: do_bgfg_set_def set_state_def Let_def)
qed

lemma fgpid_fg_only:
  assumes "table_ok js" "fg_only js {p}" "p \<noteq> fgpid js"
  shows "fg_only js {}"
proof (cases "find_slot (\<lambda>j. state j = FG) js")
  case None
  then have "\<forall>j \<in> set js. state j \<noteq> FG"
    using find_slot_None [OF table_okD [OF assms(1)], of "\<lambda>j. state j = FG"] by simp
  then show ?thesis using assms(2) unfolding fg_only_def by blast
next
  case (Some i)
  then have "i < length js" "state (js ! i) = FG" using find_slot_Some [OF Some table_okD [OF assms(1)]] by blast+
  then have "pid (js ! i) = p" using assms(2) nth_mem [of i js] unfolding fg_only_def by blast
  moreover have "fgpid js = pid (js ! i)" using Some by (simp add: fgpid_def)
  ultimately show ?thesis using assms(3) by simp
qed

lemma foreground_main:
  assumes "books s" "foreground s" "main_step s = Some s'"
  shows "foreground s'"
proof (cases "pc s")
  case (Forked p bg line)
  have "1 \<le> p" using assms(1) Forked by (auto simp: books_def)
  with Forked assms(2) have f: "fg_only (jobs (snd (addjob p st line (shell s)))) (if st = FG then {p} else {})" if "st \<noteq> UNDEF" for st
    using fg_only_addjob [of "shell s" p st line] that by (simp add: foreground_def)
  have s': "s' = eval_add p bg line s" using assms(3) Forked by (simp add: main_step_def)
  show ?thesis unfolding s' eval_add_def Let_def using f [of FG] f [of BG] by (simp add: foreground_def)
next
  case (Found fg i p)
  then have s': "s' = s\<lparr>pc := (if do_bgfg_test fg i (shell s) then Setting fg i p else Prompt)\<rparr>"
    using assms(3) by (simp add: main_step_def)
  have i: "i < length (jobs (shell s))" using assms(1) Found by (simp add: books_def)
  have f: "fg_only (jobs (shell s)) {}" "pid (jobs (shell s) ! i) = p \<or> state (jobs (shell s) ! i) = UNDEF"
    using assms(2) Found by (simp_all add: foreground_def)
  have "jobs (shell s) ! i \<in> set (jobs (shell s))" using i by simp
  then have "pid (jobs (shell s) ! i) = p \<and> p \<noteq> 0" if "do_bgfg_test fg i (shell s)"
    using f that by (auto simp: do_bgfg_test_def fg_only_def Let_def split: if_splits)
  then show ?thesis using f by (simp add: s' foreground_def)
next
  case (Setting fg i p)
  then have "s' = s\<lparr>shell := do_bgfg_set fg i p (shell s), pc := (if fg then Waiting p else Prompt)\<rparr>"
    using assms(3) by (simp add: main_step_def)
  moreover have "i < length (jobs (shell s))" using assms(1) Setting by (simp add: books_def)
  ultimately show ?thesis using fg_only_set [of "shell s" i p fg] assms(2) Setting by (cases fg) (simp_all add: foreground_def)
next
  case (Waiting p)
  have "table_ok (jobs (shell s))" using assms(1) by (simp add: books_def)
  then show ?thesis using assms(2,3) Waiting fgpid_fg_only [of "jobs (shell s)" p]
    by (auto simp: main_step_def foreground_def split: if_splits)
qed (use assms(3) in \<open>simp_all add: main_step_def\<close>)

lemma foreground_sigchld:
  assumes "books s" "foreground s" "calm Sigchld s" "step Sigchld s = Some s'"
  shows "foreground s'"
  using assms(4)
proof (cases rule: sigchld_cases)
  case 1
  then show ?thesis using assms(2) fg_only_mono [of _ "{}"] by (cases "pc s") (auto simp: foreground_def)
next
  case (2 t)
  have ok: "table_ok (jobs (shell s))" "\<forall>r \<in> set (reports s). 1 \<le> fst r" using assms(1) by (auto simp: books_def)
  note d = demoted_handler [OF 2(1) ok]
  have f: "fg_only (jobs t) P" if "fg_only (jobs (shell s)) P" for P using fg_only_demoted [OF that d] .
  show ?thesis
  proof (cases "pc s")
    case (Found fg i p)
    have i: "i < length (jobs (shell s))" using assms(1) Found by (simp add: books_def)
    then have "jobs (shell s) ! i \<in> set (jobs (shell s))" by simp
    then have "pid (jobs t ! i) = p \<or> state (jobs t ! i) = UNDEF"
      using assms(2) d i Found by (auto simp: foreground_def demoted_def clearjob_def fg_only_def)
    then show ?thesis using f assms(2) Found by (simp add: 2(2) foreground_def)
  next
    case (Setting fg i p)
    then show ?thesis using assms(3) by (simp add: calm_def)
  qed (use f assms(2) 2 in \<open>auto simp: foreground_def\<close>)
qed

lemma foreground_step:
  assumes "books s" "foreground s" "calm a s" "step a s = Some s'"
  shows "foreground s'"
proof (cases a)
  case (Line line p b)
  then have "s' = eval_line line p b s" "pc s = Prompt" using assms(4) by (simp_all split: if_splits)
  then show ?thesis using foreground_eval [OF assms(1,2)] by simp
next
  case Main
  then show ?thesis using foreground_main [OF assms(1,2)] assms(4) by simp
next
  case Sigchld
  then show ?thesis using foreground_sigchld [OF assms(1,2)] assms(3,4) by simp
next
  case (Child p st)
  then have "\<exists>r. s' = s\<lparr>reports := r\<rparr>" using assms(4) by (simp split: if_splits) blast
  then show ?thesis using foreground_kids [OF assms(2)] by auto
next
  case Sigint
  then have "s' = s\<lparr>shell := sigint_handler (shell s)\<rparr>" using assms(4) by (simp split: if_splits)
  then show ?thesis using foreground_shell [OF assms(2)] by simp
next
  case Sigtstp
  then have "s' = s\<lparr>shell := sigtstp_handler (shell s)\<rparr>" using assms(4) by (simp split: if_splits)
  then show ?thesis using foreground_shell [OF assms(2)] by simp
qed

lemma reach_foreground: "reach P s \<Longrightarrow> (\<And>a s. P a s \<Longrightarrow> calm a s) \<Longrightarrow> foreground s"
  by (induction rule: reach.induct) (auto intro: foreground_initial foreground_step dest: reach_books)

section \<open>Running without a crash\<close>

text \<open>
  A user who keeps to lines that the parser can take and to fewer children than the table has slots.
\<close>

definition modest :: "action \<Rightarrow> sys \<Rightarrow> bool" where
  "modest a s \<longleftrightarrow>
     (case a of Line line p b \<Rightarrow> parseline line \<noteq> None \<and> int (length (kids s)) < MAXJOBS | _ \<Rightarrow> True)"

text \<open>Then every child is in the table, or about to be entered.\<close>

definition listed :: "sys \<Rightarrow> bool" where
  "listed s \<longleftrightarrow> pc s \<noteq> Crashed \<and> int (length (kids s)) \<le> MAXJOBS \<and>
     set (kids s) = pids (jobs (shell s)) \<union> (case pc s of Forked p bg line \<Rightarrow> {p} | _ \<Rightarrow> {})"

lemma sigchld_one_total: "table_ok (jobs t) \<Longrightarrow> p \<in> pids (jobs t) \<Longrightarrow> 1 \<le> p \<Longrightarrow> sigchld_one p st t \<noteq> None"
  using getjobpid_table(1) [of "jobs t" p] by (auto simp: sigchld_one_def split: status.splits option.splits)

lemma sigchld_handler_total:
  "table_ok (jobs t) \<Longrightarrow> fst ` set rs \<subseteq> pids (jobs t) \<Longrightarrow> \<forall>r \<in> set rs. 1 \<le> fst r \<Longrightarrow> distinct (map fst rs) \<Longrightarrow>
     sigchld_handler rs t \<noteq> None"
proof (induction rs t rule: sigchld_handler.induct)
  case (2 p st rs t)
  then obtain t1 where 1: "sigchld_one p st t = Some t1" using sigchld_one_total [of t p st] by auto
  have t1: "table_ok (jobs t1)" "pids (jobs t) - {p} \<subseteq> pids (jobs t1)"
    using sigchld_one_spec [OF "2.prems"(1) _ 1] "2.prems"(3) by auto
  moreover have "fst ` set rs \<subseteq> pids (jobs t) - {p}" using "2.prems"(2,4) by force
  ultimately show ?case using "2.IH" [OF 1] "2.prems"(3,4) 1 by auto
qed simp

lemma listed_initial: "listed initial"
  by (auto simp: listed_def initial_def initjobs_def MAXJOBS_def pids_def clearjob_def)

lemma listed_shell: "listed s \<Longrightarrow> jobs t = jobs (shell s) \<Longrightarrow> listed (s\<lparr>shell := t\<rparr>)"
  by (cases "pc s") (simp_all add: listed_def)

lemma listed_eval:
  assumes "listed s" "pc s = Prompt" "modest (Line line p b) s"
  shows "listed (eval_line line p b s)"
  by (cases rule: eval_line_cases [of line p b s]) (use assms in \<open>auto simp: listed_def modest_def\<close>)

lemma listed_main:
  assumes "books s" "listed s" "main_step s = Some s'"
  shows "listed s'"
proof (cases "pc s")
  case (Forked p bg line)
  have ok: "table_ok (jobs (shell s))" and p: "1 \<le> p" "p \<notin> pids (jobs (shell s))" and d: "distinct (kids s)"
    using assms(1) Forked by (auto simp: books_def)
  have k: "set (kids s) = insert p (pids (jobs (shell s)))" "int (length (kids s)) \<le> MAXJOBS"
    using assms(2) Forked by (auto simp: listed_def)
  have fin: "finite (pids (jobs (shell s)))" by (simp add: pids_def)
  have "card (set (kids s)) = Suc (card (pids (jobs (shell s))))" using k(1) p(2) fin by simp
  then have "card (pids (jobs (shell s))) \<noteq> nat MAXJOBS" using k(2) distinct_card [OF d] by linarith
  then have a: "pids (jobs (snd (addjob p st line (shell s)))) = set (kids s)" for st
    using addjob_spec [OF ok p prod.collapse [symmetric], of st line] pids_table(1) k(1) by simp
  have s': "s' = eval_add p bg line s" using assms(3) Forked by (simp add: main_step_def)
  show ?thesis unfolding s' eval_add_def Let_def using a [of FG] a [of BG] k(2) by (simp add: listed_def)
next
  case (Setting fg i p)
  then have "s' = s\<lparr>shell := do_bgfg_set fg i p (shell s), pc := (if fg then Waiting p else Prompt)\<rparr>"
    using assms(3) by (simp add: main_step_def)
  moreover have "table_ok (jobs (shell s))" "i < length (jobs (shell s))" using assms(1) Setting by (simp_all add: books_def)
  ultimately show ?thesis using assms(2) Setting do_bgfg_set_books [of "shell s" i fg p] by (simp add: listed_def)
next
  case (Found fg i p)
  then have "s' = s\<lparr>pc := (if do_bgfg_test fg i (shell s) then Setting fg i p else Prompt)\<rparr>"
    using assms(3) by (simp add: main_step_def)
  then show ?thesis using assms(2) Found by (simp add: listed_def)
next
  case (Waiting p)
  then have "s' = s \<or> s' = s\<lparr>pc := Prompt\<rparr>" using assms(3) by (auto simp: main_step_def split: if_splits)
  then show ?thesis using assms(2) Waiting by (elim disjE) (simp_all add: listed_def)
qed (use assms(3) in \<open>simp_all add: main_step_def\<close>)

lemma listed_kids:
  assumes "listed s" "\<And>p bg line. pc s \<noteq> Forked p bg line"
  shows "set (kids s) = pids (jobs (shell s))"
proof (cases "pc s")
  case (Forked p bg line)
  then show ?thesis using assms(2) by blast
qed (use assms(1) in \<open>simp_all add: listed_def\<close>)

lemma listed_handler:
  assumes "books s" "listed s" "\<And>p bg line. pc s \<noteq> Forked p bg line"
  shows "\<exists>t. sigchld_handler (reports s) (shell s) = Some t"
proof -
  show ?thesis
    using listed_kids [OF assms(2,3)] sigchld_handler_total [of "shell s" "reports s"] assms(1) by (fastforce simp: books_def)
qed

lemma listed_sigchld:
  assumes "books s" "listed s" "step Sigchld s = Some s'"
  shows "listed s'"
  using assms(3)
proof (cases rule: sigchld_cases)
  case 1
  have "\<And>p bg line. pc s \<noteq> Forked p bg line" using assms(3) by auto
  from listed_handler [OF assms(1,2) this] show ?thesis using 1(2) by simp
next
  case (2 t)
  have ok: "table_ok (jobs (shell s))" "\<forall>r \<in> set (reports s). 1 \<le> fst r" using assms(1) by (auto simp: books_def)
  have "set (reap s) = pids (jobs t)" using sigchld_handler_spec [OF ok 2(1)] listed_kids [OF assms(2) 2(3)] by (auto simp: reap_def)
  moreover have "length (reap s) \<le> length (kids s)" by (simp add: reap_def)
  ultimately show ?thesis using assms(2) 2(2) 2(3) by (cases "pc s") (auto simp: listed_def)
qed

lemma listed_step:
  assumes "books s" "listed s" "modest a s" "step a s = Some s'"
  shows "listed s'"
proof (cases a)
  case (Line line p b)
  then have "s' = eval_line line p b s" "pc s = Prompt" using assms(4) by (simp_all split: if_splits)
  then show ?thesis using listed_eval [OF assms(2)] assms(3) Line by simp
next
  case Main
  then show ?thesis using listed_main [OF assms(1,2)] assms(4) by simp
next
  case Sigchld
  then show ?thesis using listed_sigchld [OF assms(1,2)] assms(4) by simp
next
  case (Child p st)
  then have "\<exists>r. s' = s\<lparr>reports := r\<rparr>" using assms(4) by (simp split: if_splits) blast
  then show ?thesis using assms(2) by (cases "pc s") (auto simp: listed_def)
next
  case Sigint
  then have "s' = s\<lparr>shell := sigint_handler (shell s)\<rparr>" using assms(4) by (simp split: if_splits)
  then show ?thesis using listed_shell [OF assms(2)] by simp
next
  case Sigtstp
  then have "s' = s\<lparr>shell := sigtstp_handler (shell s)\<rparr>" using assms(4) by (simp split: if_splits)
  then show ?thesis using listed_shell [OF assms(2)] by simp
qed

lemma reach_listed: "reach P s \<Longrightarrow> (\<And>a s. P a s \<Longrightarrow> modest a s) \<Longrightarrow> listed s"
  by (induction rule: reach.induct) (auto intro: listed_initial listed_step dest: reach_books)

text \<open>After a report of a child, the child is not in the foreground.\<close>

lemma demoted_not_FG:
  assumes "demoted js js'" "\<forall>j \<in> set js. pid j = p \<longrightarrow> state j \<noteq> FG"
  shows "\<forall>j \<in> set js'. pid j = p \<longrightarrow> state j \<noteq> FG"
proof
  fix j assume "j \<in> set js'"
  then obtain k where k: "k < length js'" "js' ! k = j" by (auto simp: in_set_conv_nth)
  then have "k < length js" using assms(1) by (simp add: demoted_def)
  then have dem: "js' ! k = js ! k \<or> js' ! k = clearjob \<or> pid (js' ! k) = pid (js ! k) \<and> pid (js ! k) \<noteq> 0 \<and> state (js' ! k) = ST"
    using assms(1) by (simp add: demoted_def)
  have "js ! k \<in> set js" using \<open>k < length js\<close> by simp
  then show "pid j = p \<longrightarrow> state j \<noteq> FG"
    using assms(2) dem k(2) by (elim disjE) (auto simp: clearjob_def)
qed

lemma sigchld_one_not_FG:
  assumes "table_ok (jobs t)" "1 \<le> p" "sigchld_one p st t = Some t'" "st \<noteq> Continued"
  shows "\<forall>j \<in> set (jobs t'). pid j = p \<longrightarrow> state j \<noteq> FG"
proof (cases "ends st")
  case True
  then have "p \<notin> pids (jobs t')" using sigchld_one_spec [OF assms(1-3)] by simp
  then show ?thesis using assms(2) by (force simp: pids_def)
next
  case False
  then obtain n where st: "st = Stopped n" using assms(4) by (cases st) auto
  then obtain i e where i: "getjobpid (jobs t) p = Some i" "jobs t' = jobs (set_state i ST (emit e t))"
    using assms(3) by (auto simp: sigchld_one_def split: option.splits)
  note k = getjobpid_table(2) [OF assms(1,2) i(1)]
  have "state j = ST" if "j \<in> set (jobs t')" "pid j = p" for j
  proof -
    obtain l where l: "l < length (jobs t)" "jobs t' ! l = j" using \<open>j \<in> set (jobs t')\<close> i(2) by (auto simp: set_state_def in_set_conv_nth)
    then have "l = i" using nth_pid_unique [OF assms(1) l(1), of i] k that(2) i(2) assms(2)
      by (cases "l = i") (auto simp: set_state_def)
    then show ?thesis using l i(2) by (auto simp: set_state_def)
  qed
  then show ?thesis by auto
qed

lemma handler_not_FG:
  "sigchld_handler rs t = Some t' \<Longrightarrow> table_ok (jobs t) \<Longrightarrow> \<forall>r \<in> set rs. 1 \<le> fst r \<Longrightarrow>
     (p, st) \<in> set rs \<Longrightarrow> st \<noteq> Continued \<Longrightarrow> \<forall>j \<in> set (jobs t'). pid j = p \<longrightarrow> state j \<noteq> FG"
proof (induction rs t rule: sigchld_handler.induct)
  case (2 q sq rs t)
  then obtain t1 where 1: "sigchld_one q sq t = Some t1" "sigchld_handler rs t1 = Some t'"
    by (auto split: option.splits)
  have ok: "table_ok (jobs t1)" "1 \<le> q" "\<forall>r \<in> set rs. 1 \<le> fst r"
    using sigchld_one_spec [OF "2.prems"(2) _ 1(1)] "2.prems"(3) by simp_all
  show ?case
  proof (cases "(p, st) = (q, sq)")
    case True
    then show ?thesis
      using demoted_not_FG [OF demoted_handler [OF 1(2) ok(1,3)]] sigchld_one_not_FG [OF "2.prems"(2) ok(2) 1(1)] "2.prems"(5) by simp
  next
    case False
    then have "(p, st) \<in> set rs" using "2.prems"(4) by auto
    then show ?thesis using "2.IH" [OF 1(1,2) ok(1,3)] "2.prems"(5) by simp
  qed
qed simp

section \<open>Properties\<close>

text \<open>C19: Whatever the user types and whenever children change and signals come in, no process has two
  slots of the table and every process listed is a child of the shell that has not been reaped.\<close>

theorem jobs_are_children:
  assumes "reach (\<lambda>a s. True) s"
  shows "table_ok (jobs (shell s)) \<and> (\<forall>j \<in> set (jobs (shell s)). pid j \<noteq> 0 \<longrightarrow> pid j \<in> set (kids s))"
  using reach_books [OF assms] by (auto simp: books_def pids_def)

text \<open>A command line that starts a background job, and what the shell does for it.\<close>

definition background :: "int \<Rightarrow> action list" where
  "background p = [Line ''a &\<newline>'' p 0, Main]"

lemma reach_mono: "reach P s \<Longrightarrow> (\<And>a s. P a s \<Longrightarrow> Q a s) \<Longrightarrow> reach Q s"
  by (induction rule: reach.induct) (auto intro: reach.intros)

text \<open>A run that keeps to a rule.\<close>

fun keeps_to :: "(action \<Rightarrow> sys \<Rightarrow> bool) \<Rightarrow> action list \<Rightarrow> sys \<Rightarrow> bool" where
  "keeps_to P [] s = True"
| "keeps_to P (a # as) s = (P a s \<and> (case step a s of None \<Rightarrow> False | Some s' \<Rightarrow> keeps_to P as s'))"

lemma reach_keeps_to: "reach P s \<Longrightarrow> keeps_to P as s \<Longrightarrow> run as s = Some s' \<Longrightarrow> reach P s'"
  by (induction "as" arbitrary: s) (auto split: option.splits intro: reach.act)

lemma jobs_are_children_witness:
  "\<exists>s. run (background 5 @ [Child 5 (Stopped 20), Sigchld]) initial = Some s \<and> table_ok (jobs (shell s)) \<and> 5 \<in> set (kids s)"
proof -
  let ?as = "background 5 @ [Child 5 (Stopped 20), Sigchld]"
  have "map_option (\<lambda>s. (kids s, map pid (jobs (shell s)))) (run ?as initial) = Some ([5], 5 # replicate 15 0)" by code_simp
  then obtain s where s: "run ?as initial = Some s" "map pid (jobs (shell s)) = 5 # replicate 15 0" by auto
  then have "\<exists>j \<in> set (jobs (shell s)). pid j = 5" by (metis image_iff list.set_intros(1) list.set_map)
  then show ?thesis using jobs_are_children [OF reach_run [OF reach.start s(1)]] s(1) by auto
qed

text \<open>C20: Unless \<open>SIGCHLD\<close> comes in between the test and the assignment of the state in \<open>do_bgfg\<close>, at most one
  slot is in the foreground, and none is when the shell is at its prompt.\<close>

theorem one_foreground:
  assumes "reach calm s"
  shows "(pc s = Prompt \<longrightarrow> (\<forall>j \<in> set (jobs (shell s)). state j \<noteq> FG)) \<and>
    (\<forall>i < length (jobs (shell s)). \<forall>k < length (jobs (shell s)).
       state (jobs (shell s) ! i) = FG \<and> state (jobs (shell s) ! k) = FG \<longrightarrow> i = k)"
proof -
  have f: "foreground s" by (rule reach_foreground [OF assms])
  have ok: "table_ok (jobs (shell s))" using reach_books [OF assms] by (simp add: books_def)
  obtain p where p: "fg_only (jobs (shell s)) {p}" using f fg_only_mono by (cases "pc s") (auto simp: foreground_def)
  have "pid (jobs (shell s) ! i) = p \<and> p \<noteq> 0" if "i < length (jobs (shell s))" "state (jobs (shell s) ! i) = FG" for i
  proof -
    have "jobs (shell s) ! i \<in> set (jobs (shell s))" using that(1) by simp
    then show ?thesis using p that(2) unfolding fg_only_def by auto
  qed
  then have "\<forall>i < length (jobs (shell s)). \<forall>k < length (jobs (shell s)).
      state (jobs (shell s) ! i) = FG \<and> state (jobs (shell s) ! k) = FG \<longrightarrow> i = k"
    using nth_pid_unique [OF ok] by metis
  moreover have "pc s = Prompt \<longrightarrow> (\<forall>j \<in> set (jobs (shell s)). state j \<noteq> FG)" using f by (auto simp: foreground_def fg_only_def)
  ultimately show ?thesis by blast
qed

lemma one_foreground_witness:
  "\<exists>s. run [Line ''a\<newline>'' 5 0, Main, Child 5 (Stopped 20), Sigchld, Main] initial = Some s \<and> pc s = Prompt \<and>
     (\<forall>j \<in> set (jobs (shell s)). state j \<noteq> FG)"
proof -
  let ?as = "[Line ''a\<newline>'' 5 0, Main, Child 5 (Stopped 20), Sigchld, Main]"
  have "map_option pc (run ?as initial) = Some Prompt" by code_simp
  then obtain s where s: "run ?as initial = Some s" "pc s = Prompt" by auto
  have "keeps_to calm ?as initial" by code_simp
  from one_foreground [OF reach_keeps_to [OF reach.start this s(1)]] s show ?thesis by blast
qed

text \<open>When \<open>SIGCHLD\<close> does come in there, a cleared slot becomes the foreground job: the shell then brings
  another job to the foreground without waiting for it, and \<open>ctrl-c\<close> reaches no job.\<close>

theorem foreground_race:
  "\<exists>s. reach (\<lambda>a s. True) s \<and> pc s = Prompt \<and> pids (jobs (shell s)) = {6} \<and>
     state (jobs (shell s) ! 0) = FG \<and> pid (jobs (shell s) ! 0) = 0 \<and>
     state (jobs (shell s) ! 1) = FG \<and> pid (jobs (shell s) ! 1) = 6 \<and> sigint_handler (shell s) = shell s"
proof -
  let ?as = "background 5 @ background 6 @ [Line ''fg %1\<newline>'' 7 0, Main, Child 5 (Exited 0), Sigchld, Main, Main,
     Line ''fg %2\<newline>'' 7 0, Main, Main, Main]"
  have "map_option (\<lambda>s. (pc s, map (\<lambda>j. (pid j, state j)) (jobs (shell s)), fgpid (jobs (shell s)))) (run ?as initial)
      = Some (Prompt, (0, FG) # (6, FG) # replicate 14 (0, UNDEF), 0)" by code_simp
  then obtain s where s: "run ?as initial = Some s" "pc s = Prompt"
    "map (\<lambda>j. (pid j, state j)) (jobs (shell s)) = (0, FG) # (6, FG) # replicate 14 (0, UNDEF)" "fgpid (jobs (shell s)) = 0" by auto
  from s(3) obtain j0 j1 js where j: "jobs (shell s) = j0 # j1 # js" "pid j0 = 0" "state j0 = FG" "pid j1 = 6" "state j1 = FG"
    "map (\<lambda>j. (pid j, state j)) js = replicate 14 (0, UNDEF)" by (auto simp: map_eq_Cons_conv)
  have "pid ` set js \<subseteq> {0}"
  proof
    fix x assume "x \<in> pid ` set js"
    then obtain y where "y \<in> set js" "x = pid y" by blast
    then have "(x, state y) \<in> set (map (\<lambda>j. (pid j, state j)) js)" by force
    then show "x \<in> {0}" unfolding j(6) by simp
  qed
  then have "pids (jobs (shell s)) = {6}" by (auto simp: pids_def j)
  then show ?thesis using reach_run [OF reach.start s(1)] s(2,4) j by (auto simp: sigint_handler_def)
qed

text \<open>C21: As long as the lines fit the parser and there are fewer children than slots when one is
  started, the shell never dereferences a null pointer.\<close>

theorem shell_never_crashes:
  assumes "reach modest s"
  shows "pc s \<noteq> Crashed"
  using reach_listed [OF assms] by (simp add: listed_def)

lemma shell_never_crashes_witness:
  "\<exists>s. run (background 5 @ [Child 5 (Signaled 9), Sigchld]) initial = Some s \<and> pc s \<noteq> Crashed"
proof -
  let ?as = "background 5 @ [Child 5 (Signaled 9), Sigchld]"
  have "run ?as initial \<noteq> None" by code_simp
  then obtain s where s: "run ?as initial = Some s" by blast
  have "keeps_to modest ?as initial" by code_simp
  from shell_never_crashes [OF reach_keeps_to [OF reach.start this s]] s show ?thesis by blast
qed

text \<open>With a seventeenth child it can: the child is not entered in the table, and the handler uses
  the null pointer that the search for it returns.\<close>

theorem full_table_crash: "\<exists>s. reach (\<lambda>a s. True) s \<and> pc s = Crashed \<and> length (kids s) = 17"
proof -
  let ?as = "concat (map background [1..17]) @ [Child 17 (Signaled 9), Sigchld]"
  have "map_option (\<lambda>s. (pc s, length (kids s))) (run ?as initial) = Some (Crashed, 17)" by code_simp
  then obtain s where "run ?as initial = Some s" "pc s = Crashed" "length (kids s) = 17" by auto
  then show ?thesis using reach_run [OF reach.start] by blast
qed

text \<open>Job ids repeat once one of them has exceeded the number of slots.\<close>

lemma twin_job_ids:
  "\<exists>s. reach (\<lambda>a s. True) s \<and> jid (jobs (shell s) ! 0) = jid (jobs (shell s) ! 5) \<and>
     pid (jobs (shell s) ! 0) = 1 \<and> pid (jobs (shell s) ! 5) = 18 \<and> jid (jobs (shell s) ! 4) = 17"
proof -
  let ?as = "concat (map background [1..16]) @ [Child 5 (Exited 0), Child 6 (Exited 0), Sigchld] @ background 17 @ background 18"
  let ?f = "\<lambda>s. (jid (jobs (shell s) ! 0), jid (jobs (shell s) ! 5), pid (jobs (shell s) ! 0), pid (jobs (shell s) ! 5), jid (jobs (shell s) ! 4))"
  have "map_option ?f (run ?as initial) = Some (1, 1, 1, 18, 17)" by code_simp
  then obtain s where "run ?as initial = Some s" "?f s = (1, 1, 1, 18, 17)" by auto
  then show ?thesis using reach_run [OF reach.start] by (intro exI [of _ s]) auto
qed

text \<open>C22: As long as the lines fit the parser and there are fewer children than slots when one is
  started, the shell returns from a wait: once the kernel has reported that the job the shell waits for
  has ended or stopped, the next \<open>SIGCHLD\<close> and the next round of the loop of \<open>waitfg\<close> bring it back to
  its prompt.\<close>

theorem wait_ends:
  assumes "reach modest s" "pc s = Waiting p" "(p, st) \<in> set (reports s)" "st \<noteq> Continued"
  shows "\<exists>s'. run [Sigchld, Main] s = Some s' \<and> pc s' = Prompt"
proof -
  have b: "books s" by (rule reach_books [OF assms(1)])
  have ok: "table_ok (jobs (shell s))" "\<forall>r \<in> set (reports s). 1 \<le> fst r" using b by (auto simp: books_def)
  have "\<And>p bg line. pc s \<noteq> Forked p bg line" by (simp add: assms(2))
  then obtain t where t: "sigchld_handler (reports s) (shell s) = Some t"
    using listed_handler [OF b reach_listed [OF assms(1)]] by blast
  have "table_ok (jobs t)" using sigchld_handler_spec [OF ok t] by simp
  moreover have "\<forall>j \<in> set (jobs t). pid j = p \<longrightarrow> state j \<noteq> FG" using handler_not_FG [OF t ok assms(3,4)] by simp
  moreover have "1 \<le> p" using ok(2) assms(3) by force
  ultimately have "p \<noteq> fgpid (jobs t)" using fgpid_table [of "jobs t"] by auto
  then show ?thesis using assms(2) t by (simp add: main_step_def)
qed

lemma wait_ends_witness:
  "\<exists>s s'. run [Line ''a\<newline>'' 5 0, Main, Child 5 (Exited 1)] initial = Some s \<and> pc s = Waiting 5 \<and>
     run [Sigchld, Main] s = Some s' \<and> pc s' = Prompt"
proof -
  let ?as = "[Line ''a\<newline>'' 5 0, Main, Child 5 (Exited 1)]"
  have "map_option (\<lambda>s. (pc s, reports s)) (run ?as initial) = Some (Waiting 5, [(5, Exited 1)])" by code_simp
  then obtain s where s: "run ?as initial = Some s" "pc s = Waiting 5" "reports s = [(5, Exited 1)]" by auto
  have "keeps_to modest ?as initial" by code_simp
  from wait_ends [OF reach_keeps_to [OF reach.start this s(1)] s(2), of "Exited 1"] s show ?thesis by auto
qed

end
