(* ===== verification/Sbuf.thy ===== *)
theory Sbuf
  imports Prelude "HOL-Library.Signed_Division" "HOL-Library.Sublist"
begin

text \<open>
  The bounded buffer \<open>sbuf.c\<close> through which the threads of the proxy (\<open>proxylab\<close>) pass connections,
  under any number of threads. The bodies of \<open>sbuf_insert\<close> and \<open>sbuf_remove\<close> are lists of the
  statements between which another thread can run; a step lets one thread execute its next
  statement, and \<open>P\<close> can only be executed when the semaphore is positive. \<open>inserted\<close> and \<open>removed\<close>
  record the items in the order in which they were stored and read.
\<close>

section \<open>State and operations\<close>

datatype sem = Mutex | Slots | Items

record sbuf_t =
  buf :: "c_int list"
  n :: int
  front :: c_int
  rear :: c_int
  mutex :: int
  slots :: int
  items :: int

definition sbuf_init :: "int \<Rightarrow> sbuf_t" where
  "sbuf_init k = \<lparr>buf = replicate (nat k) 0, n = k, front = 0, rear = 0, mutex = 1, slots = k, items = 0\<rparr>"

fun sem_get :: "sem \<Rightarrow> sbuf_t \<Rightarrow> int" where
  "sem_get Mutex sp = mutex sp"
| "sem_get Slots sp = slots sp"
| "sem_get Items sp = items sp"

fun sem_add :: "sem \<Rightarrow> int \<Rightarrow> sbuf_t \<Rightarrow> sbuf_t" where
  "sem_add Mutex k sp = sp\<lparr>mutex := mutex sp + k\<rparr>"
| "sem_add Slots k sp = sp\<lparr>slots := slots sp + k\<rparr>"
| "sem_add Items k sp = sp\<lparr>items := items sp + k\<rparr>"

text \<open>
  The statement \<open>buf[(++rear) % n] = item\<close> is the increment and the store, \<open>item = buf[(++front) % n]\<close>
  the increment and the load.
\<close>

datatype stmt = P sem | V sem | Incr_rear | Store c_int | Incr_front | Load

definition sbuf_insert :: "c_int \<Rightarrow> stmt list" where
  "sbuf_insert item = [P Slots, P Mutex, Incr_rear, Store item, V Mutex, V Items]"

definition sbuf_remove :: "stmt list" where
  "sbuf_remove = [P Items, P Mutex, Incr_front, Load, V Mutex, V Slots]"

text \<open>C's remainder has the sign of the dividend: an index can be negative and is then outside.\<close>

definition slot :: "c_int \<Rightarrow> sbuf_t \<Rightarrow> nat option" where
  "slot i sp =
     (let k = sint i smod n sp in if 0 \<le> k \<and> k < int (length (buf sp)) then Some (nat k) else None)"

record sb_sys =
  sp :: sbuf_t
  threads :: "stmt list list"
  inserted :: "c_int list"
  removed :: "c_int list"

datatype sb_outcome = Blocked | Fault | Next sb_sys

definition sb_exec :: "stmt \<Rightarrow> sb_sys \<Rightarrow> sb_outcome" where
  "sb_exec st s =
     (case st of
        P x \<Rightarrow> if sem_get x (sp s) > 0 then Next (s\<lparr>sp := sem_add x (- 1) (sp s)\<rparr>) else Blocked
      | V x \<Rightarrow> Next (s\<lparr>sp := sem_add x 1 (sp s)\<rparr>)
      | Incr_rear \<Rightarrow> Next (s\<lparr>sp := (sp s)\<lparr>rear := rear (sp s) + 1\<rparr>\<rparr>)
      | Incr_front \<Rightarrow> Next (s\<lparr>sp := (sp s)\<lparr>front := front (sp s) + 1\<rparr>\<rparr>)
      | Store item \<Rightarrow>
          (case slot (rear (sp s)) (sp s) of
             None \<Rightarrow> Fault
           | Some k \<Rightarrow> Next (s\<lparr>sp := (sp s)\<lparr>buf := (buf (sp s))[k := item]\<rparr>, inserted := inserted s @ [item]\<rparr>))
      | Load \<Rightarrow>
          (case slot (front (sp s)) (sp s) of
             None \<Rightarrow> Fault
           | Some k \<Rightarrow> Next (s\<lparr>removed := removed s @ [buf (sp s) ! k]\<rparr>)))"

text \<open>An idle thread calls an operation; a thread in an operation runs on.\<close>

datatype sb_action = Insert nat c_int | Remove nat | Run nat

fun sb_step :: "sb_action \<Rightarrow> sb_sys \<Rightarrow> sb_outcome" where
  "sb_step (Insert t item) s =
     (if t < length (threads s) \<and> threads s ! t = [] then Next (s\<lparr>threads := (threads s)[t := sbuf_insert item]\<rparr>) else Blocked)"
| "sb_step (Remove t) s =
     (if t < length (threads s) \<and> threads s ! t = [] then Next (s\<lparr>threads := (threads s)[t := sbuf_remove]\<rparr>) else Blocked)"
| "sb_step (Run t) s =
     (if t < length (threads s) then
        case threads s ! t of
          [] \<Rightarrow> Blocked
        | st # rest \<Rightarrow>
            (case sb_exec st s of Next s' \<Rightarrow> Next (s'\<lparr>threads := (threads s')[t := rest]\<rparr>) | x \<Rightarrow> x)
      else Blocked)"

definition sb_start :: "int \<Rightarrow> nat \<Rightarrow> sb_sys" where
  "sb_start k m = \<lparr>sp = sbuf_init k, threads = replicate m [], inserted = [], removed = []\<rparr>"

text \<open>
  The reachable states with fewer than \<open>2 ^ 31 - 1\<close> insertions, after which \<open>rear\<close> would overflow.
\<close>

inductive sb_reach :: "int \<Rightarrow> nat \<Rightarrow> sb_sys \<Rightarrow> bool" for k m where
  init: "sb_reach k m (sb_start k m)"
| act: "sb_reach k m s \<Longrightarrow> sb_step a s = Next s' \<Longrightarrow> length (inserted s') < 2 ^ 31 - 1 \<Longrightarrow> sb_reach k m s'"

text \<open>A schedule of actions, as long as each can be executed.\<close>

fun sb_run :: "sb_action list \<Rightarrow> sb_sys \<Rightarrow> sb_sys option" where
  "sb_run [] s = Some s"
| "sb_run (a # as) s = (case sb_step a s of Next s' \<Rightarrow> sb_run as s' | _ \<Rightarrow> None)"

lemma step_inserted: "sb_step a s = Next s' \<Longrightarrow> length (inserted s') \<le> length (inserted s) + 1"
  by (cases a) (auto simp: sb_exec_def split: if_splits list.splits stmt.splits option.splits)

lemma run_reach:
  "sb_run as s = Some s' \<Longrightarrow> sb_reach k m s \<Longrightarrow> length (inserted s) + length as < 2 ^ 31 - 1 \<Longrightarrow> sb_reach k m s'"
proof (induction as arbitrary: s)
  case (Cons a as)
  then obtain s1 where s1: "sb_step a s = Next s1" "sb_run as s1 = Some s'" by (auto split: sb_outcome.splits)
  have "length (inserted s1) + length as < 2 ^ 31 - 1" using step_inserted [OF s1(1)] Cons.prems(3) by simp
  moreover from this have "sb_reach k m s1" by (intro sb_reach.act [OF Cons.prems(2) s1(1)]) simp
  ultimately show ?case using Cons.IH [OF s1(2)] by blast
qed simp

text \<open>
  A schedule for the buffer of the proxy, its main thread 0 and four workers: a worker waits before
  the main thread passes on the connection 7, and one has been taken when the other is in flight.
\<close>

definition sched :: "sb_action list" where
  "sched = Remove 1 # Insert 0 7 # replicate 6 (Run 0) @ Insert 0 8 # replicate 4 (Run 1) @ [Run 0]"

definition sched_end :: sb_sys where
  "sched_end = the (sb_run sched (sb_start 16 5))"

lemma sched_reach: "sb_reach 16 5 sched_end"
proof -
  have "sb_run sched (sb_start 16 5) = Some sched_end" unfolding sched_end_def by code_simp
  then show ?thesis by (rule run_reach) (auto simp: sb_start_def sched_def intro: sb_reach.init [unfolded sb_start_def])
qed

section \<open>Where the threads are\<close>

text \<open>
  The phases of an operation, read off the statements left: inside the critical section; an insertion
  that has taken a slot and not stored, one that has stored and not announced; the same for removals;
  between the increment and the access.
\<close>

definition is_store :: "stmt \<Rightarrow> bool" where
  "is_store st = (case st of Store x \<Rightarrow> True | _ \<Rightarrow> False)"

definition inside :: "stmt list \<Rightarrow> bool" where
  "inside c = (V Mutex \<in> set c \<and> P Mutex \<notin> set c)"
definition taking :: "stmt list \<Rightarrow> bool" where
  "taking c = (list_ex is_store c \<and> P Slots \<notin> set c)"
definition stored :: "stmt list \<Rightarrow> bool" where
  "stored c = (V Items \<in> set c \<and> \<not> list_ex is_store c)"
definition fetching :: "stmt list \<Rightarrow> bool" where
  "fetching c = (Load \<in> set c \<and> P Items \<notin> set c)"
definition fetched :: "stmt list \<Rightarrow> bool" where
  "fetched c = (V Slots \<in> set c \<and> Load \<notin> set c)"
definition mid_insert :: "stmt list \<Rightarrow> bool" where
  "mid_insert c = (list_ex is_store c \<and> Incr_rear \<notin> set c)"
definition mid_remove :: "stmt list \<Rightarrow> bool" where
  "mid_remove c = (Load \<in> set c \<and> Incr_front \<notin> set c)"

lemmas phase_defs = inside_def taking_def stored_def fetching_def fetched_def mid_insert_def mid_remove_def is_store_def

definition code_ok :: "stmt list \<Rightarrow> bool" where
  "code_ok c \<longleftrightarrow> (\<exists>item. suffix c (sbuf_insert item)) \<or> suffix c sbuf_remove"

text \<open>How many threads are in a phase.\<close>

definition number :: "(stmt list \<Rightarrow> bool) \<Rightarrow> sb_sys \<Rightarrow> int" where
  "number ph s = sum_list (map (\<lambda>c. of_bool (ph c)) (threads s))"

lemma sum_list_replace: "t < length xs \<Longrightarrow> sum_list (map f (xs[t := x])) = sum_list (map f xs) - f (xs ! t) + f x"
  for f :: "'a \<Rightarrow> int"
  by (induction xs arbitrary: t) (auto split: nat.splits)

lemma sum_list_member: "t < length xs \<Longrightarrow> (\<And>x. 0 \<le> f x) \<Longrightarrow> f (xs ! t) \<le> sum_list (map f xs)"
  for f :: "'a \<Rightarrow> int"
proof (induction xs arbitrary: t)
  case (Cons y ys)
  have "0 \<le> sum_list (map f ys)" using Cons.prems(2) by (auto intro!: sum_list_nonneg)
  then show ?case using Cons.IH [OF _ Cons.prems(2)] Cons.prems by (cases t) (auto intro: order_trans [OF _ add_increasing])
qed simp

lemma number_update:
  "t < length (threads s) \<Longrightarrow> threads s' = (threads s)[t := c] \<Longrightarrow>
     number ph s' = number ph s - of_bool (ph (threads s ! t)) + of_bool (ph c)"
  by (simp add: number_def sum_list_replace)

lemma number_nonneg [simp]: "0 \<le> number ph s"
  by (auto simp: number_def intro!: sum_list_nonneg)

lemma number_mono: "(\<And>c. c \<in> set (threads s) \<Longrightarrow> ph c \<Longrightarrow> ph' c) \<Longrightarrow> number ph s \<le> number ph' s"
  unfolding number_def by (rule sum_list_mono) (auto simp: of_bool_def)

lemma number_pos: "t < length (threads s) \<Longrightarrow> ph (threads s ! t) \<Longrightarrow> 1 \<le> number ph s"
  using sum_list_member [of t "threads s" "\<lambda>c. of_bool (ph c)"] by (simp add: number_def)

lemma code_ok_iff:
  "code_ok c \<longleftrightarrow> c = [] \<or> c = [V Items] \<or> c = [V Mutex, V Items] \<or> c = [V Slots] \<or> c = [V Mutex, V Slots] \<or>
     c = [Load, V Mutex, V Slots] \<or> c = [Incr_front, Load, V Mutex, V Slots] \<or>
     c = [P Mutex, Incr_front, Load, V Mutex, V Slots] \<or> c = sbuf_remove \<or>
     (\<exists>x. c = [Store x, V Mutex, V Items]) \<or> (\<exists>x. c = [Incr_rear, Store x, V Mutex, V Items]) \<or>
     (\<exists>x. c = [P Mutex, Incr_rear, Store x, V Mutex, V Items]) \<or> (\<exists>x. c = sbuf_insert x)"
  unfolding code_ok_def sbuf_insert_def sbuf_remove_def suffix_Cons suffix_Nil
  by (rule iffI; elim disjE exE; simp)

section \<open>The invariant\<close>

definition load_size :: "sb_sys \<Rightarrow> int" where
  "load_size s = int (length (inserted s)) - int (length (removed s))"

definition sb_inv :: "int \<Rightarrow> sb_sys \<Rightarrow> bool" where
  "sb_inv k s \<longleftrightarrow> (\<forall>c \<in> set (threads s). code_ok c) \<and>
     n (sp s) = k \<and> int (length (buf (sp s))) = k \<and>
     mutex (sp s) \<ge> 0 \<and> slots (sp s) \<ge> 0 \<and> items (sp s) \<ge> 0 \<and>
     mutex (sp s) + number inside s = 1 \<and>
     slots (sp s) + load_size s + number taking s + number fetched s = k \<and>
     items (sp s) + number stored s + number fetching s = load_size s \<and>
     length (inserted s) < 2 ^ 31 - 1 \<and>
     rear (sp s) = word_of_int (int (length (inserted s)) + number mid_insert s) \<and>
     front (sp s) = word_of_int (int (length (removed s)) + number mid_remove s) \<and>
     removed s = take (length (removed s)) (inserted s) \<and>
     (\<forall>i. length (removed s) \<le> i \<and> i < length (inserted s) \<longrightarrow> buf (sp s) ! nat ((int i + 1) mod k) = inserted s ! i)"

lemma inv_start: "0 < k \<Longrightarrow> sb_inv k (sb_start k m)"
  by (auto simp: sb_inv_def sb_start_def sbuf_init_def number_def phase_defs load_size_def code_ok_iff sum_list_replicate)

text \<open>What the phases of its threads say of a state.\<close>

lemma critical:
  assumes "sb_inv k s" "t < length (threads s)" "inside (threads s ! t)"
  shows "number inside s = 1" "number mid_insert s \<le> 1" "number mid_remove s \<le> 1"
proof -
  show 1: "number inside s = 1" using assms(1) number_pos [of t s inside, OF assms(2,3)] by (simp add: sb_inv_def)
  have ok: "\<forall>c \<in> set (threads s). code_ok c" using assms(1) by (simp add: sb_inv_def)
  have "mid_insert c \<longrightarrow> inside c" "mid_remove c \<longrightarrow> inside c" if "code_ok c" for c
    using that unfolding code_ok_iff sbuf_insert_def sbuf_remove_def
    by (elim disjE exE; simp add: phase_defs)+
  then show "number mid_insert s \<le> 1" "number mid_remove s \<le> 1"
    using number_mono [of s mid_insert inside] number_mono [of s mid_remove inside] ok 1 by force+
qed

text \<open>A thread at a position of its code and the state after its statement.\<close>

lemma code_ok_tl: "code_ok (st # rest) \<Longrightarrow> code_ok rest"
  unfolding code_ok_def by (auto dest: suffix_ConsD)

lemma codes_update: "\<forall>c \<in> set cs. code_ok c \<Longrightarrow> code_ok rest \<Longrightarrow> \<forall>c \<in> set (cs[t := rest]). code_ok c"
  using set_update_subset_insert [of cs t rest] by auto

text \<open>A move of one thread that stores and reads nothing and changes the counters as its phase changes.\<close>

lemma inv_move:
  assumes i: "sb_inv k s" and t: "t < length (threads s)" and c: "code_ok c'" and th: "threads s' = (threads s)[t := c']"
    and same: "n (sp s') = n (sp s)" "buf (sp s') = buf (sp s)" "inserted s' = inserted s" "removed s' = removed s"
    and m: "mutex (sp s') = mutex (sp s) + of_bool (inside (threads s ! t)) - of_bool (inside c')" "0 \<le> mutex (sp s')"
    and sl: "slots (sp s') = slots (sp s) + of_bool (taking (threads s ! t)) - of_bool (taking c')
               + of_bool (fetched (threads s ! t)) - of_bool (fetched c')" "0 \<le> slots (sp s')"
    and it: "items (sp s') = items (sp s) + of_bool (stored (threads s ! t)) - of_bool (stored c')
               + of_bool (fetching (threads s ! t)) - of_bool (fetching c')" "0 \<le> items (sp s')"
    and r: "rear (sp s') = rear (sp s) + of_bool (mid_insert c') - of_bool (mid_insert (threads s ! t))"
    and f: "front (sp s') = front (sp s) + of_bool (mid_remove c') - of_bool (mid_remove (threads s ! t))"
  shows "sb_inv k s'"
proof -
  note N = number_update [OF t th]
  have codes: "\<forall>c \<in> set (threads s'). code_ok c"
    using i codes_update [of "threads s" c' t, OF _ c] unfolding th sb_inv_def by blast
  have L: "load_size s' = load_size s" by (simp add: load_size_def same)
  have "mutex (sp s') + number inside s' = 1" using i m(1) by (simp add: sb_inv_def N)
  moreover have "slots (sp s') + load_size s' + number taking s' + number fetched s' = k"
    using i sl(1) by (simp add: sb_inv_def N L)
  moreover have "items (sp s') + number stored s' + number fetching s' = load_size s'"
    using i it(1) by (simp add: sb_inv_def N L)
  moreover have "rear (sp s') = word_of_int (int (length (inserted s')) + number mid_insert s')"
    using i r by (simp add: sb_inv_def N same)
  moreover have "front (sp s') = word_of_int (int (length (removed s')) + number mid_remove s')"
    using i f by (simp add: sb_inv_def N same)
  ultimately show ?thesis using i codes m(2) sl(2) it(2) by (simp add: sb_inv_def same)
qed

lemma inv_sem:
  assumes i: "sb_inv k s" and t: "t < length (threads s)" "threads s ! t = st # rest"
    and st: "st \<in> range P \<union> range V \<union> {Incr_rear, Incr_front}" and e: "sb_exec st s = Next s1"
  shows "sb_inv k (s1\<lparr>threads := (threads s1)[t := rest]\<rparr>)"
proof -
  have ok: "code_ok (st # rest)" using i t nth_mem [OF t(1)] by (simp add: sb_inv_def)
  have nn: "0 \<le> mutex (sp s)" "0 \<le> slots (sp s)" "0 \<le> items (sp s)" using i by (simp_all add: sb_inv_def)
  show ?thesis
    using ok st e unfolding code_ok_iff sbuf_insert_def sbuf_remove_def
    by (elim disjE exE; (simp; fail)?; intro inv_move [OF i t(1) code_ok_tl [OF ok]];
        use nn in \<open>force simp: t(2) sb_exec_def phase_defs split: if_splits\<close>)
qed

text \<open>The statements that use the array.\<close>

lemma counts:
  assumes "sb_inv k s"
  shows "0 \<le> load_size s" "load_size s + number taking s \<le> k" "number fetching s \<le> load_size s"
proof -
  have "0 \<le> slots (sp s)" "0 \<le> items (sp s)" "slots (sp s) + load_size s + number taking s + number fetched s = k"
    "items (sp s) + number stored s + number fetching s = load_size s"
    using assms by (simp_all add: sb_inv_def)
  then show "0 \<le> load_size s" "load_size s + number taking s \<le> k" "number fetching s \<le> load_size s"
    using number_nonneg [of stored s] number_nonneg [of fetching s] number_nonneg [of fetched s] by linarith+
qed

lemma slot_word:
  assumes "0 < k" "n u = k" "int (length (buf u)) = k" "m < 2 ^ 31"
  shows "slot (word_of_int (int m)) u = Some (nat (int m mod k))"
proof -
  have "sint (word_of_int (int m) :: c_int) = int m"
    using assms(4) by (intro sint_wrap) simp_all
  then show ?thesis using assms by (simp add: slot_def smod_mod_positive Let_def)
qed

lemma mod_distinct:
  assumes "i < j" "j < i + k" shows "i mod k \<noteq> j mod (k :: int)"
proof
  assume "i mod k = j mod k"
  then have "k dvd j - i" by (metis mod_eq_dvd_iff)
  then show False using assms zdvd_imp_le [of k "j - i"] by simp
qed

text \<open>The store: the slot it writes holds no item that is still to be read.\<close>

lemma inv_store:
  assumes k: "0 < k" and i: "sb_inv k s" and t: "t < length (threads s)" "threads s ! t = Store x # rest"
    and r: "rest = [V Mutex, V Items]"
  defines "s' \<equiv> s\<lparr>sp := (sp s)\<lparr>buf := (buf (sp s))[nat ((int (length (inserted s)) + 1) mod k) := x]\<rparr>,
              inserted := inserted s @ [x], threads := (threads s)[t := rest]\<rparr>"
  shows "sb_step (Run t) s = Next s'" "length (inserted s') < 2 ^ 31 - 1 \<Longrightarrow> sb_inv k s'"
proof -
  have ph: "inside (threads s ! t)" "mid_insert (threads s ! t)" "taking (threads s ! t)"
    using t(2) r by (simp_all add: phase_defs)
  have "number mid_insert s = 1"
    using critical(2) [OF i t(1) ph(1)] number_pos [OF t(1), of mid_insert] ph(2) by simp
  then have rear: "rear (sp s) = word_of_int (int (length (inserted s) + 1))" using i by (simp add: sb_inv_def)
  have d: "n (sp s) = k" "int (length (buf (sp s))) = k" "length (inserted s) < 2 ^ 31 - 1"
    using i by (simp_all add: sb_inv_def)
  have "slot (rear (sp s)) (sp s) = Some (nat ((int (length (inserted s)) + 1) mod k))"
    using slot_word [OF k d(1,2), of "length (inserted s) + 1"] d(3) unfolding rear by (simp add: algebra_simps)
  then show "sb_step (Run t) s = Next s'" using t by (simp add: sb_exec_def s'_def)
  have N: "number ph s' = number ph s - of_bool (ph (threads s ! t)) + of_bool (ph rest)" for ph
    by (rule number_update [OF t(1)]) (simp add: s'_def)
  have L: "load_size s' = load_size s + 1" by (simp add: load_size_def s'_def)
  have room: "int (length (inserted s)) < int (length (removed s)) + k" "length (removed s) \<le> length (inserted s)"
    using counts [OF i] number_pos [OF t(1), of taking] ph(3) by (simp_all add: load_size_def)
  have codes: "\<forall>c \<in> set (threads s'). code_ok c"
    using i codes_update [of "threads s" rest t] r unfolding s'_def sb_inv_def by (simp add: code_ok_iff)
  have fifo: "buf (sp s') ! nat ((int j + 1) mod k) = inserted s' ! j"
    if j: "length (removed s) \<le> j" "j < length (inserted s')" for j
  proof (cases "j = length (inserted s)")
    case True
    have "nat ((int j + 1) mod k) < length (buf (sp s))" using d(2) k by (simp add: nat_less_iff)
    then show ?thesis using True by (simp add: s'_def)
  next
    case False
    with j have "j < length (inserted s)" by (simp add: s'_def)
    moreover have "(int j + 1) mod k \<noteq> (int (length (inserted s)) + 1) mod k"
      using room(1) j(1) \<open>j < length (inserted s)\<close> by (intro mod_distinct) simp_all
    then have "nat ((int j + 1) mod k) \<noteq> nat ((int (length (inserted s)) + 1) mod k)"
      using k by (simp add: nat_eq_iff)
    moreover have "buf (sp s) ! nat ((int j + 1) mod k) = inserted s ! j"
      using i j(1) \<open>j < length (inserted s)\<close> by (simp add: sb_inv_def)
    ultimately show ?thesis by (simp add: s'_def nth_append)
  qed
  have base: "n (sp s') = k" "int (length (buf (sp s'))) = k" "mutex (sp s') + number inside s' = 1"
    "slots (sp s') + load_size s' + number taking s' + number fetched s' = k"
    "items (sp s') + number stored s' + number fetching s' = load_size s'"
    "0 \<le> mutex (sp s')" "0 \<le> slots (sp s')" "0 \<le> items (sp s')"
    using i unfolding N L by (simp_all add: sb_inv_def s'_def t(2) r phase_defs)
  moreover have "front (sp s') = word_of_int (int (length (removed s')) + number mid_remove s')"
    using i unfolding N by (simp add: sb_inv_def s'_def t(2) r phase_defs)
  moreover have "rear (sp s') = word_of_int (int (length (inserted s')) + number mid_insert s')"
    using rear \<open>number mid_insert s = 1\<close> unfolding N by (simp add: s'_def t(2) r phase_defs)
  moreover have "removed s' = take (length (removed s')) (inserted s')"
    using i room(2) by (simp add: sb_inv_def s'_def)
  moreover have "removed s' = removed s" by (simp add: s'_def)
  ultimately show "sb_inv k s'" if "length (inserted s') < 2 ^ 31 - 1" using that unfolding sb_inv_def using codes fifo by simp
qed

text \<open>The load: the slot it reads holds the next item.\<close>

lemma inv_load:
  assumes k: "0 < k" and i: "sb_inv k s" and t: "t < length (threads s)" "threads s ! t = Load # rest"
    and r: "rest = [V Mutex, V Slots]"
  defines "s' \<equiv> s\<lparr>removed := removed s @ [inserted s ! length (removed s)], threads := (threads s)[t := rest]\<rparr>"
  shows "sb_step (Run t) s = Next s'" "sb_inv k s'" "length (removed s) < length (inserted s)"
proof -
  have ph: "inside (threads s ! t)" "mid_remove (threads s ! t)" "fetching (threads s ! t)"
    using t(2) r by (simp_all add: phase_defs)
  have "number mid_remove s = 1"
    using critical(3) [OF i t(1) ph(1)] number_pos [OF t(1), of mid_remove] ph(2) by simp
  then have front: "front (sp s) = word_of_int (int (length (removed s) + 1))" using i by (simp add: sb_inv_def)
  have d: "n (sp s) = k" "int (length (buf (sp s))) = k" "length (inserted s) < 2 ^ 31 - 1"
    "removed s = take (length (removed s)) (inserted s)"
    using i by (simp_all add: sb_inv_def)
  show room: "length (removed s) < length (inserted s)"
    using counts [OF i] number_pos [OF t(1), of fetching] ph(3) by (simp add: load_size_def)
  have "slot (front (sp s)) (sp s) = Some (nat ((int (length (removed s)) + 1) mod k))"
    using slot_word [OF k d(1,2), of "length (removed s) + 1"] d(3) room unfolding front by (simp add: algebra_simps)
  moreover have "buf (sp s) ! nat ((int (length (removed s)) + 1) mod k) = inserted s ! length (removed s)"
    using i room by (simp add: sb_inv_def)
  ultimately show "sb_step (Run t) s = Next s'" using t by (simp add: sb_exec_def s'_def)
  have N: "number ph s' = number ph s - of_bool (ph (threads s ! t)) + of_bool (ph rest)" for ph
    by (rule number_update [OF t(1)]) (simp add: s'_def)
  have L: "load_size s' = load_size s - 1" by (simp add: load_size_def s'_def)
  have codes: "\<forall>c \<in> set (threads s'). code_ok c"
    using i codes_update [of "threads s" rest t] r unfolding s'_def sb_inv_def by (simp add: code_ok_iff)
  have base: "n (sp s') = k" "int (length (buf (sp s'))) = k" "mutex (sp s') + number inside s' = 1"
    "slots (sp s') + load_size s' + number taking s' + number fetched s' = k"
    "items (sp s') + number stored s' + number fetching s' = load_size s'"
    "0 \<le> mutex (sp s')" "0 \<le> slots (sp s')" "0 \<le> items (sp s')"
    using i unfolding N L by (simp_all add: sb_inv_def s'_def t(2) r phase_defs)
  moreover have "rear (sp s') = word_of_int (int (length (inserted s')) + number mid_insert s')"
    using i unfolding N by (simp add: sb_inv_def s'_def t(2) r phase_defs)
  moreover have "front (sp s') = word_of_int (int (length (removed s')) + number mid_remove s')"
    using front \<open>number mid_remove s = 1\<close> unfolding N by (simp add: s'_def t(2) r phase_defs)
  moreover have "removed s' = take (length (removed s')) (inserted s')"
    using d(4) room by (simp add: s'_def take_Suc_conv_app_nth)
  moreover have "length (inserted s') < 2 ^ 31 - 1" using d(3) by (simp add: s'_def)
  moreover have "buf (sp s') ! nat ((int j + 1) mod k) = inserted s' ! j"
    if "length (removed s') \<le> j" "j < length (inserted s')" for j
    using i that by (simp add: sb_inv_def s'_def)
  ultimately show "sb_inv k s'" unfolding sb_inv_def using codes by simp
qed

text \<open>The head of a thread's code decides what follows it.\<close>

lemma code_ok_access:
  "code_ok (Store x # rest) \<Longrightarrow> rest = [V Mutex, V Items]" "code_ok (Load # rest) \<Longrightarrow> rest = [V Mutex, V Slots]"
  unfolding code_ok_iff sbuf_insert_def sbuf_remove_def by (elim disjE exE; simp)+

lemma stmt_cases:
  obtains x where "st = Store x" | "st = Load" | "st \<in> range P \<union> range V \<union> {Incr_rear, Incr_front}"
  by (cases st) auto

lemma inv_step:
  assumes k: "0 < k" and i: "sb_inv k s" and e: "sb_step a s = Next s'" and l: "length (inserted s') < 2 ^ 31 - 1"
  shows "sb_inv k s'"
proof (cases a)
  case (Insert t x)
  with e have t: "t < length (threads s)" "threads s ! t = []" and s': "s' = s\<lparr>threads := (threads s)[t := sbuf_insert x]\<rparr>"
    by (simp_all split: if_splits)
  have nn: "0 \<le> mutex (sp s)" "0 \<le> slots (sp s)" "0 \<le> items (sp s)" using i by (simp_all add: sb_inv_def)
  show ?thesis unfolding s'
    by (rule inv_move [OF i t(1), of "sbuf_insert x"]) (simp_all add: code_ok_iff nn t(2) phase_defs sbuf_insert_def)
next
  case (Remove t)
  with e have t: "t < length (threads s)" "threads s ! t = []" and s': "s' = s\<lparr>threads := (threads s)[t := sbuf_remove]\<rparr>"
    by (simp_all split: if_splits)
  have nn: "0 \<le> mutex (sp s)" "0 \<le> slots (sp s)" "0 \<le> items (sp s)" using i by (simp_all add: sb_inv_def)
  show ?thesis unfolding s'
    by (rule inv_move [OF i t(1), of sbuf_remove]) (simp_all add: code_ok_iff nn t(2) phase_defs sbuf_remove_def)
next
  case (Run t)
  with e obtain st rest where t: "t < length (threads s)" "threads s ! t = st # rest"
    by (cases "threads s ! t") (simp_all split: if_splits)
  have ok: "code_ok (st # rest)" using i t nth_mem [OF t(1)] by (simp add: sb_inv_def)
  show ?thesis
  proof (cases rule: stmt_cases [of st])
    case (1 x)
    note c = inv_store [OF k i t(1) t(2) [unfolded 1] code_ok_access(1) [OF ok [unfolded 1]]]
    show ?thesis using c(2) l sb_outcome.inject [THEN iffD1, OF trans [OF e [unfolded Run, symmetric] c(1)]] by simp
  next
    case 2
    note c = inv_load [OF k i t(1) t(2) [unfolded 2] code_ok_access(2) [OF ok [unfolded 2]]]
    show ?thesis using c(2) sb_outcome.inject [THEN iffD1, OF trans [OF e [unfolded Run, symmetric] c(1)]] by simp
  next
    case 3
    with e t Run obtain s1 where "sb_exec st s = Next s1" "s' = s1\<lparr>threads := (threads s1)[t := rest]\<rparr>"
      by (simp split: sb_outcome.splits)
    then show ?thesis using inv_sem [OF i t 3] by simp
  qed
qed

lemma reach_inv: "sb_reach k m s \<Longrightarrow> 0 < k \<Longrightarrow> sb_inv k s"
  by (induction rule: sb_reach.induct) (auto intro: inv_start inv_step)

lemma no_fault:
  assumes k: "0 < k" and i: "sb_inv k s"
  shows "sb_step a s \<noteq> Fault"
proof (cases a)
  case (Run t)
  show ?thesis
  proof (cases "t < length (threads s) \<and> threads s ! t \<noteq> []")
    case True
    then obtain st rest where t: "t < length (threads s)" "threads s ! t = st # rest" by (auto simp: neq_Nil_conv)
    have ok: "code_ok (st # rest)" using i t nth_mem [OF t(1)] by (simp add: sb_inv_def)
    show ?thesis
    proof (cases rule: stmt_cases [of st])
      case (1 x)
      show ?thesis using inv_store(1) [OF k i t(1) _ code_ok_access(1)] t(2) 1 ok Run by simp
    next
      case 2
      show ?thesis using inv_load(1) [OF k i t(1) _ code_ok_access(2)] t(2) 2 ok Run by simp
    next
      case 3
      then show ?thesis using t Run by (auto simp: sb_exec_def split: if_splits sb_outcome.splits)
    qed
  qed (use Run in \<open>auto\<close>)
qed simp_all

text \<open>C25: However many threads use the buffer and however they interleave, no access leaves the array, at
  most one thread is in the critical section, the buffer never holds more than its \<open>n\<close> items, and
  \<open>sbuf_remove\<close> returns the items in the order in which \<open>sbuf_insert\<close> stored them, none lost, none
  twice. This holds for fewer than \<open>2 ^ 31 - 1\<close> insertions, which overflow \<open>rear\<close>.\<close>

theorem sbuf_fifo:
  assumes "sb_reach k m s" "0 < k"
  shows "(\<forall>a. sb_step a s \<noteq> Fault) \<and> number inside s \<le> 1 \<and> prefix (removed s) (inserted s) \<and>
         int (length (inserted s)) \<le> int (length (removed s)) + k"
proof -
  have i: "sb_inv k s" by (rule reach_inv [OF assms])
  then have "mutex (sp s) + number inside s = 1" "0 \<le> mutex (sp s)" "removed s = take (length (removed s)) (inserted s)"
    by (simp_all add: sb_inv_def)
  moreover have "load_size s \<le> k" using counts(2) [OF i] number_nonneg [of taking s] by linarith
  moreover have "prefix (removed s) (inserted s)" using calculation(3) take_is_prefix by metis
  ultimately show ?thesis using no_fault [OF assms(2) i] by (simp add: load_size_def)
qed

lemma sbuf_fifo_witness:
  "inserted sched_end = [7] \<and> removed sched_end = [7] \<and>
   (\<forall>a. sb_step a sched_end \<noteq> Fault) \<and> number inside sched_end \<le> 1 \<and> prefix (removed sched_end) (inserted sched_end) \<and>
   int (length (inserted sched_end)) \<le> int (length (removed sched_end)) + 16"
proof -
  have "inserted sched_end = [7]" "removed sched_end = [7]" by code_simp+
  then show ?thesis using sbuf_fifo [OF sched_reach] by simp
qed

section \<open>Progress\<close>

lemma not_blocked:
  assumes t: "t < length (threads s)" "threads s ! t = st # rest" and b: "sb_step (Run t) s = Blocked"
  obtains x where "st = P x" "sem_get x (sp s) \<le> 0"
  using assms by (cases st) (auto simp: sb_exec_def split: if_splits option.splits)

lemma number_zero: "(\<And>c. c \<in> set (threads s) \<Longrightarrow> \<not> ph c) \<Longrightarrow> number ph s = 0"
  using number_mono [of s ph "\<lambda>_. False"] number_nonneg [of ph s] by (force simp: number_def)

lemma inside_head:
  assumes "code_ok c" "inside c" obtains st rest where "c = st # rest" "st \<notin> range P"
  using assms unfolding code_ok_iff sbuf_insert_def sbuf_remove_def
  by (elim disjE exE; simp add: phase_defs image_iff)

text \<open>The threads that wait before the critical section are in none of the phases.\<close>

lemma waiting_counts:
  assumes "sb_inv k s" "\<forall>c \<in> set (threads s). c = [] \<or> c = sbuf_remove \<or> (\<exists>x. c = sbuf_insert x)"
  shows "slots (sp s) + load_size s = k" "items (sp s) = load_size s"
proof -
  have "\<not> taking c \<and> \<not> fetched c \<and> \<not> stored c \<and> \<not> fetching c" if "c \<in> set (threads s)" for c
    using bspec [OF assms(2) that] unfolding sbuf_insert_def sbuf_remove_def
    by (elim disjE exE; simp add: phase_defs)
  then have "number taking s = 0" "number fetched s = 0" "number stored s = 0" "number fetching s = 0"
    by (simp_all add: number_zero)
  then show "slots (sp s) + load_size s = k" "items (sp s) = load_size s" using assms(1) by (simp_all add: sb_inv_def)
qed

lemma mutex_free:
  assumes i: "sb_inv k s" and b: "\<forall>t. sb_step (Run t) s = Blocked"
  shows "0 < mutex (sp s)"
proof (rule ccontr)
  assume "\<not> 0 < mutex (sp s)"
  moreover have "0 \<le> mutex (sp s)" "mutex (sp s) + number inside s = 1" using i by (simp_all add: sb_inv_def)
  ultimately have "number inside s = 1" by linarith
  then obtain c where "c \<in> set (threads s)" "inside c" using number_zero [of s inside] by fastforce
  then obtain t where t: "t < length (threads s)" "threads s ! t = c" "code_ok c"
    using i by (auto simp: in_set_conv_nth sb_inv_def)
  obtain st rest where "c = st # rest" "st \<notin> range P" by (rule inside_head [OF t(3) \<open>inside c\<close>])
  then show False using not_blocked [OF t(1) _ spec [OF b]] t(2) by blast
qed

text \<open>The first statement of a thread that is not in the critical section is a \<open>P\<close>.\<close>

lemma head_P:
  assumes "code_ok (P x # rest)"
  shows "x = Mutex \<or> x = Items \<and> P x # rest = sbuf_remove \<or> x = Slots \<and> (\<exists>i. P x # rest = sbuf_insert i)"
  using assms unfolding code_ok_iff sbuf_insert_def sbuf_remove_def by (elim disjE exE; simp)

text \<open>C26: No deadlock: no thread can run exactly when every thread is idle, or waits to remove from the
  empty buffer, or waits to insert into the full one. So while an inserting and a removing thread
  are both under way one of them can run.
\<close>

theorem sbuf_progress:
  assumes "sb_reach k m s" "0 < k"
  shows "(\<forall>t. sb_step (Run t) s = Blocked) \<longleftrightarrow>
         (\<forall>c \<in> set (threads s). c = [] \<or> c = sbuf_remove \<and> load_size s = 0 \<or> (\<exists>x. c = sbuf_insert x) \<and> load_size s = k)"
proof
  let ?stuck = "\<forall>t. sb_step (Run t) s = Blocked"
  let ?idle = "\<forall>c \<in> set (threads s). c = [] \<or> c = sbuf_remove \<and> load_size s = 0 \<or> (\<exists>x. c = sbuf_insert x) \<and> load_size s = k"
  have i: "sb_inv k s" by (rule reach_inv [OF assms])
  have nn: "0 \<le> slots (sp s)" "0 \<le> items (sp s)" using i by (simp_all add: sb_inv_def)
  show ?idle if b: ?stuck
  proof -
    have wait: "c = [] \<or> c = sbuf_remove \<and> items (sp s) \<le> 0 \<or> (\<exists>x. c = sbuf_insert x) \<and> slots (sp s) \<le> 0"
      if "c \<in> set (threads s)" for c
    proof (cases c)
      case (Cons st rest)
      with \<open>c \<in> set (threads s)\<close> obtain t where t: "t < length (threads s)" "threads s ! t = st # rest"
        by (auto simp: in_set_conv_nth)
      obtain x where x: "st = P x" "sem_get x (sp s) \<le> 0" by (rule not_blocked [OF t spec [OF b]])
      have "code_ok (P x # rest)" using i that Cons x(1) by (simp add: sb_inv_def)
      then show ?thesis using head_P [of x rest] x mutex_free [OF i b] Cons by auto
    qed simp
    then have "\<forall>c \<in> set (threads s). c = [] \<or> c = sbuf_remove \<or> (\<exists>x. c = sbuf_insert x)" by blast
    note waiting_counts [OF i this]
    then have "items (sp s) \<le> 0 \<Longrightarrow> load_size s = 0" "slots (sp s) \<le> 0 \<Longrightarrow> load_size s = k" using nn by simp_all
    then show ?idle using wait by blast
  qed
  show ?stuck if w: ?idle
  proof
    fix t
    from w have "\<forall>c \<in> set (threads s). c = [] \<or> c = sbuf_remove \<or> (\<exists>x. c = sbuf_insert x)" by blast
    note n = waiting_counts [OF i this]
    show "sb_step (Run t) s = Blocked"
    proof (cases "t < length (threads s)")
      case True
      then have "threads s ! t = [] \<or> threads s ! t = sbuf_remove \<and> load_size s = 0 \<or>
                 (\<exists>x. threads s ! t = sbuf_insert x) \<and> load_size s = k"
        using w nth_mem by blast
      then show ?thesis using True n
        by (elim disjE exE conjE) (simp_all add: sb_exec_def sbuf_insert_def sbuf_remove_def)
    qed simp
  qed
qed

lemma sbuf_progress_witness:
  "(\<forall>t. sb_step (Run t) sched_end = Blocked) \<longleftrightarrow>
   (\<forall>c \<in> set (threads sched_end). c = [] \<or> c = sbuf_remove \<and> load_size sched_end = 0 \<or>
      (\<exists>x. c = sbuf_insert x) \<and> load_size sched_end = 16)"
  by (rule sbuf_progress [OF sched_reach]) simp

text \<open>
  The bound on insertions is needed: once \<open>rear\<close> has wrapped to a negative value, the remainder is
  negative (or zero) and the store leaves the array.
\<close>

lemma slot_negative:
  assumes "sint i < 0" "\<not> n u dvd sint i" shows "slot i u = None"
proof (cases "n u = 0")
  case False
  then have "0 \<le> \<bar>sint i\<bar> mod \<bar>n u\<bar>" "\<bar>sint i\<bar> mod \<bar>n u\<bar> \<noteq> 0"
    using assms(2) by (simp_all add: mod_eq_0_iff_dvd)
  moreover have "sint i smod n u = - (\<bar>sint i\<bar> mod \<bar>n u\<bar>)" using assms(1) by (simp add: signed_modulo_int_def)
  ultimately show ?thesis unfolding slot_def Let_def by simp
qed (use assms in \<open>simp add: slot_def Let_def signed_modulo_int_def\<close>)

end
