(* ===== verification/Dict_Table.thy ===== *)
theory Dict_Table
  imports Prelude "HOL-Library.Multiset" "HOL-Library.Char_ord"
begin

text \<open>
  The hash table of the word-frequency program \<open>code_example_textbook/opt/dictionary.c\<close>: conversion to
  lower case, the hash functions, the search functions, insertion and sorting. A C string is the list
  of its characters before the NUL. A chain of elements is the list of its words and frequencies; the
  elements that the program reaches through other pointers are never changed but through the chain.
  The counters are of type \<open>int\<close>: every increment keeps the low 32 bits (\<open>to_int\<close>), and the lemmas on
  counts are about fewer than \<open>2 ^ 31\<close> insertions. Storage does not run out. An access outside an array,
  and division by zero, is the result \<open>None\<close>.
\<close>

unbundle bit_operations_syntax

section \<open>State\<close>

type_synonym h_rec = "string \<times> int"

text \<open>The global variables; \<open>wcnt\<close> belongs to the reading of words.\<close>

record dict =
  ucnt :: int
  mcnt :: int
  scnt :: int
  mstring :: string
  llen :: int
  lstring :: string
  lcnt :: int
  htable :: "h_rec list list"
  tsize :: int

definition new_table :: "int \<Rightarrow> dict" where
  "new_table k = \<lparr>ucnt = 0, mcnt = 0, scnt = 0, mstring = [], llen = 0, lstring = [], lcnt = 0,
     htable = replicate (nat k) [], tsize = k\<rparr>"

section \<open>Lower case\<close>

text \<open>A character is a signed byte.\<close>

definition char_int :: "char \<Rightarrow> int" where
  "char_int c = (let k = of_char c in if k < 128 then k else k - 256)"

definition lower_char :: "char \<Rightarrow> char" where
  "lower_char c = (if char_int c \<ge> char_int (CHR ''A'') \<and> char_int c \<le> char_int (CHR ''Z'')
     then char_of (char_int c - (char_int (CHR ''A'') - char_int (CHR ''a''))) else c)"

text \<open>\<open>lower1\<close> computes the length again in every test, \<open>lower2\<close> once.\<close>

function lower1_loop :: "nat \<Rightarrow> string \<Rightarrow> string" where
  "lower1_loop i s = (if i < length s then lower1_loop (i + 1) (s[i := lower_char (s ! i)]) else s)"
  by pat_completeness auto
termination
  by (relation "measure (\<lambda>(i, s). length s - i)") auto

declare lower1_loop.simps [simp del]

definition lower1 :: "string \<Rightarrow> string" where
  "lower1 s = lower1_loop 0 s"

definition lower2 :: "string \<Rightarrow> string" where
  "lower2 s = snd (for_up 0 (int (length s)) 1 (\<lambda>i s. s[nat i := lower_char (s ! nat i)]) s)"

definition lower_fun_set :: "(string \<Rightarrow> string) list" where
  "lower_fun_set = [lower1, lower2]"

section \<open>Hashing\<close>

text \<open>The remainder by \<open>tsize\<close>, converted to \<open>unsigned\<close>.\<close>

definition rem_size :: "c_uint \<Rightarrow> int \<Rightarrow> c_uint option" where
  "rem_size val t = (if (word_of_int t :: c_uint) = 0 then None else Some (val mod word_of_int t))"

fun h_mod_loop :: "int \<Rightarrow> c_uint \<Rightarrow> string \<Rightarrow> c_uint option" where
  "h_mod_loop t val [] = Some val"
| "h_mod_loop t val (c # s) =
     (case rem_size (val * 128 + word_of_int (char_int c)) t of None \<Rightarrow> None | Some val \<Rightarrow> h_mod_loop t val s)"

definition h_mod :: "int \<Rightarrow> string \<Rightarrow> c_uint option" where
  "h_mod t s = h_mod_loop t 0 s"

definition h_add :: "int \<Rightarrow> string \<Rightarrow> c_uint option" where
  "h_add t s = rem_size (foldl (\<lambda>val c. val + word_of_int (char_int c)) 0 s) t"

definition h_xor :: "int \<Rightarrow> string \<Rightarrow> c_uint option" where
  "h_xor t s = rem_size (foldl (\<lambda>val c. push_bit 4 (val XOR word_of_int (char_int c)) OR (drop_bit 28 val AND 0xF)) 0 s) t"

definition hash_fun_set :: "(int \<Rightarrow> string \<Rightarrow> c_uint option) list" where
  "hash_fun_set = [h_mod, h_add, h_xor]"

section \<open>Search\<close>

text \<open>The new element, a copy of the string, with the statistics of word lengths.\<close>

definition new_ele :: "string \<Rightarrow> dict \<Rightarrow> h_rec \<times> dict" where
  "new_ele s d =
     (let wlen = to_int (int (length s));
          d = (if wlen > llen d then d\<lparr>lstring := s, llen := wlen, lcnt := 1\<rparr>
               else if wlen = llen d then d\<lparr>lcnt := to_int (lcnt d + 1)\<rparr> else d)
      in ((s, 1), d))"

definition count_found :: "string \<Rightarrow> int \<Rightarrow> dict \<Rightarrow> dict" where
  "count_found word freq d = (if freq > mcnt d then d\<lparr>mcnt := freq, mstring := word\<rparr> else d)"

fun find_ele_rec :: "h_rec list \<Rightarrow> string \<Rightarrow> dict \<Rightarrow> h_rec list \<times> dict" where
  "find_ele_rec [] s d = (let d = d\<lparr>ucnt := to_int (ucnt d + 1)\<rparr>; (e, d) = new_ele s d in ([e], d))"
| "find_ele_rec ((w, f) # ls) s d =
     (if s = w then ((w, to_int (f + 1)) # ls, count_found w (to_int (f + 1)) d)
      else let (ls', d) = find_ele_rec ls s d in ((w, f) # ls', d))"

text \<open>The loops of the iterative functions: the chain with the word's frequency increased, if it is there.\<close>

fun count_up :: "h_rec list \<Rightarrow> string \<Rightarrow> dict \<Rightarrow> (h_rec list \<times> dict) option" where
  "count_up [] s d = None"
| "count_up ((w, f) # ls) s d =
     (if s = w then Some ((w, to_int (f + 1)) # ls, count_found w (to_int (f + 1)) d)
      else map_option (\<lambda>(ls', d). ((w, f) # ls', d)) (count_up ls s d))"

definition find_ele_iter_f :: "h_rec list \<Rightarrow> string \<Rightarrow> dict \<Rightarrow> h_rec list \<times> dict" where
  "find_ele_iter_f ls s d =
     (case count_up ls s d of
        Some r \<Rightarrow> r
      | None \<Rightarrow> let (e, d) = new_ele s d; d = d\<lparr>ucnt := to_int (ucnt d + 1)\<rparr> in (e # ls, d))"

definition find_ele_iter_r :: "h_rec list \<Rightarrow> string \<Rightarrow> dict \<Rightarrow> h_rec list \<times> dict" where
  "find_ele_iter_r ls s d =
     (case count_up ls s d of
        Some r \<Rightarrow> r
      | None \<Rightarrow> let (e, d) = new_ele s d; d = d\<lparr>ucnt := to_int (ucnt d + 1)\<rparr>
                in (if ls \<noteq> [] then ls @ [e] else [e], d))"

definition find_ele_fun_set :: "(h_rec list \<Rightarrow> string \<Rightarrow> dict \<Rightarrow> h_rec list \<times> dict) list" where
  "find_ele_fun_set = [find_ele_rec, find_ele_iter_f, find_ele_iter_r]"

definition insert_string :: "string \<Rightarrow> (int \<Rightarrow> string \<Rightarrow> c_uint option) \<Rightarrow> (string \<Rightarrow> string) \<Rightarrow>
    (h_rec list \<Rightarrow> string \<Rightarrow> dict \<Rightarrow> h_rec list \<times> dict) \<Rightarrow> dict \<Rightarrow> dict option" where
  "insert_string s hash_fun lower_fun find_ele_fun d =
     (let s = lower_fun s in
      case hash_fun (tsize d) s of
        None \<Rightarrow> None
      | Some index \<Rightarrow>
          let index = sint index in
          if 0 \<le> index \<and> index < int (length (htable d)) then
            let (ls, d) = find_ele_fun (htable d ! nat index) s d
            in Some (d\<lparr>htable := (htable d)[nat index := ls]\<rparr>)
          else None)"

fun insert_all :: "string list \<Rightarrow> (int \<Rightarrow> string \<Rightarrow> c_uint option) \<Rightarrow> (string \<Rightarrow> string) \<Rightarrow>
    (h_rec list \<Rightarrow> string \<Rightarrow> dict \<Rightarrow> h_rec list \<times> dict) \<Rightarrow> dict \<Rightarrow> dict option" where
  "insert_all [] hash_fun lower_fun find_ele_fun d = Some d"
| "insert_all (s # ss) hash_fun lower_fun find_ele_fun d =
     (case insert_string s hash_fun lower_fun find_ele_fun d of
        None \<Rightarrow> None | Some d \<Rightarrow> insert_all ss hash_fun lower_fun find_ele_fun d)"

section \<open>Sorting\<close>

text \<open>
  The shifting loop: from position \<open>j\<close> downwards, elements of smaller frequency move up one place.
  The array has \<open>ucnt\<close> places.
\<close>

fun shift_up :: "nat \<Rightarrow> h_rec \<Rightarrow> h_rec option list \<Rightarrow> h_rec option list option" where
  "shift_up 0 e a = (if 0 < length a then Some (a[0 := Some e]) else None)"
| "shift_up (Suc j) e a =
     (if j < length a then
        case a ! j of
          None \<Rightarrow> None
        | Some x \<Rightarrow>
            if snd e > snd x then (if Suc j < length a then shift_up j e (a[Suc j := Some x]) else None)
            else if Suc j < length a then Some (a[Suc j := Some e]) else None
      else None)"

definition sort_step :: "bool \<Rightarrow> h_rec \<Rightarrow> nat \<times> int \<times> h_rec option list \<Rightarrow> (nat \<times> int \<times> h_rec option list) option" where
  "sort_step quick e st =
     (case st of (cnt, singles, a) \<Rightarrow>
        let singles = (if snd e = 1 then to_int (singles + 1) else singles) in
        case (if quick then (if cnt < length a then Some (a[cnt := Some e]) else None) else shift_up cnt e a) of
          None \<Rightarrow> None
        | Some a \<Rightarrow> Some (cnt + 1, singles, a))"

fun sort_loop :: "bool \<Rightarrow> h_rec list \<Rightarrow> nat \<times> int \<times> h_rec option list \<Rightarrow> (nat \<times> int \<times> h_rec option list) option" where
  "sort_loop quick [] st = Some st"
| "sort_loop quick (e # es) st = (case sort_step quick e st of None \<Rightarrow> None | Some st \<Rightarrow> sort_loop quick es st)"

definition compare_ele :: "h_rec \<Rightarrow> h_rec \<Rightarrow> int" where
  "compare_ele e1 e2 = to_int (snd e2 - snd e1)"

text \<open>
  The elements are chained in the order of the array: the result is the array as a list. An empty
  document has no \<open>array[0]\<close> and no \<open>array[cnt - 1]\<close>. \<open>qsort\<close> is the library's sorting function for the
  comparison it is given.
\<close>

definition sort_words :: "((h_rec \<Rightarrow> h_rec \<Rightarrow> int) \<Rightarrow> h_rec list \<Rightarrow> h_rec list) \<Rightarrow> bool \<Rightarrow> dict \<Rightarrow> (h_rec list \<times> dict) option" where
  "sort_words qsort quick d =
     (case sort_loop quick (concat (htable d)) (0, 0, replicate (nat (ucnt d)) None) of
        None \<Rightarrow> None
      | Some (cnt, singles, a) \<Rightarrow>
          if cnt = 0 \<or> None \<in> set (take cnt a) then None
          else let es = map the (take cnt a)
               in Some (if quick then qsort compare_ele es else es, d\<lparr>scnt := singles\<rparr>))"

section \<open>Lower case: both functions map every character\<close>

lemma lower1_loop_eq: "lower1_loop i s = take i s @ map lower_char (drop i s)"
proof (induction i s rule: lower1_loop.induct)
  case (1 i s)
  show ?case
  proof (cases "i < length s")
    case True
    then have "take (i + 1) (s[i := lower_char (s ! i)]) = take i s @ [lower_char (s ! i)]"
      by (simp add: take_Suc_conv_app_nth)
    moreover have "map lower_char (drop i s) = lower_char (s ! i) # map lower_char (drop (i + 1) s)"
      using True by (simp add: Cons_nth_drop_Suc [symmetric])
    ultimately show ?thesis using 1 True by (subst lower1_loop.simps) simp
  qed (subst lower1_loop.simps; simp)
qed

lemma lower1_eq: "lower1 s = map lower_char s"
  by (simp add: lower1_def lower1_loop_eq)

lemma lower2_eq: "lower2 s = map lower_char s"
proof -
  obtain j t where e: "for_up 0 (int (length s)) 1 (\<lambda>i s. s[nat i := lower_char (s ! nat i)]) s = (j, t)"
    by (cases "for_up 0 (int (length s)) 1 (\<lambda>i s. s[nat i := lower_char (s ! nat i)]) s")
  let ?P = "\<lambda>i t. 0 \<le> i \<and> i \<le> int (length s) \<and> t = map lower_char (take (nat i) s) @ drop (nat i) s"
  have "?P j t \<and> \<not> j < int (length s)"
  proof (rule for_up_inv [OF e])
    fix i t assume p: "?P i t" "i < int (length s)"
    then obtain k where k: "i = int k" "k < length s" using zero_le_imp_eq_int [of i] by auto
    have "nat (int k + 1) = Suc k" by simp
    then show "?P (i + 1) (t[nat i := lower_char (t ! nat i)])"
      using p k by (auto simp: nth_append list_update_append take_Suc_conv_app_nth Cons_nth_drop_Suc [symmetric])
  qed simp_all
  then have "nat j = length s" "t = map lower_char (take (nat j) s) @ drop (nat j) s" by auto
  then show ?thesis by (simp add: lower2_def e)
qed

lemma lower_funs: "lower \<in> set lower_fun_set \<Longrightarrow> lower s = map lower_char s"
  by (auto simp: lower_fun_set_def lower1_eq lower2_eq)

section \<open>The contract of a hash function\<close>

locale hash_function =
  fixes h :: "int \<Rightarrow> string \<Rightarrow> c_uint option"
  assumes in_table: "0 < t \<Longrightarrow> t < 2 ^ 31 \<Longrightarrow> \<exists>i. h t s = Some i \<and> uint i < t"
begin

lemma index:
  assumes "0 < t" "t < 2 ^ 31"
  obtains i where "h t s = Some i" "0 \<le> sint i" "sint i < t"
proof -
  from in_table [OF assms, of s] obtain i where i: "h t s = Some i" "uint i < t" by auto
  have "sint i = uint i" using sint_wrap [of "uint i"] i(2) assms(2) uint_ge_0 [of i] by (simp del: uint_ge_0)
  then show thesis using that [OF i(1)] i(2) uint_ge_0 [of i] by (simp del: uint_ge_0)
qed

end

lemma rem_size_in_table:
  assumes "0 < t" "t < 2 ^ 31" obtains i where "rem_size val t = Some i" "uint i < t"
proof -
  have t: "uint (word_of_int t :: c_uint) = t" using assms by (simp add: uint_word_of_int take_bit_int_eq_self)
  then have "(word_of_int t :: c_uint) \<noteq> 0" using assms(1) by (metis unsigned_0 less_irrefl)
  moreover have "uint (val mod word_of_int t) < t" using assms(1) by (simp add: uint_mod_distrib t)
  ultimately show thesis using that by (simp add: rem_size_def)
qed

lemma h_mod_loop_in_table:
  assumes "0 < t" "t < 2 ^ 31" shows "uint val < t \<Longrightarrow> \<exists>i. h_mod_loop t val s = Some i \<and> uint i < t"
proof (induction s arbitrary: val)
  case (Cons c s)
  obtain i where i: "rem_size (val * 128 + word_of_int (char_int c)) t = Some i" "uint i < t"
    by (rule rem_size_in_table [OF assms])
  then show ?case using Cons.IH [OF i(2)] by simp
qed simp

interpretation h_mod: hash_function h_mod
  by unfold_locales (simp add: h_mod_def h_mod_loop_in_table)

interpretation h_add: hash_function h_add
  unfolding h_add_def by unfold_locales (meson rem_size_in_table)

interpretation h_xor: hash_function h_xor
  unfolding h_xor_def by unfold_locales (meson rem_size_in_table)

lemma hash_funs: "h \<in> set hash_fun_set \<Longrightarrow> hash_function h"
  using h_mod.hash_function_axioms h_add.hash_function_axioms h_xor.hash_function_axioms
  by (auto simp: hash_fun_set_def)

section \<open>The contract of a search function\<close>

text \<open>The chain with the frequency of \<open>s\<close> increased.\<close>

definition bumped :: "string \<Rightarrow> h_rec \<Rightarrow> h_rec" where
  "bumped s e = (if fst e = s then (fst e, to_int (snd e + 1)) else e)"

lemma bumped_pair: "bumped s (w, f) = (if w = s then (w, to_int (f + 1)) else (w, f))"
  by (simp add: bumped_def)

lemma fst_bumped [simp]: "fst (bumped s e) = fst e"
  by (simp add: bumped_def)

lemma map_bumped_other: "s \<notin> fst ` set ls \<Longrightarrow> map (bumped s) ls = ls"
  by (rule map_idI) (auto simp: bumped_def)

locale finder =
  fixes fe :: "h_rec list \<Rightarrow> string \<Rightarrow> dict \<Rightarrow> h_rec list \<times> dict"
  assumes hit: "distinct (map fst ls) \<Longrightarrow> (s, f) \<in> set ls \<Longrightarrow> fe ls s d = (map (bumped s) ls, count_found s (to_int (f + 1)) d)"
    and miss: "s \<notin> fst ` set ls \<Longrightarrow>
      \<exists>ls'. fe ls s d = (ls', snd (new_ele s (d\<lparr>ucnt := to_int (ucnt d + 1)\<rparr>))) \<and> mset ls' = add_mset (s, 1) (mset ls)"

lemma hit_cases:
  assumes "distinct (map fst ((w, g) # ls))" "(s, f) \<in> set ((w, g) # ls)"
  shows "s = w \<and> f = g \<and> s \<notin> fst ` set ls \<or> s \<noteq> w \<and> (s, f) \<in> set ls"
  using assms by (auto intro: rev_image_eqI)

lemma find_ele_rec_hit:
  "distinct (map fst ls) \<Longrightarrow> (s, f) \<in> set ls \<Longrightarrow> find_ele_rec ls s d = (map (bumped s) ls, count_found s (to_int (f + 1)) d)"
proof (induction ls s d rule: find_ele_rec.induct)
  case (2 w g ls s d)
  then show ?case using hit_cases [OF 2(2,3)] by (auto simp: bumped_pair map_bumped_other split: prod.splits)
qed simp

lemma find_ele_rec_miss:
  "s \<notin> fst ` set ls \<Longrightarrow> find_ele_rec ls s d = (ls @ [(s, 1)], snd (new_ele s (d\<lparr>ucnt := to_int (ucnt d + 1)\<rparr>)))"
  by (induction ls s d rule: find_ele_rec.induct) (auto simp: new_ele_def Let_def)

lemma count_up_hit:
  "distinct (map fst ls) \<Longrightarrow> (s, f) \<in> set ls \<Longrightarrow> count_up ls s d = Some (map (bumped s) ls, count_found s (to_int (f + 1)) d)"
proof (induction ls s d rule: count_up.induct)
  case (2 w g ls s d)
  then show ?case using hit_cases [OF 2(2,3)] by (auto simp: bumped_pair map_bumped_other split: prod.splits)
qed simp

lemma count_up_miss: "s \<notin> fst ` set ls \<Longrightarrow> count_up ls s d = None"
  by (induction ls s d rule: count_up.induct) auto

text \<open>The order in which an element is made and counted does not matter.\<close>

lemma new_ele_ucnt: "new_ele s (d\<lparr>ucnt := k\<rparr>) = ((s, 1), (snd (new_ele s d))\<lparr>ucnt := k\<rparr>)"
  "ucnt (snd (new_ele s d)) = ucnt d" "new_ele s d = ((s, 1), snd (new_ele s d))"
  by (simp_all add: new_ele_def Let_def)

interpretation find_ele_rec: finder find_ele_rec
  by unfold_locales (simp_all add: find_ele_rec_hit find_ele_rec_miss)

interpretation find_ele_iter_f: finder find_ele_iter_f
proof (unfold_locales, goal_cases)
  case (1 ls s f d)
  then show ?case by (simp add: find_ele_iter_f_def count_up_hit)
next
  case (2 s ls d)
  obtain d' where "new_ele s d = ((s, 1), d')" "ucnt d' = ucnt d" using new_ele_ucnt(2,3) [of s d] by metis
  with 2 show ?case by (simp add: find_ele_iter_f_def count_up_miss new_ele_ucnt(1) Let_def)
qed

interpretation find_ele_iter_r: finder find_ele_iter_r
proof (unfold_locales, goal_cases)
  case (1 ls s f d)
  then show ?case by (simp add: find_ele_iter_r_def count_up_hit)
next
  case (2 s ls d)
  obtain d' where "new_ele s d = ((s, 1), d')" "ucnt d' = ucnt d" using new_ele_ucnt(2,3) [of s d] by metis
  with 2 show ?case by (simp add: find_ele_iter_r_def count_up_miss new_ele_ucnt(1) Let_def)
qed

lemma find_funs: "fe \<in> set find_ele_fun_set \<Longrightarrow> finder fe"
  using find_ele_rec.finder_axioms find_ele_iter_f.finder_axioms find_ele_iter_r.finder_axioms
  by (auto simp: find_ele_fun_set_def)

section \<open>The abstract counter\<close>

text \<open>The frequencies of the words of a document.\<close>

definition frequencies :: "string list \<Rightarrow> h_rec multiset" where
  "frequencies ws = image_mset (\<lambda>w. (w, int (count_list ws w))) (mset_set (set ws))"

lemma set_frequencies: "(w, f) \<in># frequencies ws \<longleftrightarrow> w \<in> set ws \<and> f = int (count_list ws w)"
  by (auto simp: frequencies_def)

lemma frequencies_new: "s \<notin> set ws \<Longrightarrow> frequencies (ws @ [s]) = add_mset (s, 1) (frequencies ws)"
  unfolding frequencies_def by (auto simp: count_list_0_iff intro!: image_mset_cong)

lemma count_list_le: "count_list ws w \<le> length ws"
  by (induction ws) auto

lemma count_bound: "length ws < 2 ^ 31 - 1 \<Longrightarrow> to_int (int (count_list ws w) + 1) = int (count_list ws w) + 1"
proof -
  assume "length ws < 2 ^ 31 - 1"
  then have "count_list ws w < 2 ^ 31 - 1" using count_list_le [of ws w] by simp
  then show ?thesis by (intro to_int_small) simp_all
qed

lemma frequencies_old:
  "s \<in> set ws \<Longrightarrow> length ws < 2 ^ 31 - 1 \<Longrightarrow> frequencies (ws @ [s]) = image_mset (bumped s) (frequencies ws)"
  using count_bound [of ws s] unfolding frequencies_def image_mset.compositionality
  by (auto simp: bumped_def comp_def insert_absorb add.commute intro!: image_mset_cong)

text \<open>The statistics, the words being given in reverse order.\<close>

fun tally_rev :: "string list \<Rightarrow> dict" where
  "tally_rev [] = new_table 0"
| "tally_rev (s # ws) =
     (if s \<in> set ws then count_found s (int (count_list ws s) + 1) (tally_rev ws)
      else snd (new_ele s ((tally_rev ws)\<lparr>ucnt := ucnt (tally_rev ws) + 1\<rparr>)))"

definition word_tally :: "string list \<Rightarrow> dict" where
  "word_tally ws = tally_rev (rev ws)"

lemma tally_snoc:
  "word_tally (ws @ [s]) =
     (if s \<in> set ws then count_found s (int (count_list ws s) + 1) (word_tally ws)
      else snd (new_ele s ((word_tally ws)\<lparr>ucnt := ucnt (word_tally ws) + 1\<rparr>)))"
  by (simp add: word_tally_def)

text \<open>What the word_tally of a document is.\<close>

lemma count_list_snoc: "count_list (ws @ [s]) w = count_list ws w + (if w = s then 1 else 0)"
  by simp

lemma tally_counts:
  "ucnt (word_tally ws) = int (card (set ws)) \<and>
   (\<forall>w. 2 \<le> count_list ws w \<longrightarrow> int (count_list ws w) \<le> mcnt (word_tally ws)) \<and>
   (mcnt (word_tally ws) = 0 \<and> mstring (word_tally ws) = [] \<or> 2 \<le> mcnt (word_tally ws) \<and> int (count_list ws (mstring (word_tally ws))) = mcnt (word_tally ws))"
proof (induction ws rule: rev_induct)
  case Nil
  then show ?case by (simp add: word_tally_def new_table_def)
next
  case (snoc s ws)
  show ?case
  proof (cases "s \<in> set ws")
    case True
    then have "1 \<le> count_list ws s" by (metis count_list_0_iff less_one not_le)
    then show ?thesis using snoc True unfolding tally_snoc
      by (auto simp: count_found_def insert_absorb le_Suc_eq)
  next
    case False
    then have "count_list ws s = 0" by simp
    then show ?thesis using snoc False unfolding tally_snoc by (auto simp: new_ele_def Let_def)
  qed
qed

definition longest :: "string list \<Rightarrow> int" where
  "longest ws = int (foldr (\<lambda>w k. max (length w) k) ws 0)"

lemma longest_simps [simp]: "longest [] = 0" "longest (ws @ [s]) = max (longest ws) (int (length s))"
proof -
  have "foldr (\<lambda>w k. max (length w) k) ws m = max (foldr (\<lambda>w k. max (length w) k) ws 0) m" for m :: nat
    by (induction ws) auto
  from this [of "length s"] show "longest (ws @ [s]) = max (longest ws) (int (length s))" by (simp add: longest_def)
qed (simp add: longest_def)

lemma longest_ge: "w \<in> set ws \<Longrightarrow> int (length w) \<le> longest ws"
  by (induction ws rule: rev_induct) (auto simp: max_def)

lemma card_filter_le: "card {w \<in> set ws. P w} \<le> length ws"
  by (rule order_trans [OF card_mono card_length]) auto

lemma tally_lengths:
  assumes "length ws < 2 ^ 31" "\<And>w. w \<in> set ws \<Longrightarrow> length w < 2 ^ 31"
  shows "llen (word_tally ws) = longest ws \<and> int (length (lstring (word_tally ws))) = longest ws \<and>
   (ws \<noteq> [] \<longrightarrow> lstring (word_tally ws) \<in> set ws) \<and> (ws = [] \<longrightarrow> lcnt (word_tally ws) = 0) \<and>
   lcnt (word_tally ws) = int (card {w \<in> set ws. int (length w) = longest ws})"
  using assms
proof (induction ws rule: rev_induct)
  case Nil
  then show ?case by (simp add: word_tally_def new_table_def)
next
  case (snoc s ws)
  have IH: "llen (word_tally ws) = longest ws \<and> int (length (lstring (word_tally ws))) = longest ws \<and>
   (ws \<noteq> [] \<longrightarrow> lstring (word_tally ws) \<in> set ws) \<and> (ws = [] \<longrightarrow> lcnt (word_tally ws) = 0) \<and>
   lcnt (word_tally ws) = int (card {w \<in> set ws. int (length w) = longest ws})"
    by (rule snoc.IH) (use snoc.prems in auto)
  have wl: "to_int (int (length s)) = int (length s)" using snoc.prems(2) [of s] by (intro to_int_small) simp_all
  have "length ws < 2 ^ 31 - 1" using snoc.prems(1) by simp
  then have "card {w \<in> set ws. int (length w) = longest ws} < 2 ^ 31 - 1"
    using card_filter_le [of ws "\<lambda>w. int (length w) = longest ws"] by simp
  then have lc: "to_int (lcnt (word_tally ws) + 1) = lcnt (word_tally ws) + 1"
    using IH by (intro to_int_small) simp_all
  note snoc = IH
  show ?case
  proof (cases "s \<in> set ws")
    case True
    then have "longest (ws @ [s]) = longest ws" using longest_ge [OF True] by simp
    then show ?thesis using snoc True unfolding tally_snoc by (auto simp: count_found_def insert_absorb)
  next
    case new: False
    consider "int (length s) < longest ws" | "int (length s) = longest ws" | "longest ws < int (length s)" by linarith
    then show ?thesis
    proof cases
      case 1
      then have "{w \<in> set (ws @ [s]). int (length w) = longest ws} = {w \<in> set ws. int (length w) = longest ws}" by auto
      moreover have "ws \<noteq> []" using 1 by auto
      ultimately show ?thesis using snoc new 1 unfolding tally_snoc by (simp add: new_ele_def wl)
    next
      case 2
      then have "{w \<in> set (ws @ [s]). int (length w) = longest ws} = insert s {w \<in> set ws. int (length w) = longest ws}" by auto
      moreover have "longest (ws @ [s]) = longest ws" using 2 by simp
      moreover have "word_tally (ws @ [s]) = (word_tally ws)\<lparr>ucnt := ucnt (word_tally ws) + 1, lcnt := lcnt (word_tally ws) + 1\<rparr>"
        using snoc new 2 lc wl [unfolded 2] by (simp add: tally_snoc new_ele_def)
      moreover have "ws = [] \<Longrightarrow> s = []" using 2 by simp
      ultimately show ?thesis using snoc new 2 by (cases "ws = []") (simp_all del: longest_simps(2))
    next
      case 3
      then have "{w \<in> set (ws @ [s]). int (length w) = int (length s)} = {s}" using longest_ge [of _ ws] by force
      then show ?thesis using snoc new 3 unfolding tally_snoc by (simp add: new_ele_def wl)
    qed
  qed
qed

section \<open>The table implements the counter\<close>

definition home :: "(int \<Rightarrow> string \<Rightarrow> c_uint option) \<Rightarrow> dict \<Rightarrow> string \<Rightarrow> nat option" where
  "home h d w = map_option (\<lambda>i. nat (sint i)) (h (tsize d) w)"

definition htable_ok :: "(int \<Rightarrow> string \<Rightarrow> c_uint option) \<Rightarrow> string list \<Rightarrow> dict \<Rightarrow> bool" where
  "htable_ok h ws d \<longleftrightarrow> mset (concat (htable d)) = frequencies ws \<and> length (htable d) = nat (tsize d) \<and>
     (\<forall>i < length (htable d). \<forall>e \<in> set (htable d ! i). home h d (fst e) = Some i) \<and>
     d\<lparr>htable := [], tsize := 0\<rparr> = word_tally ws"

lemma distinct_words: "mset xs = frequencies ws \<Longrightarrow> distinct (map fst xs)"
proof -
  assume "mset xs = frequencies ws"
  then have "mset (map fst xs) = mset_set (set ws)" by (simp add: frequencies_def image_mset.compositionality comp_def)
  moreover from this have "set (map fst xs) = set ws" by (metis finite_set_mset_mset_set set_mset_mset List.finite_set)
  ultimately show ?thesis by (simp add: distinct_count_atmost_1)
qed

lemma concat_update:
  "i < length xs \<Longrightarrow> mset b = add_mset e (mset (xs ! i)) \<Longrightarrow> mset (concat (xs[i := b])) = add_mset e (mset (concat xs))"
  by (induction xs arbitrary: i) (auto split: nat.splits)

lemma stats_commute:
  "(count_found w k d)\<lparr>htable := H, tsize := t\<rparr> = count_found w k (d\<lparr>htable := H, tsize := t\<rparr>)"
  "(snd (new_ele w d))\<lparr>htable := H, tsize := t\<rparr> = snd (new_ele w (d\<lparr>htable := H, tsize := t\<rparr>))"
  "htable (count_found w k d) = htable d" "tsize (count_found w k d) = tsize d"
  "htable (snd (new_ele w d)) = htable d" "tsize (snd (new_ele w d)) = tsize d"
  by (simp_all add: count_found_def new_ele_def Let_def)

lemma table_slot:
  assumes ok: "htable_ok h ws d" and e: "(w, f) \<in># frequencies ws" and i: "home h d w = Some i"
  shows "i < length (htable d)" "(w, f) \<in> set (htable d ! i)"
proof -
  have "(w, f) \<in> set (concat (htable d))" using ok e by (metis set_mset_mset htable_ok_def)
  then obtain b where "b \<in> set (htable d)" "(w, f) \<in> set b" by auto
  then obtain k where k: "k < length (htable d)" "(w, f) \<in> set (htable d ! k)" by (metis in_set_conv_nth)
  then have "home h d (fst (w, f)) = Some k" using ok unfolding htable_ok_def by blast
  with i k show "i < length (htable d)" "(w, f) \<in> set (htable d ! i)" by simp_all
qed

lemma insert_hit:
  assumes ok: "htable_ok h ws d" and fe: "finder fe" and i: "home h d w = Some i" and w: "w \<in> set ws"
  shows "fe (htable d ! i) w d = (map (bumped w) (htable d ! i), count_found w (to_int (int (count_list ws w) + 1)) d)"
    "(htable d)[i := map (bumped w) (htable d ! i)] = map (map (bumped w)) (htable d)"
proof -
  have e: "(w, int (count_list ws w)) \<in># frequencies ws" using w by (simp add: set_frequencies)
  note s = table_slot [OF ok e i]
  have "distinct (map fst (concat (htable d)))" using ok by (intro distinct_words) (simp add: htable_ok_def)
  then have "distinct (map fst (htable d ! i))"
    using s(1) by (subst (asm) id_take_nth_drop [OF s(1)]) simp
  then show "fe (htable d ! i) w d = (map (bumped w) (htable d ! i), count_found w (to_int (int (count_list ws w) + 1)) d)"
    by (rule finder.hit [OF fe _ s(2)])
  have "map (bumped w) (htable d ! k) = htable d ! k" if "k < length (htable d)" "k \<noteq> i" for k
    using ok i that by (intro map_bumped_other) (force simp: htable_ok_def)
  then show "(htable d)[i := map (bumped w) (htable d ! i)] = map (map (bumped w)) (htable d)"
    by (intro nth_equalityI [where xs = "(htable d)[i := _]"]) (simp_all add: nth_list_update s(1))
qed

lemma insert_miss:
  assumes ok: "htable_ok h ws d" and w: "w \<notin> set ws" and i: "i < length (htable d)"
  shows "w \<notin> fst ` set (htable d ! i)"
proof
  assume "w \<in> fst ` set (htable d ! i)"
  then obtain f where "(w, f) \<in> set (htable d ! i)" by auto
  then have "(w, f) \<in> set (concat (htable d))" using nth_mem [OF i] by auto
  then have "(w, f) \<in># frequencies ws" using ok by (metis set_mset_mset htable_ok_def)
  then show False using w by (simp add: set_frequencies)
qed

lemma insert_string_ok:
  assumes ok: "htable_ok h ws d" and t: "0 < tsize d" "tsize d < 2 ^ 31" and h: "hash_function h" and fe: "finder fe"
    and w: "lower s = w" and n: "length ws < 2 ^ 31 - 1"
  shows "\<exists>d'. insert_string s h lower fe d = Some d' \<and> htable_ok h (ws @ [w]) d' \<and> tsize d' = tsize d"
proof -
  obtain j where j: "h (tsize d) w = Some j" "0 \<le> sint j" "sint j < tsize d"
    by (rule hash_function.index [OF h t])
  define i where "i = nat (sint j)"
  have len: "length (htable d) = nat (tsize d)" using ok by (simp add: htable_ok_def)
  have i: "i < length (htable d)" "home h d w = Some i" using j len by (auto simp: i_def home_def)
  define r where "r = fe (htable d ! i) w d"
  define d' where "d' = (snd r)\<lparr>htable := (htable d)[i := fst r]\<rparr>"
  have home: "home h d'' = home h d" if "tsize d'' = tsize d" for d'' using that by (simp add: home_def fun_eq_iff)
  have *: "htable_ok h (ws @ [w]) d' \<and> tsize d' = tsize d \<and> htable (snd r) = htable d"
  proof (cases "w \<in> set ws")
    case True
    note hit = insert_hit [OF ok fe i(2) True]
    have d': "d' = (count_found w (int (count_list ws w) + 1) d)\<lparr>htable := map (map (bumped w)) (htable d)\<rparr>"
      using hit by (simp add: d'_def r_def count_bound [OF n])
    have "tsize d' = tsize d" by (simp add: d' stats_commute)
    moreover have "mset (concat (htable d')) = frequencies (ws @ [w])"
      using ok frequencies_old [OF True n] by (simp add: d' htable_ok_def flip: map_concat)
    moreover have "d'\<lparr>htable := [], tsize := 0\<rparr> = word_tally (ws @ [w])"
      using ok True by (simp add: d' tally_snoc stats_commute htable_ok_def)
    moreover have "htable (snd r) = htable d" using hit by (simp add: r_def stats_commute)
    ultimately show ?thesis
      using ok home [of d'] by (auto simp: htable_ok_def d')
  next
    case False
    obtain ls where ls: "r = (ls, snd (new_ele w (d\<lparr>ucnt := to_int (ucnt d + 1)\<rparr>)))" "mset ls = add_mset (w, 1) (mset (htable d ! i))"
      using finder.miss [OF fe insert_miss [OF ok False i(1)], of d] by (auto simp: r_def)
    have "d\<lparr>htable := [], tsize := 0\<rparr> = word_tally ws" using ok by (simp add: htable_ok_def)
    then have "ucnt d = ucnt (word_tally ws)" by (metis dict.select_convs(1) dict.surjective dict.update_convs(8,9))
    then have u: "to_int (ucnt d + 1) = ucnt d + 1"
      using tally_counts [of ws] card_length [of ws] n by (intro to_int_small) simp_all
    have d': "d' = (snd (new_ele w (d\<lparr>ucnt := ucnt d + 1\<rparr>)))\<lparr>htable := (htable d)[i := ls]\<rparr>"
      by (simp add: d'_def ls(1) u)
    have ts: "tsize d' = tsize d" by (simp add: d' stats_commute)
    have mset: "mset (concat (htable d')) = frequencies (ws @ [w])"
      using ok frequencies_new [OF False] concat_update [OF i(1) ls(2)] by (simp add: d' htable_ok_def)
    have word_tally: "word_tally ws = d\<lparr>htable := [], tsize := 0\<rparr>" using ok by (simp add: htable_ok_def)
    have "d\<lparr>ucnt := x, htable := [], tsize := 0\<rparr> = d\<lparr>htable := [], tsize := 0, ucnt := x\<rparr>" for x by simp
    note swap = this
    have stats: "d'\<lparr>htable := [], tsize := 0\<rparr> = word_tally (ws @ [w])"
      using False by (simp add: d' tally_snoc stats_commute word_tally swap)
    have "set ls = insert (w, 1) (set (htable d ! i))" using ls(2) by (metis set_mset_add_mset_insert set_mset_mset)
    then have "\<forall>k < length (htable d'). \<forall>e \<in> set (htable d' ! k). home h d (fst e) = Some k"
      using ok i by (auto simp: htable_ok_def d' nth_list_update)
    then show ?thesis
      using len ts mset stats home [OF ts] by (simp add: htable_ok_def) (simp add: d' ls(1) stats_commute)
  qed
  have "insert_string s h lower fe d = (let (ls, d1) = r in Some (d1\<lparr>htable := (htable d1)[i := ls]\<rparr>))"
    using j by (simp add: insert_string_def w Let_def r_def i_def len)
  then have "insert_string s h lower fe d = Some d'" using * by (simp add: d'_def split: prod.splits)
  with * show ?thesis by blast
qed

lemma insert_all_ok:
  assumes "htable_ok h ws d" "0 < tsize d" "tsize d < 2 ^ 31" "hash_function h" "finder fe"
    and "\<And>s. lower s = map lower_char s" and "length ws + length ss < 2 ^ 31"
  shows "\<exists>d'. insert_all ss h lower fe d = Some d' \<and> htable_ok h (ws @ map (map lower_char) ss) d' \<and> tsize d' = tsize d"
  using assms(1-3,7)
proof (induction ss arbitrary: ws d)
  case (Cons s ss)
  obtain d1 where d1: "insert_string s h lower fe d = Some d1" "htable_ok h (ws @ [map lower_char s]) d1" "tsize d1 = tsize d"
    using insert_string_ok [OF Cons.prems(1-3) assms(4,5), of lower s, OF assms(6)] Cons.prems(4) by auto
  then show ?case using Cons.IH [OF d1(2)] Cons.prems by simp
qed simp

lemma new_table_ok: "htable_ok h [] (new_table k)"
  by (simp add: htable_ok_def new_table_def frequencies_def word_tally_def concat_eq_Nil_conv)

section \<open>Sorting\<close>

text \<open>The array while the loop runs: \<open>cnt\<close> elements, then unused places.\<close>

definition descending :: "h_rec list \<Rightarrow> bool" where
  "descending es = sorted_wrt (\<lambda>x y. snd y \<le> snd x) es"

text \<open>Insertion behind the elements that are not smaller.\<close>

definition place_in :: "h_rec \<Rightarrow> h_rec list \<Rightarrow> h_rec list" where
  "place_in e es = takeWhile (\<lambda>x. snd e \<le> snd x) es @ e # dropWhile (\<lambda>x. snd e \<le> snd x) es"

lemma shift_up_eq:
  "descending es \<Longrightarrow> shift_up (length es) e (map Some es @ y # us) = Some (map Some (place_in e es) @ us)"
proof (induction es arbitrary: y us rule: rev_induct)
  case Nil
  then show ?case by (simp add: place_in_def)
next
  case (snoc x es)
  have d: "descending es" "\<forall>z \<in> set es. snd x \<le> snd z" using snoc.prems by (auto simp: descending_def sorted_wrt_append)
  show ?case
  proof (cases "snd e > snd x")
    case True
    then have "place_in e (es @ [x]) = place_in e es @ [x]"
      by (auto simp: place_in_def takeWhile_append dropWhile_append takeWhile_eq_all_conv [THEN iffD2])
    then show ?thesis using snoc.IH [OF d(1), of "Some x" "Some x # us"] True
      by (simp add: nth_append list_update_append)
  next
    case False
    then have all: "\<forall>z \<in> set (es @ [x]). snd e \<le> snd z" using d(2) by force
    then have "takeWhile (\<lambda>z. snd e \<le> snd z) (es @ [x]) = es @ [x]" "dropWhile (\<lambda>z. snd e \<le> snd z) (es @ [x]) = []"
      by (simp_all only: takeWhile_eq_all_conv dropWhile_eq_Nil_conv)
    then have "place_in e (es @ [x]) = es @ [x, e]" by (simp only: place_in_def) simp
    then show ?thesis using False by (simp add: nth_append list_update_append)
  qed
qed

lemma place_in_descending: "descending es \<Longrightarrow> descending (place_in e es)"
  unfolding descending_def place_in_def by (induction es) (auto dest: set_takeWhileD set_dropWhileD)

lemma mset_place_in: "mset (place_in e es) = add_mset e (mset es)"
proof -
  have "mset es = mset (takeWhile (\<lambda>x. snd e \<le> snd x) es) + mset (dropWhile (\<lambda>x. snd e \<le> snd x) es)"
    by (metis mset_append takeWhile_dropWhile_id)
  then show ?thesis by (simp add: place_in_def)
qed

lemma length_place_in [simp]: "length (place_in e es) = Suc (length es)"
  using arg_cong [OF mset_place_in [of e es], of size] by simp

definition singletons :: "h_rec list \<Rightarrow> int" where
  "singletons es = int (length (filter (\<lambda>e. snd e = 1) es))"

lemma singletons_le: "0 \<le> singletons es" "singletons es \<le> int (length es)"
  by (simp_all add: singletons_def)

lemma sort_loop_eq:
  assumes "descending es \<or> quick" "0 \<le> k" "k + int (length xs) < 2 ^ 31"
  shows "sort_loop quick xs (length es, k, map Some es @ replicate (length xs) None) =
    Some (length es + length xs, k + singletons xs, map Some (if quick then es @ xs else fold place_in xs es))"
  using assms
proof (induction xs arbitrary: es k)
  case (Cons e xs)
  let ?es = "if quick then es @ [e] else place_in e es"
  have k: "to_int (k + 1) = k + 1" using Cons.prems(2,3) by (intro to_int_small) simp_all
  have "sort_step quick e (length es, k, map Some es @ replicate (length (e # xs)) None) =
      Some (length ?es, k + singletons [e], map Some ?es @ replicate (length xs) None)"
    using Cons.prems k shift_up_eq [of es e None "replicate (length xs) None"]
    by (auto simp: sort_step_def singletons_def list_update_append)
  then show ?case using Cons.IH [of ?es "k + singletons [e]"] Cons.prems place_in_descending [of es e]
    by (auto simp: singletons_def)
qed (simp add: singletons_def)

lemma fold_place_in: "descending es \<Longrightarrow> descending (fold place_in xs es) \<and> mset (fold place_in xs es) = mset xs + mset es"
  by (induction xs arbitrary: es) (simp_all add: place_in_descending mset_place_in)

text \<open>What the library's \<open>qsort\<close> promises for the comparison of the program, on frequencies whose
  differences do not overflow.\<close>

definition sorts :: "((h_rec \<Rightarrow> h_rec \<Rightarrow> int) \<Rightarrow> h_rec list \<Rightarrow> h_rec list) \<Rightarrow> bool" where
  "sorts qsort \<longleftrightarrow> (\<forall>xs. (\<forall>e \<in> set xs. 0 \<le> snd e \<and> snd e < 2 ^ 31) \<longrightarrow> mset (qsort compare_ele xs) = mset xs \<and>
     sorted_wrt (\<lambda>x y. compare_ele x y \<le> 0) (qsort compare_ele xs))"

lemma sort_words_empty: "concat (htable d) = [] \<Longrightarrow> sort_words qsort quick d = None"
  unfolding sort_words_def by (simp only: sort_loop.simps option.case prod.case) simp

lemma sort_words_ok:
  assumes ok: "htable_ok h ws d" and ws: "ws \<noteq> []" and q: "sorts qsort" and n: "length ws < 2 ^ 31"
  shows "\<exists>es. sort_words qsort quick d = Some (es, d\<lparr>scnt := singletons es\<rparr>) \<and> mset es = frequencies ws \<and> descending es"
proof -
  let ?xs = "concat (htable d)"
  let ?ys = "if quick then ?xs else fold place_in ?xs []"
  have m: "mset ?xs = frequencies ws" using ok by (simp add: htable_ok_def)
  have "ucnt d = ucnt (word_tally ws)"
  proof -
    have "d\<lparr>htable := [], tsize := 0\<rparr> = word_tally ws" using ok by (simp add: htable_ok_def)
    then show ?thesis by (metis dict.select_convs(1) dict.surjective dict.update_convs(8,9))
  qed
  moreover have "length ?xs = card (set ws)"
    using arg_cong [OF m, of size] by (simp add: frequencies_def)
  moreover have "0 < card (set ws)" using ws by (simp add: card_gt_0_iff)
  ultimately have u: "nat (ucnt d) = length ?xs" and "0 < length ?xs" using tally_counts [of ws] by simp_all
  from this(2) have ne: "?xs \<noteq> []" by (metis length_greater_0_conv)
  have s: "sort_loop quick ?xs (0, 0, replicate (length ?xs) None) = Some (length ?xs, singletons ?xs, map Some ?ys)"
    using sort_loop_eq [of "[]" quick 0 ?xs] n \<open>length ?xs = card (set ws)\<close> card_length [of ws] by (simp add: descending_def)
  have ys: "mset ?ys = mset ?xs" "length ?ys = length ?xs" "\<not> quick \<Longrightarrow> descending ?ys"
    using fold_place_in [of "[]" ?xs] by (auto simp: descending_def dest: mset_eq_length)
  define es where "es = (if quick then qsort compare_ele ?ys else ?ys)"
  have range: "0 \<le> snd e \<and> snd e < 2 ^ 31" if "e \<in># mset ?xs" for e
    using that n count_list_le [of ws "fst e"] unfolding m by (cases e) (auto simp: set_frequencies)
  have qs: "mset (qsort compare_ele ?ys) = mset ?xs" "sorted_wrt (\<lambda>x y. compare_ele x y \<le> 0) (qsort compare_ele ?ys)"
    using q range ys(1) unfolding sorts_def by (metis set_mset_mset)+
  have "mset es = mset ?xs" using ys(1) qs(1) by (cases quick) (simp_all add: es_def)
  moreover have "sorted_wrt (\<lambda>x y. snd y \<le> snd x) (qsort compare_ele ?ys)"
  proof (rule sorted_wrt_mono_rel [OF _ qs(2)])
    fix x y assume xy: "x \<in> set (qsort compare_ele ?ys)" "y \<in> set (qsort compare_ele ?ys)" and c: "compare_ele x y \<le> 0"
    have "0 \<le> snd x \<and> snd x < 2 ^ 31" "0 \<le> snd y \<and> snd y < 2 ^ 31"
      using xy range qs(1) by (metis set_mset_mset)+
    then have "to_int (snd y - snd x) = snd y - snd x" by (intro to_int_small) auto
    then show "snd y \<le> snd x" using c by (simp add: compare_ele_def)
  qed
  then have "descending es"
    using ys(3) by (auto simp: es_def descending_def)
  moreover have "singletons es = singletons ?xs"
    using calculation(1) by (metis mset_filter singletons_def size_mset)
  moreover have "sort_words qsort quick d = Some (es, d\<lparr>scnt := singletons ?xs\<rparr>)"
    using s u ne ys(2) unfolding sort_words_def es_def by (simp add: comp_def)
  ultimately show ?thesis using m by auto
qed

text \<open>The singletons of a document, and that only sorting counts them.\<close>

lemma singletons_frequencies:
  assumes "mset es = frequencies ws" shows "singletons es = int (card {w \<in> set ws. count_list ws w = 1})"
proof -
  have "singletons es = int (size (filter_mset (\<lambda>e. snd e = 1) (frequencies ws)))"
    using assms by (metis mset_filter singletons_def size_mset)
  also have "filter_mset (\<lambda>e. snd e = 1) (frequencies ws) =
      image_mset (\<lambda>w. (w, int (count_list ws w))) (filter_mset (\<lambda>w. count_list ws w = 1) (mset_set (set ws)))"
    by (simp add: frequencies_def filter_mset_image_mset)
  finally show ?thesis by simp
qed

lemma tally_scnt: "scnt (word_tally ws) = 0"
proof (induction ws rule: rev_induct)
  case Nil
  then show ?case by (simp add: word_tally_def new_table_def)
next
  case (snoc s ws)
  then show ?case by (simp add: tally_snoc count_found_def new_ele_def Let_def)
qed

end
