(* ===== verification/Dict_Words.thy ===== *)
theory Dict_Words
  imports Dict_Table
begin

text \<open>
  The reading of words and n-grams in \<open>code_example_textbook/opt/dictionary.c\<close>, and the program as a
  whole. The input is the rest of the file. \<open>rest\<close> is where \<open>strtok\<close> goes on in the line buffer, or
  \<open>None\<close> while \<open>bufvalid\<close> is 0. The buffer after \<open>fgets\<close> is a C string: it ends at the first NUL.
\<close>

section \<open>Words\<close>

definition BSIZE :: nat where
  "BSIZE = 1024"

definition MAXNG :: int where
  "MAXNG = 10"

text \<open>
  The literal continues with \<open>\0xc2\0xa0\<close>, but \<open>\0\<close> is a NUL character and ends the string.
\<close>

definition skipchar :: string where
  "skipchar = '' '' @ [CHR 0x09, CHR 0x0A, CHR 0x0D] @ ''.,:;/<>()[]{}?!'' @ [CHR 0x22] @ ''-'' @ [CHR 0x27]"

record reader =
  infile :: string
  rest :: "string option"
  wcnt :: int

text \<open>A line of the file, cut off to fit the buffer.\<close>

definition fgets :: "string \<Rightarrow> (string \<times> string) option" where
  "fgets file =
     (if file = [] then None
      else let k = min (length (takeWhile (\<lambda>c. c \<noteq> CHR 0x0A) file) + 1) (BSIZE - 1) in Some (take k file, drop k file))"

definition c_string :: "string \<Rightarrow> string" where
  "c_string s = takeWhile (\<lambda>c. c \<noteq> CHR 0x00) s"

definition strtok :: "string \<Rightarrow> (string \<times> string) option" where
  "strtok s =
     (let s = dropWhile (\<lambda>c. c \<in> set skipchar) s in
      if s = [] then None
      else Some (takeWhile (\<lambda>c. c \<notin> set skipchar) s, tl (dropWhile (\<lambda>c. c \<notin> set skipchar) s)))"

lemma fgets_shorter: "fgets file = Some (l, file') \<Longrightarrow> length file' < length file"
  by (auto simp: fgets_def BSIZE_def split: if_splits)

function get_word :: "reader \<Rightarrow> string option \<times> reader" where
  "get_word rd =
     (case (case rest rd of None \<Rightarrow> None | Some r \<Rightarrow> strtok r) of
        Some (s, r) \<Rightarrow> (Some s, rd\<lparr>rest := Some r, wcnt := to_int (wcnt rd + 1)\<rparr>)
      | None \<Rightarrow>
          (case fgets (infile rd) of
             None \<Rightarrow> (None, rd)
           | Some (buf, file) \<Rightarrow>
               (case strtok (c_string buf) of
                  Some (s, r) \<Rightarrow> (Some s, rd\<lparr>infile := file, rest := Some r, wcnt := to_int (wcnt rd + 1)\<rparr>)
                | None \<Rightarrow> get_word (rd\<lparr>infile := file, rest := Some []\<rparr>))))"
  by pat_completeness auto
termination
  by (relation "measure (\<lambda>rd. length (infile rd))") (auto dest: fgets_shorter)

declare get_word.simps [simp del]

section \<open>N-grams\<close>

text \<open>The static variables of \<open>get_token\<close>.\<close>

record tokens = reader +
  token_buf :: "string list"
  first :: bool
  bindex :: int

definition store :: "string \<Rightarrow> tokens \<Rightarrow> tokens option" where
  "store word t =
     (if 0 \<le> bindex t \<and> bindex t < MAXNG \<and> length word < BSIZE
      then Some (t\<lparr>token_buf := (token_buf t)[nat (bindex t) := word], bindex := bindex t + 1\<rparr>) else None)"

definition next_word :: "tokens \<Rightarrow> string option \<times> tokens" where
  "next_word t =
     (let (w, rd) = get_word (reader.truncate t)
      in (w, t\<lparr>infile := infile rd, rest := rest rd, wcnt := wcnt rd\<rparr>))"

text \<open>The first \<open>ngram - 1\<close> words; \<open>False\<close> when the document has fewer.\<close>

function fill :: "int \<Rightarrow> tokens \<Rightarrow> (bool \<times> tokens) option" where
  "fill ngram t =
     (if bindex t < ngram - 1 then
        case next_word t of
          (None, t) \<Rightarrow> Some (False, t)
        | (Some word, t) \<Rightarrow> (case store word t of None \<Rightarrow> None | Some t \<Rightarrow> fill ngram t)
      else Some (True, t))"
  by pat_completeness auto
termination
  by (relation "measure (\<lambda>(ngram, t). nat (ngram - 1 - bindex t))")
    (auto simp: store_def next_word_def split: if_splits prod.splits)

declare fill.simps [simp del]

text \<open>The words from \<open>index\<close> on, \<open>k\<close> of them, behind \<open>sbuf\<close>.\<close>

fun join_words :: "nat \<Rightarrow> int \<Rightarrow> bool \<Rightarrow> string \<Rightarrow> string list \<Rightarrow> string option" where
  "join_words 0 index i0 sbuf buf = (if length sbuf < BSIZE then Some sbuf else None)"
| "join_words (Suc k) index i0 sbuf buf =
     (if 0 \<le> index \<and> index < MAXNG then
        let sbuf = (if i0 then sbuf else sbuf @ '' '') @ buf ! nat index in
        if length sbuf < BSIZE
        then join_words k (if index + 1 \<ge> MAXNG then 0 else index + 1) False sbuf buf else None
      else None)"

text \<open>The result is \<open>None\<close> for a write outside an array; the first component is what \<open>get_token\<close> returns.\<close>

definition get_token :: "int \<Rightarrow> tokens \<Rightarrow> (string option \<times> tokens) option" where
  "get_token ngram t =
     (if ngram = 1 then Some (next_word t)
      else
        case (if first t then fill ngram t else Some (True, t)) of
          None \<Rightarrow> None
        | Some (False, t) \<Rightarrow> Some (None, t)
        | Some (True, t) \<Rightarrow>
            let t = t\<lparr>first := False\<rparr> in
            case next_word t of
              (None, t) \<Rightarrow> Some (None, t)
            | (Some word, t) \<Rightarrow>
                (case store word t of
                   None \<Rightarrow> None
                 | Some t \<Rightarrow>
                     let t = (if bindex t \<ge> MAXNG then t\<lparr>bindex := 0\<rparr> else t);
                         index = bindex t - ngram;
                         index = (if index < 0 then index + MAXNG else index)
                     in (case join_words (nat ngram) index True [] (token_buf t) of
                           None \<Rightarrow> None
                         | Some sbuf \<Rightarrow> Some (Some sbuf, t))))"

section \<open>The words of a file\<close>

lemma strtok_shorter: "strtok s = Some (w, r) \<Longrightarrow> length r < length s"
proof -
  let ?s = "dropWhile (\<lambda>c. c \<in> set skipchar) s"
  assume "strtok s = Some (w, r)"
  then have r: "?s \<noteq> []" "r = tl (dropWhile (\<lambda>c. c \<notin> set skipchar) ?s)" by (auto simp: strtok_def Let_def split: if_splits)
  have h: "hd ?s \<notin> set skipchar" using hd_dropWhile [OF r(1)] by simp
  then obtain c cs where "?s = c # cs" "c \<notin> set skipchar" using r(1) by (cases ?s) auto
  then have "length r < length ?s" using r(2) length_dropWhile_le [of "\<lambda>c. c \<notin> set skipchar" cs] by simp
  then show ?thesis using length_dropWhile_le [of "\<lambda>c. c \<in> set skipchar" s] by simp
qed

function words_of :: "string \<Rightarrow> string list" where
  "words_of s = (case strtok s of None \<Rightarrow> [] | Some (w, r) \<Rightarrow> w # words_of r)"
  by pat_completeness auto
termination
  by (relation "measure length") (auto dest: strtok_shorter)

declare words_of.simps [simp del]

function lines_of :: "string \<Rightarrow> string list" where
  "lines_of file = (case fgets file of None \<Rightarrow> [] | Some (l, file') \<Rightarrow> l # lines_of file')"
  by pat_completeness auto
termination
  by (relation "measure length") (auto dest: fgets_shorter)

declare lines_of.simps [simp del]

definition pending :: "'a reader_scheme \<Rightarrow> string list" where
  "pending rd = (case rest rd of None \<Rightarrow> [] | Some r \<Rightarrow> words_of r) @ concat (map (\<lambda>l. words_of (c_string l)) (lines_of (infile rd)))"

lemma words_of_Nil [simp]: "words_of [] = []"
  by (simp add: words_of.simps strtok_def)

text \<open>\<open>get_word\<close> delivers the pending words one after the other.\<close>

lemma get_word_pending:
  "case pending rd of
     [] \<Rightarrow> fst (get_word rd) = None \<and> pending (snd (get_word rd)) = [] \<and> wcnt (snd (get_word rd)) = wcnt rd
   | w # ws \<Rightarrow> fst (get_word rd) = Some w \<and> pending (snd (get_word rd)) = ws \<and> wcnt (snd (get_word rd)) = to_int (wcnt rd + 1)"
proof (induction rd rule: get_word.induct)
  case (1 rd)
  show ?case
  proof (cases "case rest rd of None \<Rightarrow> None | Some r \<Rightarrow> strtok r")
    case (Some x)
    then obtain r w r' where "rest rd = Some r" "strtok r = Some (w, r')" "x = (w, r')" by (cases x) (auto split: option.splits)
    note r = this
    from r have "get_word rd = (Some w, rd\<lparr>rest := Some r', wcnt := to_int (wcnt rd + 1)\<rparr>)" "pending rd = w # pending (rd\<lparr>rest := Some r'\<rparr>)"
      by (subst get_word.simps, simp) (use r in \<open>simp add: pending_def words_of.simps [of r]\<close>)
    then show ?thesis by (simp add: pending_def)
  next
    case None
    then have r: "(case rest rd of None \<Rightarrow> [] | Some r \<Rightarrow> words_of r) = []"
      by (auto simp: words_of.simps split: option.splits)
    show ?thesis
    proof (cases "fgets (infile rd)")
      case fN: None
      then have "pending rd = []" using r by (simp add: pending_def lines_of.simps [of "infile rd"])
      moreover have "get_word rd = (None, rd)" using None fN by (subst get_word.simps) simp
      ultimately show ?thesis by simp
    next
      case (Some y)
      then obtain l f where f: "fgets (infile rd) = Some (l, f)" by (cases y) auto
      then have p: "pending rd = words_of (c_string l) @ concat (map (\<lambda>l. words_of (c_string l)) (lines_of f))"
        using r by (simp add: pending_def lines_of.simps [of "infile rd"])
      show ?thesis
      proof (cases "strtok (c_string l)")
        case sN: None
        then have "words_of (c_string l) = []" by (simp add: words_of.simps)
        then have "pending rd = pending (rd\<lparr>infile := f, rest := Some []\<rparr>)" using p by (simp add: pending_def)
        moreover have "get_word rd = get_word (rd\<lparr>infile := f, rest := Some []\<rparr>)"
          using None f sN by (subst get_word.simps) simp
        ultimately show ?thesis using 1 [OF None f _ sN] by (simp split: list.splits)
      next
        case (Some z)
        then obtain w r' where z: "strtok (c_string l) = Some (w, r')" by (cases z) auto
        then have "pending rd = w # pending (rd\<lparr>infile := f, rest := Some r'\<rparr>)"
          using p by (simp add: pending_def words_of.simps [of "c_string l"])
        moreover have "get_word rd = (Some w, rd\<lparr>infile := f, rest := Some r', wcnt := to_int (wcnt rd + 1)\<rparr>)"
          using None f z by (subst get_word.simps) simp
        ultimately show ?thesis by (simp add: pending_def)
      qed
    qed
  qed
qed

text \<open>In a file whose lines fit the buffer the words are those of the text as a whole.\<close>

lemma words_of_split:
  "c \<in> set skipchar \<Longrightarrow> words_of (a @ c # b) = words_of a @ words_of b"
proof (induction "length a" arbitrary: a rule: less_induct)
  case less
  let ?sk = "\<lambda>c. c \<in> set skipchar" and ?w = "\<lambda>c. c \<notin> set skipchar"
  show ?case
  proof (cases "\<forall>x \<in> set a. ?sk x")
    case True
    then have "dropWhile ?sk (a @ c # b) = dropWhile ?sk b" "dropWhile ?sk a = []" using less(2) by (auto simp: dropWhile_append)
    then show ?thesis by (subst (1 2 3) words_of.simps) (simp add: strtok_def)
  next
    case False
    define a' where "a' = dropWhile ?sk a"
    have a': "a' \<noteq> []" "dropWhile ?sk (a @ c # b) = a' @ c # b" using False by (auto simp: a'_def dropWhile_append)
    have "strtok a = Some (takeWhile ?w a', tl (dropWhile ?w a'))" using a'(1) unfolding strtok_def Let_def a'_def [symmetric] by simp
    moreover have "length (tl (dropWhile ?w a')) < length a" using calculation strtok_shorter by blast
    moreover have "strtok (a @ c # b) = Some (takeWhile ?w (a' @ c # b), tl (dropWhile ?w (a' @ c # b)))"
      using a' by (simp add: strtok_def Let_def)
    moreover have "takeWhile ?w (a' @ c # b) = takeWhile ?w a'" using less(2) by (auto simp: takeWhile_append takeWhile_eq_all_conv [THEN iffD2])
    ultimately show ?thesis
    proof (cases "dropWhile ?w a' = []")
      case True
      then have "dropWhile ?w (a' @ c # b) = c # b" using less(2) by (auto simp: dropWhile_append)
      then show ?thesis
        using \<open>strtok a = _\<close> \<open>strtok (a @ c # b) = _\<close> \<open>takeWhile ?w (a' @ c # b) = _\<close> True
        by (simp add: words_of.simps [of a] words_of.simps [of "a @ c # b"])
    next
      case False
      then have "dropWhile ?w (a' @ c # b) = dropWhile ?w a' @ c # b" by (auto simp: dropWhile_append)
      then have "tl (dropWhile ?w (a' @ c # b)) = tl (dropWhile ?w a') @ c # b" using False by simp
      then show ?thesis
        using \<open>strtok a = _\<close> \<open>strtok (a @ c # b) = _\<close> \<open>takeWhile ?w (a' @ c # b) = _\<close> less(1) [OF \<open>length _ < _\<close> less(2)]
        by (simp add: words_of.simps [of a] words_of.simps [of "a @ c # b"])
    qed
  qed
qed

text \<open>The lengths of the lines of a file.\<close>

fun short_lines :: "nat \<Rightarrow> string \<Rightarrow> bool" where
  "short_lines k [] = True"
| "short_lines k (c # cs) = (k + 1 < BSIZE \<and> short_lines (if c = CHR 0x0A then 0 else k + 1) cs)"

lemma short_lines_line: "short_lines k fl \<Longrightarrow> fl \<noteq> [] \<Longrightarrow>
  let l = takeWhile (\<lambda>c. c \<noteq> CHR 0x0A) fl in
  (if length l < length fl then k + length l + 1 < BSIZE else k + length l < BSIZE) \<and> short_lines 0 (drop (length l + 1) fl)"
proof (induction k fl rule: short_lines.induct)
  case (2 k c cs)
  then show ?case by (cases "cs = []") (auto simp: Let_def)
qed simp

lemma lines_of_words:
  "short_lines 0 fl \<Longrightarrow> CHR 0x00 \<notin> set fl \<Longrightarrow> concat (map (\<lambda>l. words_of (c_string l)) (lines_of fl)) = words_of fl"
proof (induction "length fl" arbitrary: fl rule: less_induct)
  case less
  show ?case
  proof (cases "fl = []")
    case True
    then show ?thesis by (simp add: lines_of.simps fgets_def)
  next
    case False
    let ?l = "takeWhile (\<lambda>c. c \<noteq> CHR 0x0A) fl"
    note sl = short_lines_line [OF less(2) False, unfolded Let_def]
    have nul: "c_string (take k fl) = take k fl" for k
      using less(3) by (auto simp: c_string_def takeWhile_eq_all_conv dest: in_set_takeD)
    show ?thesis
    proof (cases "length ?l < length fl")
      case True
      then have "fl ! length ?l = CHR 0x0A" using nth_length_takeWhile [OF True] by simp
      then have split: "fl = ?l @ CHR 0x0A # drop (length ?l + 1) fl"
        using True by (metis Cons_nth_drop_Suc Suc_eq_plus1 append_take_drop_id takeWhile_eq_take)
      have f: "fgets fl = Some (take (length ?l + 1) fl, drop (length ?l + 1) fl)"
        using sl True False by (auto simp: fgets_def Let_def BSIZE_def min_def)
      have t: "take (length ?l + 1) fl = ?l @ [CHR 0x0A]"
        using True \<open>fl ! length ?l = _\<close> by (simp add: take_Suc_conv_app_nth takeWhile_eq_take [symmetric])
      have "words_of fl = words_of ?l @ words_of (drop (length ?l + 1) fl)"
        by (subst split) (simp add: words_of_split skipchar_def)
      moreover have "words_of (?l @ [CHR 0x0A]) = words_of ?l"
        using words_of_split [of "CHR 0x0A" ?l "[]"] by (simp add: skipchar_def)
      moreover have "concat (map (\<lambda>l. words_of (c_string l)) (lines_of (drop (length ?l + 1) fl))) = words_of (drop (length ?l + 1) fl)"
        using less(3) sl False by (intro less(1)) (auto dest: in_set_dropD)
      ultimately show ?thesis using nul [of "length ?l + 1"] t by (simp add: lines_of.simps [of fl] f)
    next
      case F: False
      then have l: "?l = fl" by (metis takeWhile_eq_take take_all not_less)
      then have "fgets fl = Some (fl, [])" using sl F False by (simp add: fgets_def Let_def BSIZE_def min_def)
      then show ?thesis using nul [of "length fl"] by (simp add: lines_of.simps [of fl] lines_of.simps [of "[]"] fgets_def)
    qed
  qed
qed

section \<open>The n-grams of a document\<close>

text \<open>Words joined by spaces, and all sequences of \<open>n\<close> consecutive words.\<close>

definition unwords :: "string list \<Rightarrow> string" where
  "unwords ws = (case ws of [] \<Rightarrow> [] | w # ws \<Rightarrow> w @ concat (map (\<lambda>w. CHR '' '' # w) ws))"

definition ngrams :: "nat \<Rightarrow> string list \<Rightarrow> string list" where
  "ngrams k ws = map (\<lambda>i. unwords (take k (drop i ws))) [0..<length ws + 1 - k]"

text \<open>
  The state of \<open>get_token\<close> when \<open>k\<close> of the words \<open>ws\<close> have been read: the ring buffer holds the last
  ten of them.
\<close>

definition ring :: "int \<Rightarrow> string list \<Rightarrow> nat \<Rightarrow> tokens \<Rightarrow> bool" where
  "ring ngram ws k t \<longleftrightarrow> k \<le> length ws \<and> pending t = drop k ws \<and> wcnt t = to_int (int k) \<and> length (token_buf t) = 10 \<and>
     (\<forall>j < k. k \<le> j + 10 \<longrightarrow> token_buf t ! (j mod 10) = ws ! j) \<and> bindex t = int (k mod 10) \<and>
     (first t \<longrightarrow> int k < ngram)"

lemma next_word_pending:
  assumes "pending t = drop k ws" "wcnt t = to_int (int k)" "k \<le> length ws"
  shows "k < length ws \<Longrightarrow> \<exists>t'. next_word t = (Some (ws ! k), t') \<and> pending t' = drop (Suc k) ws \<and> wcnt t' = to_int (int (Suc k)) \<and>
           token_buf t' = token_buf t \<and> bindex t' = bindex t \<and> first t' = first t"
    "k = length ws \<Longrightarrow> \<exists>t'. next_word t = (None, t') \<and> wcnt t' = to_int (int k)"
proof -
  obtain w rd where g: "get_word (reader.truncate t) = (w, rd)" by (cases "get_word (reader.truncate t)")
  have p: "pending (reader.truncate t) = drop k ws" using assms(1) by (simp add: pending_def reader.defs)
  have p': "pending (t\<lparr>infile := infile rd, rest := rest rd, wcnt := wcnt rd\<rparr>) = pending rd" by (simp add: pending_def)
  have w: "wcnt (reader.truncate t) = to_int (int k)" using assms(2) by (simp add: reader.defs)
  have suc: "to_int (to_int (int k) + 1) = to_int (int (Suc k))"
    by (simp only: to_int_add of_nat_Suc add.commute [of 1])
  note gp = get_word_pending [of "reader.truncate t", unfolded p g w suc fst_conv snd_conv]
  show "\<exists>t'. next_word t = (Some (ws ! k), t') \<and> pending t' = drop (Suc k) ws \<and> wcnt t' = to_int (int (Suc k)) \<and>
           token_buf t' = token_buf t \<and> bindex t' = bindex t \<and> first t' = first t" if "k < length ws"
    using gp that p' by (simp add: next_word_def g Cons_nth_drop_Suc [symmetric])
  show "\<exists>t'. next_word t = (None, t') \<and> wcnt t' = to_int (int k)" if "k = length ws"
    using gp that by (simp add: next_word_def g)
qed

lemma ring_distinct:
  assumes "j < k" "k < j + 10" shows "j mod 10 \<noteq> k mod (10 :: nat)"
proof
  assume "j mod 10 = k mod 10"
  then have "10 dvd k - j" using assms(1) by (metis mod_eq_dvd_iff_nat order_less_imp_le)
  then show False using assms dvd_imp_le [of 10 "k - j"] by simp
qed

lemma ring_advance:
  assumes r: "ring ngram ws k t" and k: "k < length ws" and l: "length (ws ! k) < BSIZE"
  shows "\<exists>t1 t2. next_word t = (Some (ws ! k), t1) \<and> store (ws ! k) t1 = Some t2 \<and> bindex t2 = int (k mod 10) + 1 \<and>
    first t2 = first t \<and> first t1 = first t \<and>
    (\<forall>b f. b = int (Suc k mod 10) \<longrightarrow> (f \<longrightarrow> int (Suc k) < ngram) \<longrightarrow> ring ngram ws (Suc k) (t2\<lparr>bindex := b, first := f\<rparr>))"
proof -
  from next_word_pending(1) [OF _ _ _ k] r obtain t1 where t1:
    "next_word t = (Some (ws ! k), t1)" "pending t1 = drop (Suc k) ws" "wcnt t1 = to_int (int (Suc k))"
    "token_buf t1 = token_buf t" "bindex t1 = bindex t" "first t1 = first t"
    unfolding ring_def by blast
  define t2 where "t2 = t1\<lparr>token_buf := (token_buf t1)[k mod 10 := ws ! k], bindex := int (k mod 10) + 1\<rparr>"
  have b: "bindex t = int (k mod 10)" "length (token_buf t) = 10" using r by (simp_all add: ring_def)
  have "store (ws ! k) t1 = Some t2"
    using b l t1(5) by (simp add: store_def t2_def MAXNG_def)
  moreover have "ring ngram ws (Suc k) (t2\<lparr>bindex := int (Suc k mod 10), first := f\<rparr>)" if "f \<longrightarrow> int (Suc k) < ngram" for f
  proof -
    have "(token_buf t)[k mod 10 := ws ! k] ! (j mod 10) = ws ! j" if j: "j < Suc k" "Suc k \<le> j + 10" for j
    proof (cases "j = k")
      case True
      then show ?thesis using b(2) by simp
    next
      case False
      then have "j mod 10 \<noteq> k mod 10" using j by (intro ring_distinct) simp_all
      then show ?thesis using r j False by (simp add: ring_def)
    qed
    then show ?thesis using that t1 b k by (simp add: ring_def t2_def pending_def)
  qed
  ultimately show ?thesis using t1 by (intro exI [of _ t1] exI [of _ t2]) (simp add: t2_def)
qed

lemma fill_ok:
  assumes "ring ngram ws k t" "first t" "ngram \<le> 10" "\<And>w. w \<in> set ws \<Longrightarrow> length w < BSIZE"
  shows "if int (length ws) < ngram - 1 then \<exists>t'. fill ngram t = Some (False, t') \<and> wcnt t' = to_int (int (length ws))
    else \<exists>t'. fill ngram t = Some (True, t') \<and> ring ngram ws (nat (ngram - 1)) t' \<and> first t'"
  using assms(1,2)
proof (induction "nat (ngram - 1) - k" arbitrary: k t)
  case 0
  then have k: "int k = ngram - 1" by (auto simp: ring_def)
  then have "fill ngram t = Some (True, t)" using 0 assms(3) by (subst fill.simps) (simp add: ring_def)
  moreover have "k = nat (ngram - 1)" "\<not> int (length ws) < ngram - 1" using k 0 by (auto simp: ring_def)
  ultimately show ?case using 0(2,3) by auto
next
  case (Suc n)
  then have k: "int k < ngram - 1" "bindex t = int k" using assms(3) by (auto simp: ring_def)
  show ?case
  proof (cases "k < length ws")
    case True
    with ring_advance [OF Suc.prems(1) True assms(4)] obtain t1 t2 where t:
      "next_word t = (Some (ws ! k), t1)" "store (ws ! k) t1 = Some t2" "bindex t2 = int (k mod 10) + 1" "first t2 = first t"
      "\<And>b f. b = int (Suc k mod 10) \<Longrightarrow> (f \<Longrightarrow> int (Suc k) < ngram) \<Longrightarrow> ring ngram ws (Suc k) (t2\<lparr>bindex := b, first := f\<rparr>)"
      by (metis nth_mem)
    have b: "bindex t2 = int (Suc k mod 10)" using t(3) k assms(3) by simp
    have "t2\<lparr>bindex := int (Suc k mod 10), first := True\<rparr> = t2" using b t(4) Suc.prems(2) by simp
    then have "ring ngram ws (Suc k) t2" using t(5) [of "int (Suc k mod 10)" True] k by simp
    moreover have "fill ngram t = fill ngram t2" using t k by (subst fill.simps) simp
    moreover have "n = nat (ngram - 1) - Suc k" using Suc.hyps(2) by simp
    ultimately show ?thesis using Suc.hyps(1) [of "Suc k" t2] t(4) Suc.prems(2) by simp
  next
    case False
    then have e: "k = length ws" using Suc.prems(1) by (simp add: ring_def)
    obtain t' where "next_word t = (None, t')" "wcnt t' = to_int (int k)"
      using next_word_pending(2) [of t k ws] Suc.prems(1) e by (auto simp: ring_def)
    then have "fill ngram t = Some (False, t')" using k by (subst fill.simps) simp
    then show ?thesis using e k \<open>wcnt t' = to_int (int k)\<close> by simp
  qed
qed

lemma join_words_ok:
  assumes "\<And>i. i < m \<Longrightarrow> buf ! ((j + i) mod 10) = ws ! (j + i)" "j + m \<le> length ws"
    and "length (sbuf @ (if i0 then unwords (take m (drop j ws)) else concat (map (\<lambda>w. CHR '' '' # w) (take m (drop j ws))))) < BSIZE"
  shows "join_words m (int (j mod 10)) i0 sbuf buf =
    Some (sbuf @ (if i0 then unwords (take m (drop j ws)) else concat (map (\<lambda>w. CHR '' '' # w) (take m (drop j ws)))))"
  using assms
proof (induction m arbitrary: j i0 sbuf)
  case 0
  then show ?case by (simp add: unwords_def)
next
  case (Suc m)
  have d: "drop j ws = ws ! j # drop (Suc j) ws" using Suc.prems(2) by (simp add: Cons_nth_drop_Suc)
  have b: "buf ! (j mod 10) = ws ! j" using Suc.prems(1) [of 0] by simp
  have i: "(if int (j mod 10) + 1 \<ge> MAXNG then 0 else int (j mod 10) + 1) = int (Suc j mod 10)"
    by (auto simp: MAXNG_def mod_Suc)
  let ?sbuf = "(if i0 then sbuf else sbuf @ '' '') @ ws ! j"
  have e: "sbuf @ (if i0 then unwords (take (Suc m) (drop j ws)) else concat (map (\<lambda>w. CHR '' '' # w) (take (Suc m) (drop j ws)))) =
      ?sbuf @ concat (map (\<lambda>w. CHR '' '' # w) (take m (drop (Suc j) ws)))"
    by (simp add: d unwords_def)
  have "join_words m (int (Suc j mod 10)) False ?sbuf buf = Some (?sbuf @ concat (map (\<lambda>w. CHR '' '' # w) (take m (drop (Suc j) ws))))"
    using Suc.IH [of "Suc j" ?sbuf False] Suc.prems(1) [of "Suc _"] Suc.prems(2,3) unfolding e by simp
  moreover have "length ?sbuf < BSIZE" using Suc.prems(3) unfolding e by simp
  moreover have "int (j mod 10) < MAXNG" by (simp add: MAXNG_def)
  ultimately show ?case unfolding e using b i by (simp add: Let_def)
qed

text \<open>One call delivers the next n-gram. Before the first call no word has been read.\<close>

definition read_words :: "int \<Rightarrow> nat \<Rightarrow> nat" where
  "read_words ngram p = (if p = 0 then 0 else p + nat ngram - 1)"

definition token_inv :: "int \<Rightarrow> string list \<Rightarrow> nat \<Rightarrow> tokens \<Rightarrow> bool" where
  "token_inv ngram ws p t \<longleftrightarrow> p + nat ngram \<le> length ws + 1 \<and> ring ngram ws (read_words ngram p) t \<and> (first t \<longleftrightarrow> p = 0)"

lemma ring_index:
  assumes "n \<le> 10" "n \<le> k"
  shows "(let i = int (k mod 10) - int n in if i < 0 then i + MAXNG else i) = int ((k - n) mod 10)"
proof -
  let ?i = "int (k mod 10) - int n"
  have "int ((k - n) mod 10) = (int k - int n) mod 10" using assms(2) by (simp add: of_nat_mod of_nat_diff)
  also have "\<dots> = ?i mod 10" by (simp add: of_nat_mod mod_diff_left_eq)
  also have "\<dots> = (if ?i < 0 then ?i + 10 else ?i)"
  proof (cases "?i < 0")
    case True
    have "?i mod 10 = (?i + 10) mod 10" by simp
    also have "\<dots> = ?i + 10" using True assms(1) by (intro mod_pos_pos_trivial) simp_all
    finally show ?thesis using True by simp
  next
    case False
    moreover have "int (k mod 10) < 10" by simp
    ultimately show ?thesis by (simp only: if_False) (rule mod_pos_pos_trivial; linarith)
  qed
  finally show ?thesis by (simp add: MAXNG_def Let_def)
qed

text \<open>The part of \<open>get_token\<close> behind the first words.\<close>

lemma get_token_tail:
  assumes n: "1 < ngram" "ngram \<le> 10" and r: "ring ngram ws k t" and k: "k + 1 = p + nat ngram" "k < length ws"
    and fits_buffers: "\<And>w. w \<in> set ws \<Longrightarrow> length w < BSIZE" "length (unwords (take (nat ngram) (drop p ws))) < BSIZE"
    and f: "get_token ngram t0 = (let t = t\<lparr>first := False\<rparr> in get_token ngram t)"
  shows "\<exists>t'. get_token ngram t0 = Some (Some (unwords (take (nat ngram) (drop p ws))), t') \<and>
    ring ngram ws (Suc k) t' \<and> \<not> first t'"
proof -
  have r: "ring ngram ws k (t\<lparr>first := False\<rparr>)" using r by (simp add: ring_def pending_def)
  from ring_advance [OF r k(2) fits_buffers(1) [OF nth_mem [OF k(2)]]] obtain t1 t2 where t:
    "next_word (t\<lparr>first := False\<rparr>) = (Some (ws ! k), t1)" "store (ws ! k) t1 = Some t2" "bindex t2 = int (k mod 10) + 1"
    "\<not> first t2" "\<not> first t1"
    "\<And>b f. b = int (Suc k mod 10) \<Longrightarrow> (f \<Longrightarrow> int (Suc k) < ngram) \<Longrightarrow> ring ngram ws (Suc k) (t2\<lparr>bindex := b, first := f\<rparr>)"
    by auto
  define t' where "t' = (if bindex t2 \<ge> MAXNG then t2\<lparr>bindex := 0\<rparr> else t2)"
  have b: "bindex t' = int (Suc k mod 10)" "token_buf t' = token_buf t2" "\<not> first t'"
    using t(3,4) by (auto simp: t'_def MAXNG_def mod_Suc)
  have "t2\<lparr>bindex := int (Suc k mod 10), first := False\<rparr> = t'"
    using b(1) t(3,4) by (auto simp: t'_def)
  then have r': "ring ngram ws (Suc k) t'" using t(6) [of "int (Suc k mod 10)" False] by simp
  have np: "Suc k - nat ngram = p" "nat ngram \<le> Suc k" "nat ngram \<le> 10" using k n by auto
  have "join_words (nat ngram) (int (p mod 10)) True [] (token_buf t') = Some (unwords (take (nat ngram) (drop p ws)))"
  proof -
    have "token_buf t' ! ((p + i) mod 10) = ws ! (p + i)" if "i < nat ngram" for i
      using r' that k np n by (simp add: ring_def)
    then show ?thesis using join_words_ok [of "nat ngram" "token_buf t'" p ws "[]" True] k fits_buffers(2) by simp
  qed
  then have "get_token ngram (t\<lparr>first := False\<rparr>) = Some (Some (unwords (take (nat ngram) (drop p ws))), t')"
    using n t(1,2,5) ring_index [OF np(3,2)] b(1) np(1)
    by (cases "int (Suc k mod 10) < ngram") (simp_all add: get_token_def Let_def t'_def [symmetric])
  then show ?thesis using f r' b(3) by (simp add: Let_def)
qed

text \<open>The state behind the first words of the document.\<close>

lemma get_token_filled:
  assumes n: "1 < ngram" "ngram \<le> 10" and r: "ring ngram ws (read_words ngram p) t" "first t \<longleftrightarrow> p = 0"
    and fits_buffers: "\<And>w. w \<in> set ws \<Longrightarrow> length w < BSIZE" and e: "p + nat ngram \<le> length ws + 1"
  shows "\<exists>t'. ring ngram ws (p + nat ngram - 1) t' \<and> get_token ngram t = (let t = t'\<lparr>first := False\<rparr> in get_token ngram t)"
proof (cases "p = 0")
  case True
  with r have rt: "ring ngram ws 0 t" "first t" by (simp_all add: read_words_def)
  have "\<not> int (length ws) < ngram - 1" using e True by simp
  with fill_ok [OF rt n(2) fits_buffers] obtain t' where t': "fill ngram t = Some (True, t')" "ring ngram ws (nat (ngram - 1)) t'" by auto
  have "nat (ngram - 1) = p + nat ngram - 1" using True by simp
  moreover have "get_token ngram t = get_token ngram (t'\<lparr>first := False\<rparr>)"
    using t'(1) rt(2) n(1) by (simp add: get_token_def Let_def)
  ultimately show ?thesis using t'(2) by auto
next
  case False
  then have "t\<lparr>first := False\<rparr> = t" using r(2) by simp
  then show ?thesis using r(1) False by (auto simp: read_words_def)
qed

lemma get_token_ok:
  assumes n: "1 < ngram" "ngram \<le> 10" and r: "ring ngram ws (read_words ngram p) t" "first t \<longleftrightarrow> p = 0"
    and fits_buffers: "\<And>w. w \<in> set ws \<Longrightarrow> length w < BSIZE"
    and l: "p + nat ngram \<le> length ws" "length (unwords (take (nat ngram) (drop p ws))) < BSIZE"
  shows "\<exists>t'. get_token ngram t = Some (Some (unwords (take (nat ngram) (drop p ws))), t') \<and>
        ring ngram ws (read_words ngram (Suc p)) t' \<and> \<not> first t'"
proof -
  have "p + nat ngram \<le> length ws + 1" using l(1) by simp
  from get_token_filled [OF n r fits_buffers this] obtain t' where
    t': "ring ngram ws (p + nat ngram - 1) t'" "get_token ngram t = (let t = t'\<lparr>first := False\<rparr> in get_token ngram t)" by blast
  have k: "p + nat ngram - 1 + 1 = p + nat ngram" "p + nat ngram - 1 < length ws" using l(1) n(1) by auto
  show ?thesis using get_token_tail [OF n t'(1) k fits_buffers l(2) t'(2)] n(1) by (simp add: read_words_def)
qed

lemma get_token_end:
  assumes n: "1 < ngram" "ngram \<le> 10" and r: "ring ngram ws (read_words ngram p) t" "first t \<longleftrightarrow> p = 0"
    and fits_buffers: "\<And>w. w \<in> set ws \<Longrightarrow> length w < BSIZE"
    and e: "p + nat ngram = length ws + 1 \<or> p = 0 \<and> length ws < nat ngram"
  shows "\<exists>t'. get_token ngram t = Some (None, t') \<and> wcnt t' = to_int (int (length ws))"
proof (cases "p + nat ngram \<le> length ws + 1")
  case True
  then have k: "p + nat ngram - 1 = length ws" using e n(1) by auto
  from get_token_filled [OF n r fits_buffers True] obtain t' where
    t': "ring ngram ws (length ws) t'" "get_token ngram t = (let t = t'\<lparr>first := False\<rparr> in get_token ngram t)"
    unfolding k by blast
  have "pending (t'\<lparr>first := False\<rparr>) = drop (length ws) ws" "wcnt (t'\<lparr>first := False\<rparr>) = to_int (int (length ws))"
    using t'(1) by (simp_all add: ring_def pending_def)
  from next_word_pending(2) [OF this le_refl refl] obtain t2 where
    "next_word (t'\<lparr>first := False\<rparr>) = (None, t2)" "wcnt t2 = to_int (int (length ws))" by blast
  then show ?thesis using t'(2) n(1) by (simp add: get_token_def Let_def)
next
  case False
  with e n r have rt: "ring ngram ws 0 t" "first t" and "int (length ws) < ngram - 1" by (auto simp: read_words_def)
  with fill_ok [OF rt n(2) fits_buffers] obtain t' where "fill ngram t = Some (False, t')" "wcnt t' = to_int (int (length ws))" by auto
  then show ?thesis using rt(2) n(1) by (simp add: get_token_def)
qed

text \<open>Both kinds of tokens, single words and n-grams.\<close>

definition token_at :: "int \<Rightarrow> string list \<Rightarrow> nat \<Rightarrow> tokens \<Rightarrow> bool" where
  "token_at ngram ws p t \<longleftrightarrow>
     (if ngram = 1 then p \<le> length ws \<and> pending t = drop p ws \<and> wcnt t = to_int (int p)
      else ring ngram ws (read_words ngram p) t \<and> (first t \<longleftrightarrow> p = 0))"

definition fits_buffers :: "int \<Rightarrow> string list \<Rightarrow> bool" where
  "fits_buffers ngram ws \<longleftrightarrow> (\<forall>s \<in> set ws \<union> set (ngrams (nat ngram) ws). length s < BSIZE)"

lemma ngrams_nth: "p < length (ngrams k ws) \<Longrightarrow> ngrams k ws ! p = unwords (take k (drop p ws))"
  by (simp add: ngrams_def)

lemma length_ngrams [simp]: "length (ngrams k ws) = length ws + 1 - k"
  by (simp add: ngrams_def)

lemma token_step:
  assumes n: "1 \<le> ngram" "ngram \<le> 10" and f: "fits_buffers ngram ws" and t: "token_at ngram ws p t"
    and p: "p < length (ngrams (nat ngram) ws)"
  shows "\<exists>t'. get_token ngram t = Some (Some (ngrams (nat ngram) ws ! p), t') \<and> token_at ngram ws (Suc p) t'"
proof (cases "ngram = 1")
  case True
  then have l: "p < length ws" using p by simp
  then have "ngrams (nat ngram) ws ! p = ws ! p"
    unfolding ngrams_nth [OF p] using True by (simp add: unwords_def Cons_nth_drop_Suc [symmetric])
  with next_word_pending(1) [of t p ws] l t True show ?thesis by (auto simp: token_at_def get_token_def)
next
  case False
  then have n1: "1 < ngram" and l: "p + nat ngram \<le> length ws" using n(1) p by auto
  have fw: "\<And>w. w \<in> set ws \<Longrightarrow> length w < BSIZE" using f by (simp add: fits_buffers_def)
  have "length (ngrams (nat ngram) ws ! p) < BSIZE" using f nth_mem [OF p] by (simp add: fits_buffers_def)
  moreover have r: "ring ngram ws (read_words ngram p) t" "first t \<longleftrightarrow> p = 0" using t False by (simp_all add: token_at_def)
  ultimately show ?thesis using get_token_ok [OF n1 n(2) r fw l] False by (auto simp: ngrams_nth [OF p] token_at_def)
qed

lemma token_end:
  assumes n: "1 \<le> ngram" "ngram \<le> 10" and f: "fits_buffers ngram ws" and t: "token_at ngram ws p t"
    and p: "p = length (ngrams (nat ngram) ws)"
  shows "\<exists>t'. get_token ngram t = Some (None, t') \<and> wcnt t' = to_int (int (length ws))"
proof (cases "ngram = 1")
  case True
  then show ?thesis using next_word_pending(2) [of t p ws] t p by (auto simp: token_at_def get_token_def)
next
  case False
  then have n1: "1 < ngram" using n(1) by auto
  have fw: "\<And>w. w \<in> set ws \<Longrightarrow> length w < BSIZE" using f by (simp add: fits_buffers_def)
  have r: "ring ngram ws (read_words ngram p) t" "first t \<longleftrightarrow> p = 0" using t False by (simp_all add: token_at_def)
  have "p + nat ngram = length ws + 1 \<or> p = 0 \<and> length ws < nat ngram" using p by auto
  from get_token_end [OF n1 n(2) r fw this] show ?thesis .
qed

section \<open>The program\<close>

text \<open>Every token uses up a part of the input.\<close>

definition left :: "'a reader_scheme \<Rightarrow> nat" where
  "left rd = length (infile rd) + (case rest rd of None \<Rightarrow> 0 | Some r \<Rightarrow> length r)"

lemma get_word_shorter:
  "left (snd (get_word rd)) \<le> left rd \<and> (fst (get_word rd) \<noteq> None \<longrightarrow> left (snd (get_word rd)) < left rd)"
proof (induction rd rule: get_word.induct)
  case (1 rd)
  show ?case
  proof (cases "case rest rd of None \<Rightarrow> None | Some r \<Rightarrow> strtok r")
    case (Some x)
    then obtain r w r' where r: "rest rd = Some r" "strtok r = Some (w, r')" by (cases x) (auto split: option.splits)
    then have "get_word rd = (Some w, rd\<lparr>rest := Some r', wcnt := to_int (wcnt rd + 1)\<rparr>)" by (subst get_word.simps) simp
    then show ?thesis using r strtok_shorter [OF r(2)] by (simp add: left_def)
  next
    case None
    show ?thesis
    proof (cases "fgets (infile rd)")
      case fN: None
      then have "get_word rd = (None, rd)" using None by (subst get_word.simps) simp
      then show ?thesis by simp
    next
      case (Some y)
      then obtain l f where f: "fgets (infile rd) = Some (l, f)" by (cases y) auto
      then have "length l + length f = length (infile rd)"
        by (auto simp: fgets_def Let_def split: if_splits)
      then have le: "length (c_string l) + length f \<le> left rd"
        using length_takeWhile_le [of "\<lambda>c. c \<noteq> CHR 0x00" l] by (simp add: left_def c_string_def)
      show ?thesis
      proof (cases "strtok (c_string l)")
        case sN: None
        then have "get_word rd = get_word (rd\<lparr>infile := f, rest := Some []\<rparr>)"
          using None f by (subst get_word.simps) simp
        moreover have "left (rd\<lparr>infile := f, rest := Some []\<rparr>) \<le> left rd" using le by (simp add: left_def)
        ultimately show ?thesis using 1 [OF None f refl sN] by auto
      next
        case (Some z)
        then obtain w r' where z: "strtok (c_string l) = Some (w, r')" by (cases z) auto
        then have "get_word rd = (Some w, rd\<lparr>infile := f, rest := Some r', wcnt := to_int (wcnt rd + 1)\<rparr>)"
          using None f by (subst get_word.simps) simp
        then show ?thesis using le strtok_shorter [OF z] by (simp add: left_def)
      qed
    qed
  qed
qed

lemma next_word_shorter:
  assumes "next_word t = (w, t')" shows "left t' \<le> left t" "w \<noteq> None \<Longrightarrow> left t' < left t"
  using assms get_word_shorter [of "reader.truncate t"]
  by (auto simp: next_word_def left_def reader.defs split: prod.splits)

lemma store_left: "store w t = Some t' \<Longrightarrow> left t' = left t"
  by (auto simp: store_def left_def split: if_splits)

lemma fill_left: "fill ngram t = Some (b, t') \<Longrightarrow> left t' \<le> left t"
proof (induction ngram t rule: fill.induct)
  case (1 ngram t)
  show ?case
  proof (cases "bindex t < ngram - 1")
    case True
    obtain w t1 where w: "next_word t = (w, t1)" by (cases "next_word t")
    show ?thesis
    proof (cases w)
      case None
      then show ?thesis using 1(2) True w next_word_shorter(1) [OF w] by (subst (asm) fill.simps) simp
    next
      case (Some word)
      then obtain t2 where t2: "store word t1 = Some t2" "fill ngram t2 = Some (b, t')"
        using 1(2) True w by (subst (asm) fill.simps) (auto split: option.splits)
      have "left t' \<le> left t2" using 1(1) [OF True w [symmetric] Some t2(1)] t2(2) w Some by simp
      then show ?thesis using store_left [OF t2(1)] next_word_shorter(1) [OF w] by simp
    qed
  next
    case False
    then show ?thesis using 1(2) by (subst (asm) fill.simps) simp
  qed
qed

lemma get_token_left: "get_token ngram t = Some (Some s, t') \<Longrightarrow> left t' < left t"
proof (cases "ngram = 1")
  case True
  assume "get_token ngram t = Some (Some s, t')"
  then show ?thesis using True next_word_shorter(2) [of t "Some s" t'] by (simp add: get_token_def)
next
  case False
  assume g: "get_token ngram t = Some (Some s, t')"
  then obtain t1 where t1: "(if first t then fill ngram t else Some (True, t)) = Some (True, t1)"
    using False by (auto simp: get_token_def split: option.splits prod.splits bool.splits)
  then have l1: "left t1 \<le> left t" using fill_left by (auto split: if_splits)
  obtain w t2 where w: "next_word (t1\<lparr>first := False\<rparr>) = (w, t2)" by fastforce
  then obtain word where w': "w = Some word" using g False t1 by (cases w) (auto simp: get_token_def Let_def)
  then obtain t3 where t3: "store word t2 = Some t3"
    using g False t1 w by (cases "store word t2") (auto simp: get_token_def Let_def)
  then have "left t' = left t3"
    using g False t1 w w' by (auto simp: get_token_def Let_def left_def split: if_splits option.splits)
  moreover have "left (t1\<lparr>first := False\<rparr>) = left t1" by (simp add: left_def)
  ultimately show ?thesis using next_word_shorter(2) [OF w] w' store_left [OF t3] l1 by simp
qed

text \<open>\<open>while ((s = get_token(ngram))) insert_string(s, ...)\<close>.\<close>

function word_loop :: "int \<Rightarrow> (int \<Rightarrow> string \<Rightarrow> c_uint option) \<Rightarrow> (string \<Rightarrow> string) \<Rightarrow>
    (h_rec list \<Rightarrow> string \<Rightarrow> dict \<Rightarrow> h_rec list \<times> dict) \<Rightarrow> tokens \<Rightarrow> dict \<Rightarrow> (tokens \<times> dict) option" where
  "word_loop ngram hash_fun lower_fun find_ele_fun t d =
     (case get_token ngram t of
        None \<Rightarrow> None
      | Some (None, t) \<Rightarrow> Some (t, d)
      | Some (Some s, t) \<Rightarrow>
          (case insert_string s hash_fun lower_fun find_ele_fun d of
             None \<Rightarrow> None
           | Some d \<Rightarrow> word_loop ngram hash_fun lower_fun find_ele_fun t d))"
  by pat_completeness auto
termination
  by (relation "measure (\<lambda>(ngram, h, l, f, t, d). left t)") (auto dest: get_token_left)

declare word_loop.simps [simp del]

text \<open>The static variables before the first call.\<close>

definition init_token :: "string \<Rightarrow> tokens" where
  "init_token file = \<lparr>infile = file, rest = None, wcnt = 0, token_buf = replicate 10 [], first = True, bindex = 0\<rparr>"

text \<open>
  The result is the listing, at most \<open>verbose\<close> elements, \<open>wcnt\<close>, and the other statistics. For a
  negative size \<open>calloc\<close> fails, and the program exits.
\<close>

definition word_freq :: "((h_rec \<Rightarrow> h_rec \<Rightarrow> int) \<Rightarrow> h_rec list \<Rightarrow> h_rec list) \<Rightarrow> string \<Rightarrow> int \<Rightarrow> int \<Rightarrow> int \<Rightarrow> bool \<Rightarrow>
    (int \<Rightarrow> string \<Rightarrow> c_uint option) \<Rightarrow> (string \<Rightarrow> string) \<Rightarrow>
    (h_rec list \<Rightarrow> string \<Rightarrow> dict \<Rightarrow> h_rec list \<times> dict) \<Rightarrow> (h_rec list \<times> int \<times> dict) option" where
  "word_freq qsort file verbose ngram k quick hash_fun lower_fun find_ele_fun =
     (if k < 0 then None
      else case word_loop ngram hash_fun lower_fun find_ele_fun (init_token file) (new_table k) of
        None \<Rightarrow> None
      | Some (t, d) \<Rightarrow>
          if verbose > 0 then
            (case sort_words qsort quick d of
               None \<Rightarrow> None
             | Some (ls, d) \<Rightarrow> Some (take (nat verbose) ls, wcnt t, d))
          else Some ([], wcnt t, d))"

lemma word_loop_eq:
  assumes n: "1 \<le> ngram" "ngram \<le> 10" and f: "fits_buffers ngram ws" and t: "token_at ngram ws p t"
    and p: "p \<le> length (ngrams (nat ngram) ws)"
  shows "case insert_all (drop p (ngrams (nat ngram) ws)) h l fe d of
      None \<Rightarrow> word_loop ngram h l fe t d = None
    | Some d' \<Rightarrow> \<exists>t'. word_loop ngram h l fe t d = Some (t', d') \<and> wcnt t' = to_int (int (length ws))"
  using t p
proof (induction "length (ngrams (nat ngram) ws) - p" arbitrary: p t d)
  case 0
  then have p: "p = length (ngrams (nat ngram) ws)" by simp
  from token_end [OF n f 0(2) p] show ?case by (auto simp: p word_loop.simps [of _ _ _ _ t])
next
  case (Suc m)
  then have p: "p < length (ngrams (nat ngram) ws)" by simp
  from token_step [OF n f Suc.prems(1) p] obtain t' where
    t': "get_token ngram t = Some (Some (ngrams (nat ngram) ws ! p), t')" "token_at ngram ws (Suc p) t'" by blast
  have d: "drop p (ngrams (nat ngram) ws) = ngrams (nat ngram) ws ! p # drop (Suc p) (ngrams (nat ngram) ws)"
    using p by (simp add: Cons_nth_drop_Suc)
  have m: "m = length (ngrams (nat ngram) ws) - Suc p" "Suc p \<le> length (ngrams (nat ngram) ws)" using Suc.hyps(2) p by auto
  show ?case
  proof (cases "insert_string (ngrams (nat ngram) ws ! p) h l fe d")
    case None
    then show ?thesis by (simp add: d word_loop.simps [of _ _ _ _ t] t'(1))
  next
    case (Some d1)
    have "word_loop ngram h l fe t d = word_loop ngram h l fe t' d1" by (subst word_loop.simps) (simp add: t'(1) Some)
    then show ?thesis using Some Suc.hyps(1) [OF m(1) t'(2) m(2), of d1] by (simp add: d split: option.splits)
  qed
qed

lemma token_at_init:
  assumes "1 \<le> ngram" "short_lines 0 file" "CHR 0x00 \<notin> set file"
  shows "token_at ngram (words_of file) 0 (init_token file)"
  using lines_of_words [OF assms(2,3)] assms(1)
  by (simp add: token_at_def ring_def read_words_def pending_def init_token_def to_int_small)

section \<open>What the program computes\<close>

definition lower_tokens :: "nat \<Rightarrow> string \<Rightarrow> string list" where
  "lower_tokens k file = map (map lower_char) (ngrams k (words_of file))"

text \<open>A document that the buffers of the program can hold, with fewer words than an \<open>int\<close> can count.\<close>

definition document :: "int \<Rightarrow> string \<Rightarrow> bool" where
  "document ngram file \<longleftrightarrow> short_lines 0 file \<and> CHR 0x00 \<notin> set file \<and> fits_buffers ngram (words_of file) \<and>
     length (words_of file) < 2 ^ 31"

lemma document_count: "document ngram file \<Longrightarrow> to_int (int (length (words_of file))) = int (length (words_of file))"
  by (intro to_int_small) (simp_all add: document_def)

lemma document_tokens:
  assumes "1 \<le> ngram" "document ngram file"
  shows "length (lower_tokens (nat ngram) file) < 2 ^ 31" "w \<in> set (lower_tokens (nat ngram) file) \<Longrightarrow> length w < 2 ^ 31"
proof -
  have "length (words_of file) < 2 ^ 31" using assms(2) by (simp add: document_def)
  moreover have "length (words_of file) + 1 - nat ngram \<le> length (words_of file)" using assms(1) by simp
  ultimately show "length (lower_tokens (nat ngram) file) < 2 ^ 31" by (simp add: lower_tokens_def)
  show "length w < 2 ^ 31" if "w \<in> set (lower_tokens (nat ngram) file)"
    using that assms(2) by (force simp: document_def fits_buffers_def lower_tokens_def BSIZE_def)
qed

lemma word_loop_ok:
  assumes n: "1 \<le> ngram" "ngram \<le> 10" and doc: "document ngram file" and k: "0 < k" "k < 2 ^ 31"
    and h: "h \<in> set hash_fun_set" and l: "lower \<in> set lower_fun_set" and f: "fe \<in> set find_ele_fun_set"
  shows "\<exists>t d. word_loop ngram h lower fe (init_token file) (new_table k) = Some (t, d) \<and>
    wcnt t = int (length (words_of file)) \<and> htable_ok h (lower_tokens (nat ngram) file) d"
proof -
  have ts: "tsize (new_table k) = k" by (simp add: new_table_def)
  have "\<exists>d. insert_all (ngrams (nat ngram) (words_of file)) h lower fe (new_table k) = Some d \<and>
      htable_ok h (lower_tokens (nat ngram) file) d"
    using insert_all_ok [OF new_table_ok _ _ hash_funs [OF h] find_funs [OF f] lower_funs [OF l], of k "ngrams (nat ngram) (words_of file)"] k
      document_tokens(1) [OF n(1) doc]
    by (auto simp: ts lower_tokens_def)
  then obtain d where d: "insert_all (ngrams (nat ngram) (words_of file)) h lower fe (new_table k) = Some d"
    "htable_ok h (lower_tokens (nat ngram) file) d" by blast
  have "token_at ngram (words_of file) 0 (init_token file)" "fits_buffers ngram (words_of file)"
    using token_at_init n doc by (simp_all add: document_def)
  from word_loop_eq [OF n this(2,1), of h lower fe "new_table k"] d show ?thesis by (auto simp: document_count [OF doc])
qed

text \<open>C27: A document has fewer than \<open>2^31\<close> words, no NUL character, and lines, words and n-grams that fit
  the buffers of 1024 bytes. The program lists the n-grams of such a document, in lower case, each once
  with the number of its occurrences, the most frequent first, at most as many as are asked for, and
  counts words and singletons, whichever functions it is run with; it reads outside its array when a
  listing is asked for and there is no n-gram.\<close>

theorem word_freq_listing:
  assumes "1 \<le> ngram" "ngram \<le> 10" "document ngram file" "0 < k" "k < 2 ^ 31" "sorts qsort"
    and "h \<in> set hash_fun_set" "lower \<in> set lower_fun_set" "fe \<in> set find_ele_fun_set" "0 < verbose"
  shows "if lower_tokens (nat ngram) file = [] then word_freq qsort file verbose ngram k quick h lower fe = None
    else \<exists>es d. word_freq qsort file verbose ngram k quick h lower fe =
             Some (take (nat verbose) es, int (length (words_of file)), d) \<and>
           mset es = frequencies (lower_tokens (nat ngram) file) \<and> descending es \<and> scnt d = singletons es"
proof -
  from word_loop_ok [OF assms(1-5,7-9)] obtain t d where
    w: "word_loop ngram h lower fe (init_token file) (new_table k) = Some (t, d)" "wcnt t = int (length (words_of file))"
    and ok: "htable_ok h (lower_tokens (nat ngram) file) d" by blast
  show ?thesis
  proof (cases "lower_tokens (nat ngram) file = []")
    case True
    then have "mset (concat (htable d)) = {#}" using ok by (simp add: htable_ok_def frequencies_def)
    then have "concat (htable d) = []" by (simp only: mset_zero_iff)
    then show ?thesis using True w assms(4,10) by (simp add: word_freq_def sort_words_empty)
  next
    case False
    from sort_words_ok [OF ok False assms(6) document_tokens(1) [OF assms(1,3)], of quick] obtain es where
      "sort_words qsort quick d = Some (es, d\<lparr>scnt := singletons es\<rparr>)" "mset es = frequencies (lower_tokens (nat ngram) file)" "descending es"
      by blast
    then show ?thesis using False w assms(4,10) by (auto simp: word_freq_def)
  qed
qed

definition lib_qsort :: "(h_rec \<Rightarrow> h_rec \<Rightarrow> int) \<Rightarrow> h_rec list \<Rightarrow> h_rec list" where
  "lib_qsort compare es = sort_key (\<lambda>e. - snd e) es"

lemma lib_qsort_sorts: "sorts lib_qsort"
proof -
  have "sorted_wrt (\<lambda>x y. compare_ele x y \<le> 0) (sort_key (\<lambda>e. - snd e) xs)"
    if xs: "\<forall>e \<in> set xs. 0 \<le> snd e \<and> snd e < 2 ^ 31" for xs
  proof (rule sorted_wrt_mono_rel)
    show "sorted_wrt (\<lambda>x y. snd y \<le> snd x) (sort_key (\<lambda>e. - snd e) xs)"
      using sorted_sort_key [of "\<lambda>e. - snd e" xs] by (simp add: sorted_map)
  next
    fix x y :: h_rec assume "x \<in> set (sort_key (\<lambda>e. - snd e) xs)" "y \<in> set (sort_key (\<lambda>e. - snd e) xs)" "snd y \<le> snd x"
    moreover from this have "0 \<le> snd x \<and> snd x < 2 ^ 31" "0 \<le> snd y" using xs by (simp_all only: set_sort)
    ultimately have "to_int (snd y - snd x) = snd y - snd x" by (intro to_int_small) simp_all
    then show "compare_ele x y \<le> 0" using \<open>snd y \<le> snd x\<close> by (simp add: compare_ele_def)
  qed
  then show ?thesis by (simp add: sorts_def lib_qsort_def)
qed

definition demo_text :: string where
  "demo_text = ''The cat, the hat'' @ [CHR 0x0A] @ ''and THE end.'' @ [CHR 0x0A]"

lemma demo_document: "document 2 demo_text" "document 1 demo_text"
proof -
  have "length (words_of demo_text) = 7" by code_simp
  moreover have "short_lines 0 demo_text" "CHR 0x00 \<notin> set demo_text"
    "fits_buffers 2 (words_of demo_text)" "fits_buffers 1 (words_of demo_text)"
    by code_simp+
  ultimately show "document 2 demo_text" "document 1 demo_text" by (simp_all add: document_def)
qed

lemma word_freq_listing_witness:
  "\<exists>es d. word_freq lib_qsort demo_text 3 1 7 False h_mod lower1 find_ele_iter_f =
     Some (take 3 es, 7, d) \<and> mset es = frequencies [''the'', ''cat'', ''the'', ''hat'', ''and'', ''the'', ''end''] \<and>
     descending es \<and> scnt d = singletons es"
proof -
  have t: "lower_tokens (nat 1) demo_text = [''the'', ''cat'', ''the'', ''hat'', ''and'', ''the'', ''end'']"
    and l: "length (words_of demo_text) = 7"
    by code_simp+
  show ?thesis
    using word_freq_listing [OF _ _ demo_document(2) _ _ lib_qsort_sorts, of 7 h_mod lower1 find_ele_iter_f 3 False]
    unfolding t l by (simp add: hash_fun_set_def lower_fun_set_def find_ele_fun_set_def)
qed

text \<open>C28: On a document as in C27 the statistics are those of the tokens, whichever functions the program
  is run with: the number of different tokens, the largest number of occurrences and a token that has
  it, except that they stay 0 and empty when no token occurs twice, the length of the longest tokens,
  one of them, and how many different tokens have it. The number of tokens that occur once is counted
  only when a listing is asked for, and 0 otherwise. The number that is printed as that of the n-grams
  is the number of words.\<close>

theorem word_freq_statistics:
  assumes "1 \<le> ngram" "ngram \<le> 10" "document ngram file" "0 < k" "k < 2 ^ 31" "sorts qsort"
    and "h \<in> set hash_fun_set" "lower \<in> set lower_fun_set" "fe \<in> set find_ele_fun_set"
    and "lower_tokens (nat ngram) file = ws" "ws \<noteq> []"
  shows "\<exists>ls d. word_freq qsort file verbose ngram k quick h lower fe = Some (ls, int (length (words_of file)), d) \<and>
    ucnt d = int (card (set ws)) \<and>
    scnt d = (if 0 < verbose then int (card {w \<in> set ws. count_list ws w = 1}) else 0) \<and>
    (\<forall>w. 2 \<le> count_list ws w \<longrightarrow> int (count_list ws w) \<le> mcnt d) \<and>
    (mcnt d = 0 \<and> mstring d = [] \<or> 2 \<le> mcnt d \<and> int (count_list ws (mstring d)) = mcnt d) \<and>
    (\<forall>w \<in> set ws. int (length w) \<le> llen d) \<and> lstring d \<in> set ws \<and> int (length (lstring d)) = llen d \<and>
    lcnt d = int (card {w \<in> set ws. int (length w) = llen d})"
proof -
  from word_loop_ok [OF assms(1-5,7-9)] obtain t d where
    w: "word_loop ngram h lower fe (init_token file) (new_table k) = Some (t, d)" "wcnt t = int (length (words_of file))"
    and ok: "htable_ok h ws d" unfolding assms(10) by blast
  have d: "d\<lparr>htable := [], tsize := 0\<rparr> = word_tally ws" using ok by (simp add: htable_ok_def)
  then have stats: "ucnt d = ucnt (word_tally ws)" "mcnt d = mcnt (word_tally ws)" "mstring d = mstring (word_tally ws)"
    "llen d = llen (word_tally ws)" "lstring d = lstring (word_tally ws)" "lcnt d = lcnt (word_tally ws)" "scnt d = 0"
    using tally_scnt [of ws] by (simp_all flip: d)
  note len = document_tokens [OF assms(1,3), unfolded assms(10)]
  from sort_words_ok [OF ok assms(11,6) len(1), of quick] obtain es where
    es: "sort_words qsort quick d = Some (es, d\<lparr>scnt := singletons es\<rparr>)" "mset es = frequencies ws" by blast
  let ?c = "if 0 < verbose then int (card {w \<in> set ws. count_list ws w = 1}) else 0"
  have "\<exists>ls. word_freq qsort file verbose ngram k quick h lower fe = Some (ls, int (length (words_of file)), d\<lparr>scnt := ?c\<rparr>)"
  proof (cases "0 < verbose")
    case True
    then show ?thesis using w es assms(4) singletons_frequencies [OF es(2)] by (auto simp: word_freq_def)
  next
    case False
    then show ?thesis using w assms(4) stats(7)
      by (intro exI [of _ "[]"]) (simp add: word_freq_def)
  qed
  then obtain ls where r: "word_freq qsort file verbose ngram k quick h lower fe = Some (ls, int (length (words_of file)), d\<lparr>scnt := ?c\<rparr>)"
    by blast
  show ?thesis
    using tally_counts [of ws] tally_lengths [OF len] longest_ge [of _ ws] assms(11) stats
    by (intro exI [of _ ls] exI [of _ "d\<lparr>scnt := ?c\<rparr>"]) (simp add: r)
qed

lemma word_freq_statistics_witness:
  "\<exists>ls d. word_freq lib_qsort demo_text 0 2 7 True h_xor lower2 find_ele_rec = Some (ls, 7, d) \<and> ucnt d = 6 \<and> scnt d = 0 \<and>
     (mcnt d = 0 \<and> mstring d = [] \<or> 2 \<le> mcnt d) \<and> int (length (lstring d)) = llen d"
proof -
  have t: "lower_tokens (nat 2) demo_text = [''the cat'', ''cat the'', ''the hat'', ''hat and'', ''and the'', ''the end'']"
    and l: "length (words_of demo_text) = 7"
    and c: "card (set [''the cat'', ''cat the'', ''the hat'', ''hat and'', ''and the'', ''the end'']) = 6"
    by code_simp+
  show ?thesis
    using word_freq_statistics [OF _ _ demo_document(1) _ _ lib_qsort_sorts, of 7 h_xor lower2 find_ele_rec _ 0 True, OF _ _ _ _ _ _ _ t]
    unfolding l c by (force simp: hash_fun_set_def lower_fun_set_def find_ele_fun_set_def)
qed

text \<open>C29: Whatever is done with the tokens, the program passes to \<open>insert_string\<close> all sequences of
  \<open>ngram\<close> consecutive words of a document as in C27, in order, joined by spaces, and counts all words;
  where its lines end and the ring buffer of ten words do not show.\<close>

theorem tokens_are_ngrams:
  assumes "1 \<le> ngram" "ngram \<le> 10" "document ngram file"
  shows "map_option (\<lambda>(t, d). (wcnt t, d)) (word_loop ngram hash_fun lower_fun find_ele_fun (init_token file) d) =
    map_option (Pair (int (length (words_of file)))) (insert_all (ngrams (nat ngram) (words_of file)) hash_fun lower_fun find_ele_fun d)"
proof -
  have "token_at ngram (words_of file) 0 (init_token file)" "fits_buffers ngram (words_of file)"
    using token_at_init assms by (simp_all add: document_def)
  from word_loop_eq [OF assms(1,2) this(2,1), of hash_fun lower_fun find_ele_fun d]
  show ?thesis using document_count [OF assms(3)] by (auto split: option.splits)
qed

lemma tokens_are_ngrams_witness:
  "map_option (\<lambda>(t, d). (wcnt t, d)) (word_loop 2 h_mod lower1 find_ele_rec (init_token demo_text) (new_table 5)) =
   map_option (Pair 7) (insert_all [''The cat'', ''cat the'', ''the hat'', ''hat and'', ''and THE'', ''THE end'']
     h_mod lower1 find_ele_rec (new_table 5))"
proof -
  have "ngrams (nat 2) (words_of demo_text) = [''The cat'', ''cat the'', ''the hat'', ''hat and'', ''and THE'', ''THE end'']"
    "length (words_of demo_text) = 7"
    by code_simp+
  then show ?thesis using tokens_are_ngrams [OF _ _ demo_document(1), of h_mod lower1 find_ele_rec "new_table 5"] by simp
qed

text \<open>More than ten words do not fit the ring buffer, and \<open>ngram\<close> is not checked.\<close>

lemma ngram_overflow:
  "get_token 11 (init_token ''a b c d e f g h i j k l'') = None"
  by code_simp

text \<open>
  The options of \<open>main\<close>; an index outside the tables of names is used to read them before it is checked.
\<close>

definition dict_main :: "((h_rec \<Rightarrow> h_rec \<Rightarrow> int) \<Rightarrow> h_rec list \<Rightarrow> h_rec list) \<Rightarrow> string \<Rightarrow> int \<Rightarrow> int \<Rightarrow> int \<Rightarrow> int \<Rightarrow> int \<Rightarrow> int \<Rightarrow> bool \<Rightarrow>
    (h_rec list \<times> int \<times> dict) option" where
  "dict_main qsort file verbose k hash_fun_index lower_fun_index find_fun_index ngram quick =
     (if 0 \<le> hash_fun_index \<and> hash_fun_index < int (length hash_fun_set) \<and>
         0 \<le> lower_fun_index \<and> lower_fun_index < int (length lower_fun_set) \<and>
         0 \<le> find_fun_index \<and> find_fun_index < int (length find_ele_fun_set)
      then word_freq qsort file verbose ngram k quick (hash_fun_set ! nat hash_fun_index)
             (lower_fun_set ! nat lower_fun_index) (find_ele_fun_set ! nat find_fun_index)
      else None)"

end
