(* ===== verification/Spec2Isabelle.thy ===== *)
theory Spec2Isabelle
  imports Prelude Datalab_Bits Datalab_Float Cache_Sim Transpose Boundary_Tags Malloc_Lab
    Textbook_Malloc Rec_Malloc Stree Range_Set Combine_Vec Combine_Loops Combine_Simd Tsh_Jobs Tsh_Parse Tsh Sbuf Dict_Table Dict_Words
begin

text \<open>
  Verification of the C programs of the CMU 15-213 repository.

  \<^bold>\<open>The programs.\<close> The repository collects the laboratories of the course and the example code of its
  textbook. They are separate programs, which share styles rather than code: bit puzzles compared by a
  driver with reference functions (\<open>datalab\<close>), a cache simulator and transpose functions that a tracer
  runs and validates (\<open>cachelab\<close>), a storage allocator on a simulated heap (\<open>malloc/malloclab\<close>), its
  ancestor in the textbook (\<open>code_example_textbook/vm/malloc\<close>) and its smaller relatives of a
  recitation with their driver (\<open>malloc/f19-rec-malloc\<close>), a shell with job control (\<open>shlab/tsh.c\<close>), a
  web proxy whose threads meet in a bounded buffer (\<open>proxylab\<close>), and from the textbook's chapter on
  optimisation (\<open>code_example_textbook/opt\<close>) the ladder of combining functions and the program that
  counts words. Each has its own theories, all on the vocabulary of \<open>Prelude\<close>.

  \<^bold>\<open>Conventions.\<close> A C \<open>int\<close> or \<open>unsigned\<close> is a 32-bit word where its width matters; addresses, sizes
  and counters that a run cannot make wrap are integers or naturals, with \<open>mod\<close> written out where they
  can: \<open>to_int\<close> of \<open>Prelude\<close> is the conversion to a 32-bit \<open>int\<close>. An access outside an array, through a
  null pointer or to an unaligned word is the value \<open>None\<close> (\<open>Fault\<close> in \<open>Sbuf\<close>), so that a theorem that
  a result is \<open>Some\<close> says that no such access happens. A C \<open>for\<close> loop is \<open>for_up\<close> of \<open>Prelude\<close>, which
  is total and has an invariant rule.

  \<^bold>\<open>Prelude.\<close> C types and operators, \<open>for_up\<close>, facts on lists and words; the collection \<open>c_simps\<close>.

  \<^bold>\<open>datalab.\<close> \<open>Datalab_Bits\<close> has the integer puzzles of \<open>bits.c\<close> and the references of \<open>tests.c\<close>, and
  shows each pair equal on all arguments. \<open>Datalab_Float\<close> has the float puzzles on bit patterns; a
  pattern denotes an exact multiple of \<open>2^-149\<close>, and the theorems give the value of every result, with
  the patterns on which the code departs from its specification.

  \<^bold>\<open>cachelab.\<close> \<open>Cache_Sim\<close> has the simulator of \<open>helper.c\<close>; the abstract cache keeps the tags of each
  set by recency, and the refinement theorem holds for traces of up to 500000 records, below the 999999
  at which the source's search for the oldest stamp saturates (the theorem \<open>WriteCache_late\<close> shows what
  happens then). The number of lines is computed in \<open>int\<close> as in the code and \<open>malloc\<close> is a parameter;
  \<open>geometry\<close> says that the cache fits both and that the set and block bits leave a tag, which the
  theorems assume. \<open>Transpose\<close> has \<open>trans.c\<close> with the table and validation of \<open>cachelab.c\<close> and the run
  of \<open>tracegen.c\<close>.

  \<^bold>\<open>malloclab.\<close> \<open>Boundary_Tags\<close> is the theory of heaps of tagged blocks: lists of blocks with first
  fit, splitting and joining as the abstract allocator, and the locale \<open>boundary_tags\<close> of a coding of
  tags. \<open>Malloc_Lab\<close> has \<open>memlib.c\<close>, \<open>macro.h\<close> and \<open>mm.c\<close>, interprets the locale on its macros, shows
  that each operation implements the abstract one, and from that the safety and progress of whole
  sessions of a client that also writes into its blocks. The laboratory is built for 32 bits: sizes,
  pointers and the break wrap at \<open>2^32\<close>. A session takes every size whose rounding and extension do not
  reach that end (\<open>safe_size\<close>) and reallocates unless a block must grow when memory is out;
  \<open>mm_malloc_small\<close>, \<open>mm_malloc_wraps\<close>, \<open>mm_malloc_break_wraps\<close> and \<open>mm_realloc_steals\<close> show what
  happens beyond. \<open>Rec_Malloc\<close> has the allocators of the recitation, \<open>malloc/f19-rec-malloc\<close>, with
  64-bit tags, on the dense heap of its \<open>memlib.c\<close>. Its two files differ in \<open>coalesce_block\<close> and
  \<open>split_block\<close>: locales state what the other functions need of these two, and the properties are
  proved from the contracts. \<open>split_block\<close> of \<open>mm.c\<close> does not meet its contract, and \<open>rec_split_crash\<close>
  says exactly when it fails, and \<open>rec_split_run\<close> is a run that does; \<open>mm-2.c\<close> meets both but writes
  into a payload. Requests are at most \<open>2^60\<close> bytes, far above the region; the rounding wraps only
  above \<open>2^64-32\<close>. \<open>Textbook_Malloc\<close> has the allocator of the textbook,
  \<open>code_example_textbook/vm/malloc\<close>, on the heap and macros of \<open>Malloc_Lab\<close> but with the 64-bit sizes
  and pointers of its build and with its own \<open>mem_sbrk\<close>. Its own heap checker is shown to accept every
  heap that a client can reach with sizes up to \<open>2^32-16\<close>; \<open>tb_malloc_2_32\<close> shows a size above, which
  the 32-bit tags and the \<open>int\<close> of \<open>mem_sbrk\<close> truncate.

  \<^bold>\<open>driver of the recitation.\<close> \<open>Stree\<close> has the splay trees of \<open>stree.c\<close>: a store of nodes with parent
  pointers represents a tree at the end of a path, each rotation and each loop of the code is a step on
  that pair, and from it every operation implements a finite map; the locale \<open>ordered_map\<close> is what
  clients need of it. \<open>Range_Set\<close> has the set of ranges of \<open>mdriver.c\<close>, a linked list and a tree over
  the same records, with which the driver looks for overlapping blocks; it does so exactly, except
  below the lowest range, where \<open>low_range_unchecked\<close> shows what it misses.

  \<^bold>\<open>optimisation examples.\<close> \<open>Combine_Vec\<close> has \<open>vec.c\<close> and the locales of the operator (associative with
  a neutral element, commutative besides); \<open>Combine_Loops\<close> the functions of \<open>combine.c\<close> that are plain
  loops; \<open>Combine_Simd\<close> those on vector registers, the table and the comparison of \<open>benchmark.c\<close>. The
  lemmas of a function say under which laws it equals the combination from left to right; wrapping
  addition and multiplication interpret both locales. A pointer is an index into the storage, or wraps
  when the storage is the null pointer of a vector of length 0 (\<open>ptr_add\<close>): seven functions then read
  through it (\<open>empty_vector_fault\<close>), and the theorems except them on such a vector (\<open>usable\<close>).

  \<^bold>\<open>shell.\<close> \<open>Tsh_Jobs\<close> has the job table, \<open>Tsh_Parse\<close> the parser, \<open>Tsh\<close> the commands, \<open>eval\<close>, \<open>waitfg\<close>
  and the signal handlers as a transition system that interleaves them with the kernel, which reports
  ended and stopped children, and with the user. Invariants by rule induction over reachable states tie
  the table to the children; where a claim needs an assumption on the run (\<open>calm\<close>: no \<open>SIGCHLD\<close> inside
  \<open>do_bgfg\<close>; \<open>modest\<close>: lines that fit the parser and fewer children than slots), a theorem shows the
  failure without it (\<open>foreground_race\<close>, \<open>full_table_crash\<close>).

  \<^bold>\<open>proxy.\<close> \<open>Sbuf\<close> has the buffer between the proxy's main thread and its workers, run statement by
  statement by any number of threads; its invariant counts the threads in each phase of an operation.

  \<^bold>\<open>word frequencies.\<close> \<open>Dict_Table\<close> has the hash table of \<open>dictionary.c\<close>: the hash functions and the
  search functions, which the program takes as function pointers, each meet a contract that is a
  locale; the table implements the abstract counter \<open>frequencies\<close> and \<open>word_tally\<close> for every choice of
  them. \<open>Dict_Words\<close> has the reading of words and n-grams and the program as a whole. Lines shorter
  than the buffer, no NUL and n-grams of up to ten words are what its buffers can hold, and fewer than
  \<open>2^31\<close> words what its \<open>int\<close> counters can count (\<open>document\<close>); the counters themselves wrap around in
  the model. The library's \<open>qsort\<close> is a parameter of which only sorting is assumed.

  \<^bold>\<open>Termination.\<close> Every definition is total or a partial function of the option monad. The loops of
  \<open>find_fit\<close> in \<open>Malloc_Lab\<close> and \<open>Rec_Malloc\<close>, the loop of the checker in \<open>Textbook_Malloc\<close> and the
  loops and recursions of \<open>Stree\<close> are \<open>None\<close> when they do not end; \<open>session_progress\<close>,
  \<open>rec_find_fit_first_fit\<close>, \<open>tb_session_progress\<close>, \<open>tb_session_checks\<close> and the theorems on the trees
  show that they end on every well-formed state.

  \<^bold>\<open>Not modelled.\<close> Input and output, system calls, timing and the code around them: option parsing,
  reading of traces and files, \<open>csapp.c\<close> and the \<open>tiny\<close> server, drivers that measure (\<open>fcyc\<close>, \<open>clock\<close>,
  the rest of \<open>mdriver\<close>), the network part of \<open>proxy.c\<close>; the sparse mode of the recitation's
  \<open>memlib.c\<close>; the frameworks of \<open>cprogramming\<close>, whose exercise \<open>queue.c\<close> is an unfinished stub; the
  unrolled and preprocessed copies of \<open>combine.c\<close> in the same directory, which are generated from it;
  the textbook's fragments, which mostly demonstrate an interface of the system; and binaries, traces
  and results. The manifest lists them one by one.
\<close>

end
